(* ===== verification/Prelude.thy ===== *)
theory Prelude
  imports Complex_Main "HOL-Library.AList" "HOL-Library.Sublist"
begin

text \<open>
  What every component of the model shares: Python exceptions as values, the string
  methods the code calls, dictionaries as insertion-ordered association lists, and the
  collections of rewrite rules the component proofs use.

  A Python \<open>str\<close> is a \<^typ>\<open>string\<close>, one \<^typ>\<open>char\<close> per code point, so the code points
  are those of Latin-1 (0 to 255), the range that HTTP headers are decoded to.
\<close>

named_theorems frame_simps \<open>fields an operation leaves alone\<close>
named_theorems inv_intros \<open>operations that keep a component's invariant\<close>

section \<open>Exceptions\<close>

text \<open>
  \<open>CircuitBreakerOpenError\<close> carries the breaker's name, \<open>HTTPException\<close> its status code and
  detail. Every other subclass of Python's \<open>Exception\<close> is a class name and a message.
  \<open>asyncio.CancelledError\<close> derives from \<open>BaseException\<close> only, so \<open>except Exception\<close> does not
  catch it.
\<close>

datatype exn =
    CircuitBreakerOpenError string
  | HTTPException int string
  | PyException string string
  | CancelledError

fun is_Exception :: "exn \<Rightarrow> bool" where
  "is_Exception CancelledError = False"
| "is_Exception _ = True"

fun type_name :: "exn \<Rightarrow> string" where
  "type_name (CircuitBreakerOpenError n) = ''CircuitBreakerOpenError''"
| "type_name (HTTPException c d) = ''HTTPException''"
| "type_name (PyException c m) = c"
| "type_name CancelledError = ''CancelledError''"

type_synonym 'a result = "exn + 'a"

section \<open>Strings\<close>

definition startswith :: "string \<Rightarrow> string \<Rightarrow> bool" where
  "startswith s p \<longleftrightarrow> take (length p) s = p"

lemma startswith_prefix: "startswith s p \<longleftrightarrow> prefix p s"
  unfolding startswith_def prefix_def by (metis append_eq_conv_conj)

lemma startswith_append [simp]: "startswith (p @ s) p"
  by (simp add: startswith_def)

text \<open>\<open>str.isspace\<close> on the Latin-1 range: what \<open>str.strip()\<close> removes.\<close>

definition is_space :: "char \<Rightarrow> bool" where
  "is_space c \<longleftrightarrow>
     (let n = of_char c :: nat
      in (9 \<le> n \<and> n \<le> 13) \<or> (28 \<le> n \<and> n \<le> 32) \<or> n = 133 \<or> n = 160)"

definition strip :: "string \<Rightarrow> string" where
  "strip s = rev (dropWhile is_space (rev (dropWhile is_space s)))"

definition removeprefix :: "string \<Rightarrow> string \<Rightarrow> string" where
  "removeprefix s p = (if startswith s p then drop (length p) s else s)"

text \<open>\<open>s.split(c)[0]\<close> and \<open>s.rstrip(c)\<close> for a one-character argument.\<close>

definition split_first :: "char \<Rightarrow> string \<Rightarrow> string" where
  "split_first c s = takeWhile (\<lambda>x. x \<noteq> c) s"

definition rstrip_char :: "char \<Rightarrow> string \<Rightarrow> string" where
  "rstrip_char c s = rev (dropWhile (\<lambda>x. x = c) (rev s))"

text \<open>Python's \<open>a or b\<close> on strings: the empty string is falsy.\<close>

definition str_or :: "string \<Rightarrow> string \<Rightarrow> string" where
  "str_or a b = (if a = [] then b else a)"

lemma dropWhile_hd: "dropWhile P xs = [] \<or> \<not> P (hd (dropWhile P xs))"
  by (induction xs) auto

lemma strip_ends:
  "strip s = [] \<or> (\<not> is_space (hd (strip s)) \<and> \<not> is_space (last (strip s)))"
proof (cases "strip s = []")
  case False
  let ?l = "dropWhile is_space s"
  let ?d = "dropWhile is_space (rev ?l)"
  have ne: "?d \<noteq> []" using False by (simp add: strip_def)
  have lst: "\<not> is_space (last (strip s))"
    using dropWhile_hd [of is_space "rev ?l"] ne unfolding strip_def last_rev by blast
  obtain pre where "rev ?l = pre @ ?d"
    by (metis takeWhile_dropWhile_id)
  then have split: "?l = rev ?d @ rev pre" by (metis rev_append rev_rev_ident)
  have "rev ?d \<noteq> []" using ne by (metis rev_is_Nil_conv)
  with split have "hd ?l = hd (rev ?d)" and "?l \<noteq> []"
    by (metis hd_append, metis append_is_Nil_conv)
  then have "\<not> is_space (hd (strip s))"
    using dropWhile_hd [of is_space s] unfolding strip_def by metis
  with lst show ?thesis by simp
qed simp

lemma strip_id:
  assumes "s \<noteq> []" "\<not> is_space (hd s)" "\<not> is_space (last s)"
  shows "strip s = s"
proof -
  have "dropWhile is_space s = s" using assms by (cases s) auto
  moreover have "dropWhile is_space (rev s) = rev s"
    using assms by (cases s rule: rev_cases) auto
  ultimately show ?thesis by (simp add: strip_def)
qed

section \<open>Dictionaries\<close>

text \<open>
  A \<open>dict\<close> is an association list in insertion order: \<open>AList.update\<close> overwrites in place or
  appends, as \<open>d[k] = v\<close> does, and \<open>map_of\<close> looks a key up.
\<close>

type_synonym 'v dict = "(string \<times> 'v) list"

definition dict_get :: "'v dict \<Rightarrow> string \<Rightarrow> 'v \<Rightarrow> 'v" where
  "dict_get d k dflt = (case map_of d k of None \<Rightarrow> dflt | Some v \<Rightarrow> v)"

abbreviation dict_set :: "'v dict \<Rightarrow> string \<Rightarrow> 'v \<Rightarrow> 'v dict" where
  "dict_set d k v \<equiv> AList.update k v d"

definition dict_ok :: "'v dict \<Rightarrow> bool" where
  "dict_ok d \<longleftrightarrow> distinct (map fst d)"

lemma dict_set_same [simp]: "map_of (dict_set d k v) k = Some v"
  by (simp add: update_conv')

lemma dict_set_other [simp]: "k' \<noteq> k \<Longrightarrow> map_of (dict_set d k v) k' = map_of d k'"
  by (simp add: update_conv')

lemma dict_set_ok [inv_intros]: "dict_ok d \<Longrightarrow> dict_ok (dict_set d k v)"
  by (simp add: dict_ok_def distinct_update)

lemma dict_set_fresh: "map_of d k = None \<Longrightarrow> dict_set d k v = d @ [(k, v)]"
  by (induction d) (auto split: if_splits)

lemma dict_set_keys:
  "map fst (dict_set d k v) = (if k \<in> fst ` set d then map fst d else map fst d @ [k])"
  by (simp add: update_keys)

lemma dict_set_all:
  "(\<forall>(k, v) \<in> set (dict_set d k0 v0). P k v) \<Longrightarrow> P k0 v0"
  by (induction d) (auto split: if_splits)

lemma dict_set_ball:
  assumes "\<And>k v. (k, v) \<in> set d \<Longrightarrow> P k v" "P k0 v0" "(k, v) \<in> set (dict_set d k0 v0)"
  shows "P k v"
  using assms by (induction d) (auto split: if_splits)

section \<open>Association lists and sums\<close>

lemma arrival_last:
  assumes "k \<notin> fst ` set xs"
  shows "map_of (xs @ [(k, v)]) k = Some v" "AList.delete k (xs @ [(k, v)]) = xs"
  using assms by (induction xs) (auto simp: AList.delete_eq)

lemma map_of_ball: "map_of xs k = Some v \<Longrightarrow> \<forall>(k, v) \<in> set xs. P v \<Longrightarrow> P v"
  by (auto dest: map_of_SomeD)

lemma update_ball: "\<forall>(k, v) \<in> set xs. P k v \<Longrightarrow> P k' v' \<Longrightarrow> \<forall>(k, v) \<in> set (AList.update k' v' xs). P k v"
  by (induction xs) auto

lemma delete_ball: "\<forall>(k, v) \<in> set xs. P k v \<Longrightarrow> \<forall>(k, v) \<in> set (AList.delete k' xs). P k v"
  by (auto simp: AList.delete_eq)

lemma delete_split:
  assumes "distinct (map fst xs)" "map_of xs k = Some v"
  shows "length (filter (\<lambda>(k, v). P v) xs) = length (filter (\<lambda>(k, v). P v) (AList.delete k xs)) + (if P v then 1 else 0)"
  using assms
proof (induction xs)
  case (Cons x xs)
  show ?case
  proof (cases "fst x = k")
    case True
    then have "k \<notin> fst ` set xs" using Cons.prems(1) by auto
    then have "AList.delete k xs = xs" by (simp add: AList.delete_id)
    then show ?thesis using True Cons.prems(2) by (cases x) simp
  next
    case False
    then show ?thesis using Cons by (cases x) auto
  qed
qed simp

lemma update_split:
  assumes "map_of xs k = Some v" "P v' = P v"
  shows "length (filter (\<lambda>(k, v). P v) (AList.update k v' xs)) = length (filter (\<lambda>(k, v). P v) xs)"
  using assms by (induction xs) (auto split: if_splits)

lemma delete_map_fst: "map fst (AList.delete k xs) = filter (\<lambda>j. j \<noteq> k) (map fst xs)"
  by (induction xs) auto

lemma map_sum_InrD: "Inr y = map_sum f g r \<Longrightarrow> \<exists>x. y = g x"
  by (cases r) auto

end
