(* ===== verification/PyFloat.thy ===== *)
theory PyFloat
  imports Prelude "HOL-Library.Log_Nat"
begin

text \<open>
  Python's \<open>float\<close>: IEEE-754 binary64 with round-to-nearest, ties to even. A finite float is
  the rational it denotes (\<open>Fin\<close>), next to the infinities and NaN; the sign of zero is not
  kept. \<open>round64\<close> is the rounding every arithmetic operation ends with, defined by its
  binary exponent so that it computes. The lemmas are the ones the components need: rounding
  is monotone, exact on representable numbers, and off by at most half a unit in the last
  place.
\<close>

section \<open>Rounding to nearest even\<close>

definition half_even :: "rat \<Rightarrow> int" where
  "half_even x =
     (let n = \<lfloor>x\<rfloor>; d = x - of_int n
      in if d < 1/2 then n else if d > 1/2 then n + 1 else if even n then n else n + 1)"

lemma half_even_of_int [simp]: "half_even (of_int n) = n"
  by (simp add: half_even_def)

lemma half_even_err: "\<bar>of_int (half_even x) - x\<bar> \<le> 1/2"
proof -
  define n where "n = \<lfloor>x\<rfloor>"
  have "of_int n \<le> x" "x < of_int n + 1"
    unfolding n_def by (rule of_int_floor_le) linarith
  then show ?thesis by (auto simp: half_even_def Let_def n_def [symmetric])
qed

lemma half_even_le_iff:
  assumes "x \<le> of_int n" shows "half_even x \<le> n"
proof (rule ccontr)
  assume "\<not> half_even x \<le> n"
  then have "of_int n + 1 \<le> (of_int (half_even x) :: rat)"
    by (metis linorder_not_le of_int_1 of_int_add of_int_le_iff zless_imp_add1_zle)
  with half_even_err [of x] assms show False by (simp add: abs_le_iff)
qed

lemma half_even_ge_iff:
  assumes "of_int n \<le> x" shows "n \<le> half_even x"
proof (rule ccontr)
  assume "\<not> n \<le> half_even x"
  then have "of_int (half_even x) + 1 \<le> (of_int n :: rat)"
    by (metis linorder_not_le of_int_1 of_int_add of_int_le_iff zless_imp_add1_zle)
  with half_even_err [of x] assms show False by (simp add: abs_le_iff)
qed

lemma half_even_mono:
  assumes "x \<le> y" shows "half_even x \<le> half_even y"
proof (cases "\<lfloor>x\<rfloor> = \<lfloor>y\<rfloor>")
  case True
  with assms show ?thesis by (auto simp: half_even_def Let_def)
next
  case False
  with floor_mono [OF assms] have le: "\<lfloor>x\<rfloor> + 1 \<le> \<lfloor>y\<rfloor>" by linarith
  have "x \<le> of_int (\<lfloor>x\<rfloor> + 1)" by linarith
  then have "half_even x \<le> \<lfloor>x\<rfloor> + 1" by (rule half_even_le_iff)
  moreover have "\<lfloor>y\<rfloor> \<le> half_even y" by (rule half_even_ge_iff) simp
  ultimately show ?thesis using le by linarith
qed

lemma half_even_uminus: "half_even (- x) = - half_even x"
proof (cases "x = of_int \<lfloor>x\<rfloor>")
  case True
  then show ?thesis by (metis half_even_of_int of_int_minus)
next
  case False
  define n where "n = \<lfloor>x\<rfloor>"
  have n: "of_int n < x" "x < of_int n + 1"
    using False unfolding n_def by linarith+
  then have "\<lfloor>- x\<rfloor> = - n - 1" by linarith
  with n show ?thesis
    by (auto simp: half_even_def Let_def n_def [symmetric])
qed

section \<open>Binary exponent\<close>

text \<open>The number of binary digits of a positive integer.\<close>

function bits :: "int \<Rightarrow> nat" where
  "bits n = (if n \<le> 0 then 0 else Suc (bits (n div 2)))"
  by pat_completeness auto
termination
  by (relation "measure nat") auto

declare bits.simps [simp del]

lemma bits_floorlog: "bits n = floorlog 2 (nat n)"
proof (induction n rule: bits.induct)
  case (1 n)
  then show ?case
    using compute_floorlog [of 2 "nat n"]
    by (cases "n \<le> 0") (simp_all add: bits.simps [of n] nat_div_distrib floorlog_def)
qed

text \<open>The exponent \<open>e\<close> with \<open>2^e \<le> \<bar>x\<bar> < 2^(e+1)\<close>, for \<open>x \<noteq> 0\<close>.\<close>

definition binexp :: "rat \<Rightarrow> int" where
  "binexp x =
     (let (p, q) = quotient_of \<bar>x\<bar>;
          d = int (bits p) - int (bits q)
      in if \<bar>x\<bar> < 2 powi d then d - 1 else d)"

lemma binexp_uminus [simp]: "binexp (- x) = binexp x"
  by (simp add: binexp_def)

lemma floorlog2_bounds:
  assumes "0 < p"
  shows "2 powi (int (floorlog 2 (nat p)) - 1) \<le> (of_int p :: rat)"
    and "(of_int p :: rat) < 2 powi int (floorlog 2 (nat p))"
proof -
  let ?k = "floorlog 2 (nat p)"
  have k: "0 < ?k" using assms by (simp add: floorlog_def)
  have b: "2 ^ (?k - 1) \<le> nat p \<and> nat p < 2 ^ ?k"
    using floorlog_bounds [of "nat p" 2] assms by simp
  have "(of_nat (2 ^ (?k - 1)) :: rat) \<le> of_nat (nat p)"
    using b by (simp only: of_nat_le_iff)
  then have "2 ^ (?k - 1) \<le> (of_int p :: rat)"
    using assms by simp
  moreover have "int ?k - 1 = int (?k - 1)" using k by simp
  ultimately show "2 powi (int ?k - 1) \<le> (of_int p :: rat)" by (simp only: power_int_of_nat)
  have "(of_nat (nat p) :: rat) < of_nat (2 ^ ?k)" using b by (simp only: of_nat_less_iff)
  then have "(of_int p :: rat) < 2 ^ ?k" using assms by simp
  then show "(of_int p :: rat) < 2 powi int ?k" by (simp only: power_int_of_nat)
qed

lemma binexp_bounds:
  assumes "x \<noteq> 0"
  shows "2 powi (binexp x) \<le> \<bar>x\<bar>" and "\<bar>x\<bar> < 2 powi (binexp x + 1)"
proof -
  obtain p q where pq: "quotient_of \<bar>x\<bar> = (p, q)" by fastforce
  have q: "0 < q" using quotient_of_denom_pos [OF pq] .
  have xx: "\<bar>x\<bar> = of_int p / of_int q" using quotient_of_div [OF pq] .
  have p: "0 < p"
    using assms q xx by (metis abs_0_eq less_eq_rat_def not_less of_int_0_less_iff
        of_int_le_0_iff zero_less_abs_iff zero_less_divide_iff)
  define a where "a = int (floorlog 2 (nat p))"
  define b where "b = int (floorlog 2 (nat q))"
  have be: "binexp x = (if \<bar>x\<bar> < 2 powi (a - b) then a - b - 1 else a - b)"
    by (simp add: binexp_def pq a_def b_def bits_floorlog)
  note pb = floorlog2_bounds [OF p, folded a_def] and qb = floorlog2_bounds [OF q, folded b_def]
  have qpos: "(0::rat) < of_int q" using q by simp
  have lo: "2 powi (a - b - 1) \<le> \<bar>x\<bar>"
  proof -
    have "2 powi (a - b - 1) * of_int q \<le> 2 powi (a - b - 1) * (2 powi b :: rat)"
      using qb(2) by (intro mult_left_mono) auto
    also have "\<dots> = 2 powi (a - 1)" by (simp add: power_int_add [symmetric])
    also have "\<dots> \<le> of_int p" by (rule pb(1))
    finally show ?thesis using qpos by (simp add: xx pos_le_divide_eq)
  qed
  have hi: "\<bar>x\<bar> < 2 powi (a - b + 1)"
  proof -
    have "of_int p < (2 powi a :: rat)" by (rule pb(2))
    also have "\<dots> = 2 powi (a - b + 1) * 2 powi (b - 1)" by (simp add: power_int_add [symmetric])
    also have "\<dots> \<le> 2 powi (a - b + 1) * of_int q"
      using qb(1) by (intro mult_left_mono) auto
    finally show ?thesis using qpos by (simp add: xx pos_divide_less_eq)
  qed
  show "2 powi (binexp x) \<le> \<bar>x\<bar>" using lo be by (auto simp: not_less)
  show "\<bar>x\<bar> < 2 powi (binexp x + 1)" using hi be by auto
qed

lemma powi2_less_iff: "(2 powi a :: rat) < 2 powi b \<longleftrightarrow> a < b"
  by (metis linorder_neqE_linordered_idom less_irrefl order.asym one_less_numeral_iff
      power_int_strict_increasing semiring_norm(76))

lemma powi2_le_iff: "(2 powi a :: rat) \<le> 2 powi b \<longleftrightarrow> a \<le> b"
  using powi2_less_iff [of b a] by (simp only: not_less [symmetric])

lemma binexp_mono:
  assumes "x \<noteq> 0" "\<bar>x\<bar> \<le> \<bar>y\<bar>" shows "binexp x \<le> binexp y"
proof -
  have y: "y \<noteq> 0" using assms by auto
  have "2 powi (binexp x) < (2 powi (binexp y + 1) :: rat)"
    using binexp_bounds(1) [OF assms(1)] binexp_bounds(2) [OF y] assms(2) by linarith
  then show ?thesis by (simp only: powi2_less_iff)
qed

lemma binexp_less:
  assumes "x \<noteq> 0" "\<bar>x\<bar> < 2 powi e" shows "binexp x < e"
proof -
  have "2 powi (binexp x) < (2 powi e :: rat)" using binexp_bounds(1) [OF assms(1)] assms(2) by linarith
  then show ?thesis by (simp only: powi2_less_iff)
qed


section \<open>Rounding a rational to binary64\<close>

definition ulp64 :: "rat \<Rightarrow> rat" where
  "ulp64 x = 2 powi (max (binexp x - 52) (- 1074))"

definition round_rat :: "rat \<Rightarrow> rat" where
  "round_rat x = (if x = 0 then 0 else of_int (half_even (x / ulp64 x)) * ulp64 x)"

text \<open>The representable rationals: a significand of at most 53 bits and an exponent of at
  least \<open>-1074\<close>.\<close>

definition rep64 :: "rat \<Rightarrow> bool" where
  "rep64 x \<longleftrightarrow> (\<exists>m e. \<bar>m\<bar> \<le> 2 ^ 53 \<and> - 1074 \<le> e \<and> x = of_int m * 2 powi e)"

lemma ulp64_pos [simp]: "0 < ulp64 x"
  by (simp add: ulp64_def)

lemma ulp64_nz [simp]: "ulp64 x \<noteq> 0"
  using ulp64_pos [of x] by (metis less_irrefl)

lemma round_rat_0 [simp]: "round_rat 0 = 0"
  by (simp add: round_rat_def)

lemma round_rat_uminus [simp]: "round_rat (- x) = - round_rat x"
  by (simp add: round_rat_def ulp64_def half_even_uminus)

lemma round_rat_err: "\<bar>round_rat x - x\<bar> \<le> ulp64 x / 2"
proof (cases "x = 0")
  case False
  let ?u = "ulp64 x"
  have "\<bar>round_rat x - x\<bar> = \<bar>(of_int (half_even (x / ?u)) - x / ?u) * ?u\<bar>"
    using False by (simp add: round_rat_def algebra_simps)
  also have "\<dots> = \<bar>of_int (half_even (x / ?u)) - x / ?u\<bar> * ?u"
    using ulp64_pos [of x] by (simp only: abs_mult abs_of_pos)
  also have "\<dots> \<le> 1/2 * ?u"
    by (rule mult_right_mono [OF half_even_err]) (simp add: less_imp_le)
  finally show ?thesis by simp
qed (simp add: less_imp_le)

text \<open>Rounding evaluated at a known exponent.\<close>

lemma binexp_eqI:
  assumes "2 powi e \<le> \<bar>x\<bar>" "\<bar>x\<bar> < 2 powi (e + 1)" shows "binexp x = e"
proof -
  have "0 < (2 powi e :: rat)" by simp
  then have nz: "x \<noteq> 0" using assms(1) zero_less_abs_iff [of x] by linarith
  have "2 powi e < (2 powi (binexp x + 1) :: rat)"
    using assms(1) binexp_bounds(2) [OF nz] by linarith
  moreover have "binexp x < e + 1" using nz assms(2) by (rule binexp_less)
  ultimately show ?thesis by (simp only: powi2_less_iff)
qed

lemma half_even_eqI:
  assumes "\<bar>x - of_int n\<bar> < 1/2" shows "half_even x = n"
proof -
  have "\<bar>(of_int (half_even x) :: rat) - of_int n\<bar> < 1"
    using assms half_even_err [of x] by linarith
  then have "(of_int \<bar>half_even x - n\<bar> :: rat) < of_int 1" by simp
  then have "\<bar>half_even x - n\<bar> < 1" by (simp only: of_int_less_iff)
  then show ?thesis by simp
qed

lemma round_rat_eval:
  assumes "2 powi e \<le> \<bar>x\<bar>" "\<bar>x\<bar> < 2 powi (e + 1)" "- 1022 \<le> e"
    and "\<bar>x / 2 powi (e - 52) - of_int n\<bar> < 1/2"
  shows "round_rat x = of_int n * 2 powi (e - 52)"
proof -
  have "0 < (2 powi e :: rat)" by simp
  then have "x \<noteq> 0" using assms(1) zero_less_abs_iff [of x] by linarith
  then show ?thesis
    using binexp_eqI [OF assms(1,2)] assms(3) half_even_eqI [OF assms(4)]
    by (simp add: round_rat_def ulp64_def)
qed

lemma rep64_0 [simp]: "rep64 0"
  unfolding rep64_def by (intro exI [of _ 0] exI [of _ "- 1074"]) simp

lemma rep64_round_rat [simp]: "rep64 (round_rat x)"
proof (cases "x = 0")
  case False
  define k where "k = max (binexp x - 52) (- 1074)"
  let ?u = "2 powi k :: rat"
  have u: "ulp64 x = ?u" by (simp add: ulp64_def k_def)
  have "\<bar>x\<bar> < 2 powi (binexp x + 1)" by (rule binexp_bounds(2) [OF False])
  also have "\<dots> \<le> (2 powi (53 + k) :: rat)" by (simp add: powi2_le_iff k_def)
  also have "\<dots> = 2 ^ 53 * ?u" by (simp add: power_int_add)
  finally have "\<bar>x / ?u\<bar> \<le> 2 ^ 53" by (simp add: abs_divide pos_divide_le_eq less_imp_le)
  then have le: "x / ?u \<le> of_int (2 ^ 53)" and ge: "of_int (- (2 ^ 53)) \<le> x / ?u"
    unfolding abs_le_iff by auto
  have "\<bar>half_even (x / ?u)\<bar> \<le> 2 ^ 53"
    using half_even_le_iff [OF le] half_even_ge_iff [OF ge] by (simp add: abs_le_iff)
  moreover have "- 1074 \<le> k" by (simp add: k_def)
  ultimately show ?thesis
    using False unfolding rep64_def round_rat_def u by (metis (no_types))
qed simp

lemma round_rat_int_mult:
  assumes "x \<noteq> 0" "x = of_int n * ulp64 x"
  shows "round_rat x = x"
proof -
  have "x / ulp64 x = of_int n" using assms(2) ulp64_pos [of x]
    by (metis less_irrefl nonzero_mult_div_cancel_right)
  then show ?thesis using assms by (simp add: round_rat_def)
qed

lemma powi2_split:
  assumes "k \<le> e" shows "(2 powi e :: rat) = of_int (2 ^ nat (e - k)) * 2 powi k"
proof -
  have "(2 powi e :: rat) = 2 powi ((e - k) + k)" by simp
  also have "\<dots> = 2 powi (e - k) * 2 powi k" by (rule power_int_add) simp
  also have "2 powi (e - k) = (2 ^ nat (e - k) :: rat)" using assms by (simp add: power_int_nonneg_exp)
  finally show ?thesis by simp
qed

lemma powi2_coarsen:
  assumes "k \<le> e" shows "\<exists>n. (of_int m * 2 powi e :: rat) = of_int n * 2 powi k"
  by (rule exI [of _ "m * 2 ^ nat (e - k)"]) (simp add: powi2_split [OF assms])

lemma round_rat_rep64:
  assumes "rep64 x" shows "round_rat x = x"
proof (cases "x = 0")
  case False
  from assms obtain m e where m: "\<bar>m\<bar> \<le> 2 ^ 53" and e: "- 1074 \<le> e"
    and x: "x = of_int m * 2 powi e" unfolding rep64_def by blast
  define k where "k = max (binexp x - 52) (- 1074)"
  have u: "ulp64 x = 2 powi k" by (simp add: ulp64_def k_def)
  have ax: "\<bar>x\<bar> = of_int \<bar>m\<bar> * 2 powi e" by (simp add: x abs_mult)
  have "\<exists>n. x = of_int n * 2 powi k"
  proof (cases "\<bar>m\<bar> = 2 ^ 53")
    case True
    then have "\<bar>x\<bar> = 2 powi (53 + e)" by (simp add: ax power_int_add)
    moreover have "2 powi binexp x \<le> \<bar>x\<bar>" by (rule binexp_bounds(1) [OF False])
    ultimately have "binexp x \<le> 53 + e" by (simp only: powi2_le_iff)
    then have "k \<le> e + 1" using e by (simp add: k_def)
    moreover from True have "x = of_int (sgn m * 2 ^ 52) * 2 powi (e + 1)"
      unfolding x by (cases "0 \<le> m") (auto simp: power_int_add sgn_if minus_equation_iff [of m])
    ultimately show ?thesis by (simp only: powi2_coarsen)
  next
    case False
    then have "(of_int \<bar>m\<bar> :: rat) < of_int (2 ^ 53)" using m by (simp only: of_int_less_iff)
    then have "\<bar>x\<bar> < 2 powi (53 + e)" by (simp add: ax power_int_add)
    then have "binexp x < 53 + e" using \<open>x \<noteq> 0\<close> by (rule binexp_less [rotated])
    then have "k \<le> e" using e by (simp add: k_def)
    then show ?thesis unfolding x by (rule powi2_coarsen)
  qed
  then show ?thesis using round_rat_int_mult [OF False] u by auto
qed simp

lemma rep64_code [code]: "rep64 x \<longleftrightarrow> round_rat x = x"
  by (metis rep64_round_rat round_rat_rep64)

lemma round_rat_leI: "x \<noteq> 0 \<Longrightarrow> half_even (x / ulp64 x) \<le> n \<Longrightarrow> round_rat x \<le> of_int n * ulp64 x"
  unfolding round_rat_def by (simp add: mult_right_mono less_imp_le)

lemma round_rat_geI: "x \<noteq> 0 \<Longrightarrow> n \<le> half_even (x / ulp64 x) \<Longrightarrow> of_int n * ulp64 x \<le> round_rat x"
  unfolding round_rat_def by (simp add: mult_right_mono less_imp_le)

lemma round_rat_pos_mono:
  assumes "0 < x" "x \<le> y" shows "round_rat x \<le> round_rat y"
proof -
  have y: "0 < y" using assms by simp
  have be: "binexp x \<le> binexp y" using assms by (intro binexp_mono) auto
  let ?kx = "max (binexp x - 52) (- 1074)" and ?ky = "max (binexp y - 52) (- 1074)"
  show ?thesis
  proof (cases "?kx = ?ky")
    case True
    then have u: "ulp64 x = ulp64 y" by (simp add: ulp64_def)
    have "x / ulp64 y \<le> y / ulp64 y" using assms(2) by (simp add: divide_right_mono less_imp_le)
    then have "half_even (x / ulp64 y) \<le> half_even (y / ulp64 y)" by (rule half_even_mono)
    then show ?thesis using assms y by (simp add: round_rat_def u)
  next
    case False
    with be have ky: "?ky = binexp y - 52" and lt: "binexp x + 1 \<le> binexp y"
      and lo: "?kx \<le> binexp y" by (auto simp: max_def split: if_splits)
    define B where "B = (2 powi binexp y :: rat)"
    have "x < 2 powi (binexp x + 1)" using binexp_bounds(2) [of x] assms by simp
    also have "\<dots> \<le> B" unfolding B_def by (simp only: powi2_le_iff lt)
    finally have xB: "x \<le> B" by simp
    have B1: "B = of_int (2 ^ nat (binexp y - ?kx)) * ulp64 x"
      unfolding B_def ulp64_def by (rule powi2_split [OF lo])
    have "x / ulp64 x \<le> of_int (2 ^ nat (binexp y - ?kx))"
      using xB B1 by (simp add: pos_divide_le_eq)
    from half_even_le_iff [OF this] have "round_rat x \<le> B"
      using assms(1) unfolding B1 by (intro round_rat_leI) simp_all
    moreover have B2: "B = of_int (2 ^ nat (binexp y - ?ky)) * ulp64 y"
      unfolding B_def ulp64_def by (rule powi2_split) (simp add: ky)
    have By: "B \<le> y" unfolding B_def using binexp_bounds(1) [of y] y by simp
    have "of_int (2 ^ nat (binexp y - ?ky)) \<le> y / ulp64 y"
      using By B2 by (simp add: pos_le_divide_eq)
    from half_even_ge_iff [OF this] have "B \<le> round_rat y"
      using y unfolding B2 by (intro round_rat_geI) simp_all
    ultimately show ?thesis by linarith
  qed
qed

lemma round_rat_nonneg: "0 \<le> x \<Longrightarrow> 0 \<le> round_rat x"
  using half_even_ge_iff [of 0 "x / ulp64 x"] ulp64_pos [of x]
  by (auto simp: round_rat_def less_imp_le)

lemma round_rat_mono: "x \<le> y \<Longrightarrow> round_rat x \<le> round_rat y"
proof -
  assume le: "x \<le> y"
  consider "0 < x" | "x \<le> 0" "0 \<le> y" | "y < 0" by linarith
  then show ?thesis
  proof cases
    case 1
    then show ?thesis using le by (rule round_rat_pos_mono)
  next
    case 2
    then show ?thesis using round_rat_nonneg [of "- x"] round_rat_nonneg [of y] by simp
  next
    case 3
    then show ?thesis using round_rat_pos_mono [of "- y" "- x"] le by simp
  qed
qed

section \<open>Representable numbers\<close>

lemma rep64_uminus [simp]: "rep64 (- x) \<longleftrightarrow> rep64 x"
proof -
  have "rep64 (- y)" if "rep64 y" for y
  proof -
    from that obtain m e where "\<bar>m\<bar> \<le> 2 ^ 53" "- 1074 \<le> e" "y = of_int m * 2 powi e"
      unfolding rep64_def by blast
    then show ?thesis unfolding rep64_def by (intro exI [of _ "- m"] exI [of _ e]) simp
  qed
  from this [of x] this [of "- x"] show ?thesis by auto
qed

lemma rep64_of_int: "\<bar>n\<bar> \<le> 2 ^ 53 \<Longrightarrow> rep64 (of_int n)"
  unfolding rep64_def by (intro exI [of _ n] exI [of _ 0]) simp

lemma rep64_numeral [simp]: "numeral n \<le> (2 ^ 53 :: int) \<Longrightarrow> rep64 (numeral n)"
  using rep64_of_int [of "numeral n"] by simp

lemma rep64_1 [simp]: "rep64 1"
  using rep64_of_int [of 1] by simp

lemma rep64_dyadic:
  assumes "\<bar>m\<bar> \<le> 2 ^ 53" "k \<le> 1074" shows "rep64 (of_int m / 2 ^ k)"
proof -
  have "(of_int m / 2 ^ k :: rat) = of_int m * 2 powi (- int k)"
    by (simp add: power_int_minus field_simps)
  then show ?thesis unfolding rep64_def using assms by (intro exI [of _ m] exI [of _ "- int k"]) simp
qed

lemma rep64_pow2 [simp]:
  assumes "- 1074 \<le> e" shows "rep64 (2 powi e)"
  unfolding rep64_def using assms by (intro exI [of _ 1] exI [of _ e]) simp

lemma rep64_ulp:
  assumes "rep64 x" "x \<noteq> 0"
  obtains n where "x = of_int n * ulp64 x" "\<bar>n\<bar> \<le> 2 ^ 53"
proof -
  have eq: "x = of_int (half_even (x / ulp64 x)) * ulp64 x"
    using round_rat_rep64 [OF assms(1)] assms(2) by (simp add: round_rat_def)
  define n where "n = half_even (x / ulp64 x)"
  have x: "x = of_int n * ulp64 x" using eq by (simp add: n_def)
  have "\<bar>x\<bar> < 2 powi (binexp x + 1)" by (rule binexp_bounds(2) [OF assms(2)])
  also have "\<dots> \<le> 2 powi (53 + max (binexp x - 52) (- 1074))" by (simp add: powi2_le_iff)
  also have "\<dots> = 2 ^ 53 * ulp64 x" by (simp add: power_int_add ulp64_def)
  finally have "\<bar>of_int n\<bar> * ulp64 x < 2 ^ 53 * ulp64 x"
    by (metis x abs_mult abs_of_pos ulp64_pos)
  then have "\<bar>of_int n :: rat\<bar> < 2 ^ 53" by simp
  then have "of_int \<bar>n\<bar> < (of_int (2 ^ 53) :: rat)" by simp
  then have "\<bar>n\<bar> \<le> 2 ^ 53" by (simp only: of_int_less_iff)
  with x show ?thesis by (rule that)
qed

text \<open>Taking one token off a float between \<open>1\<close> and \<open>2^53\<close> is exact.\<close>

lemma rep64_minus_1:
  assumes "rep64 x" "1 \<le> x" "x \<le> 2 ^ 53" shows "rep64 (x - 1)"
proof -
  have nz: "x \<noteq> 0" and ax: "\<bar>x\<bar> = x" using assms by auto
  obtain n where x: "x = of_int n * ulp64 x" and n: "\<bar>n\<bar> \<le> 2 ^ 53"
    using rep64_ulp [OF assms(1) nz] by blast
  have b0: "0 \<le> binexp x" using binexp_mono [of 1 x] assms by (simp add: binexp_def)
  show ?thesis
  proof (cases "x = 2 ^ 53")
    case True
    then show ?thesis using rep64_of_int [of "2 ^ 53 - 1"] by simp
  next
    case False
    then have "\<bar>x\<bar> < 2 powi 53" using assms ax by simp
    then have "binexp x < 53" using nz by (rule binexp_less [rotated])
    then have u: "ulp64 x = 2 powi (binexp x - 52)" and k: "binexp x - 52 \<le> 0"
      using b0 by (simp_all add: ulp64_def)
    define j where "j = (2 ^ nat (0 - (binexp x - 52)) :: int)"
    have one: "(1 :: rat) = of_int j * ulp64 x"
      using powi2_split [OF k] unfolding u j_def by simp
    have "x - 1 = of_int (n - j) * ulp64 x" using x one by (simp add: algebra_simps)
    moreover have "\<bar>n - j\<bar> \<le> 2 ^ 53"
    proof -
      have "0 \<le> of_int (n - j) * ulp64 x" using assms(2) calculation by simp
      then have "0 \<le> n - j" using ulp64_pos [of x] by (metis mult_nonneg_nonneg mult_pos_pos
            mult_less_0_iff not_less of_int_less_0_iff)
      moreover have "0 \<le> j" by (simp add: j_def)
      ultimately show ?thesis using n by simp
    qed
    ultimately show ?thesis
      unfolding rep64_def u using b0 by (intro exI [of _ "n - j"] exI [of _ "binexp x - 52"]) simp
  qed
qed

lemma ulp64_less:
  assumes "x \<noteq> 0" "\<bar>x\<bar> < 2 powi e" "- 1021 \<le> e" shows "ulp64 x \<le> 2 powi (e - 53)"
proof -
  have "binexp x < e" using assms(1,2) by (rule binexp_less)
  then show ?thesis using assms(3) by (simp add: ulp64_def powi2_le_iff)
qed

lemma round_rat_err_le:
  assumes "\<bar>x\<bar> < 2 powi e" "- 1021 \<le> e" shows "\<bar>round_rat x - x\<bar> \<le> 2 powi (e - 54)"
proof (cases "x = 0")
  case False
  have "\<bar>round_rat x - x\<bar> \<le> ulp64 x / 2" by (rule round_rat_err)
  also have "\<dots> \<le> 2 powi (e - 53) / 2" using ulp64_less [OF False assms] by simp
  also have "\<dots> = 2 powi (e - 54)" using power_int_add [of "2 :: rat" "e - 54" 1] by simp
  finally show ?thesis .
qed simp

section \<open>The type\<close>

datatype pyfloat = Fin rat | PInf | NInf | NaN

text \<open>The first magnitude that overflows.\<close>

definition f64_lim :: rat where
  "f64_lim = 2 ^ 1024"

lemma f64_lim_gt: "x \<le> 2 ^ 60 \<Longrightarrow> x < f64_lim"
proof -
  assume x: "x \<le> 2 ^ 60"
  have "(2 :: rat) ^ 60 < 2 ^ 1024" by (rule power_strict_increasing) simp_all
  with x show ?thesis unfolding f64_lim_def by (rule le_less_trans)
qed

lemma f64_lim_num [simp]:
  "0 < f64_lim" "1 < f64_lim" "0 \<le> f64_lim" "- f64_lim < 0"
  "numeral n \<le> (2 ^ 60 :: rat) \<Longrightarrow> numeral n < f64_lim"
  using f64_lim_gt [of 0] f64_lim_gt [of 1] f64_lim_gt [of "numeral n"] by simp_all

definition round64 :: "rat \<Rightarrow> pyfloat" where
  "round64 x =
     (let y = round_rat x
      in if f64_lim \<le> y then PInf else if y \<le> - f64_lim then NInf else Fin y)"

definition is_f64 :: "pyfloat \<Rightarrow> bool" where
  "is_f64 f \<longleftrightarrow> (case f of Fin x \<Rightarrow> rep64 x \<and> \<bar>x\<bar> < f64_lim | _ \<Rightarrow> True)"

lemma is_f64_round64 [simp]: "is_f64 (round64 x)"
  by (simp add: is_f64_def round64_def Let_def abs_less_iff not_le)

lemma round64_exact: "rep64 x \<Longrightarrow> \<bar>x\<bar> < f64_lim \<Longrightarrow> round64 x = Fin x"
  by (simp add: round64_def Let_def round_rat_rep64 abs_less_iff not_le)

lemma round64_0 [simp]: "round64 0 = Fin 0"
  by (simp add: round64_exact)

text \<open>Python's comparisons: false on NaN.\<close>

instantiation pyfloat :: ord
begin

fun less_pyfloat :: "pyfloat \<Rightarrow> pyfloat \<Rightarrow> bool" where
  "less_pyfloat (Fin x) (Fin y) = (x < y)"
| "less_pyfloat (Fin x) PInf = True"
| "less_pyfloat NInf (Fin y) = True"
| "less_pyfloat NInf PInf = True"
| "less_pyfloat _ _ = False"

definition less_eq_pyfloat :: "pyfloat \<Rightarrow> pyfloat \<Rightarrow> bool" where
  "less_eq_pyfloat a b \<longleftrightarrow> a < b \<or> (a = b \<and> a \<noteq> NaN)"

instance ..

end

lemma less_eq_Fin [simp]: "Fin x \<le> Fin y \<longleftrightarrow> x \<le> y"
  by (auto simp: less_eq_pyfloat_def)

lemma less_eq_inf [simp]:
  "Fin x \<le> PInf" "NInf \<le> Fin x" "\<not> PInf \<le> Fin x" "\<not> Fin x \<le> NInf" "PInf \<le> PInf" "NInf \<le> PInf"
  "NInf \<le> NInf" "\<not> PInf \<le> NInf" "\<not> NaN \<le> a" "\<not> a \<le> NaN"
  by (cases a; auto simp: less_eq_pyfloat_def)+

text \<open>Sums, differences and products: exact result, then rounding.\<close>

instantiation pyfloat :: "{zero, one, plus, minus, uminus, times}"
begin

definition zero_pyfloat :: pyfloat where "zero_pyfloat = Fin 0"

definition one_pyfloat :: pyfloat where "one_pyfloat = Fin 1"

fun plus_pyfloat :: "pyfloat \<Rightarrow> pyfloat \<Rightarrow> pyfloat" where
  "plus_pyfloat (Fin x) (Fin y) = round64 (x + y)"
| "plus_pyfloat NaN b = NaN"
| "plus_pyfloat a NaN = NaN"
| "plus_pyfloat PInf NInf = NaN"
| "plus_pyfloat NInf PInf = NaN"
| "plus_pyfloat PInf b = PInf"
| "plus_pyfloat NInf b = NInf"
| "plus_pyfloat a PInf = PInf"
| "plus_pyfloat a NInf = NInf"

fun uminus_pyfloat :: "pyfloat \<Rightarrow> pyfloat" where
  "uminus_pyfloat (Fin x) = Fin (- x)"
| "uminus_pyfloat PInf = NInf"
| "uminus_pyfloat NInf = PInf"
| "uminus_pyfloat NaN = NaN"

definition minus_pyfloat :: "pyfloat \<Rightarrow> pyfloat \<Rightarrow> pyfloat" where
  "minus_pyfloat a b = a + (- b)"

fun times_pyfloat :: "pyfloat \<Rightarrow> pyfloat \<Rightarrow> pyfloat" where
  "times_pyfloat (Fin x) (Fin y) = round64 (x * y)"
| "times_pyfloat NaN b = NaN"
| "times_pyfloat a NaN = NaN"
| "times_pyfloat (Fin x) PInf = (if x = 0 then NaN else if 0 < x then PInf else NInf)"
| "times_pyfloat (Fin x) NInf = (if x = 0 then NaN else if 0 < x then NInf else PInf)"
| "times_pyfloat PInf (Fin x) = (if x = 0 then NaN else if 0 < x then PInf else NInf)"
| "times_pyfloat NInf (Fin x) = (if x = 0 then NaN else if 0 < x then NInf else PInf)"
| "times_pyfloat PInf PInf = PInf"
| "times_pyfloat NInf NInf = PInf"
| "times_pyfloat PInf NInf = NInf"
| "times_pyfloat NInf PInf = NInf"

instance ..

end

lemma minus_Fin [simp]: "Fin x - Fin y = round64 (x - y)"
  by (simp add: minus_pyfloat_def)

lemma zero_Fin [simp]: "(0 :: pyfloat) = Fin 0" and one_Fin [simp]: "(1 :: pyfloat) = Fin 1"
  by (simp_all add: zero_pyfloat_def one_pyfloat_def)

text \<open>\<open>a / b\<close> raises on a zero divisor.\<close>

definition zero_division :: exn where
  "zero_division = PyException ''ZeroDivisionError'' ''float division by zero''"

fun pydiv :: "pyfloat \<Rightarrow> pyfloat \<Rightarrow> pyfloat result" where
  "pydiv (Fin x) (Fin y) = (if y = 0 then Inl zero_division else Inr (round64 (x / y)))"
| "pydiv PInf (Fin y) =
     (if y = 0 then Inl zero_division else Inr (if 0 < y then PInf else NInf))"
| "pydiv NInf (Fin y) =
     (if y = 0 then Inl zero_division else Inr (if 0 < y then NInf else PInf))"
| "pydiv NaN (Fin y) = (if y = 0 then Inl zero_division else Inr NaN)"
| "pydiv (Fin x) PInf = Inr 0"
| "pydiv (Fin x) NInf = Inr 0"
| "pydiv _ _ = Inr NaN"

text \<open>The builtins \<open>min\<close> and \<open>max\<close> keep the first argument unless the second is strictly
  smaller (larger).\<close>

definition pymin :: "pyfloat \<Rightarrow> pyfloat \<Rightarrow> pyfloat" where
  "pymin a b = (if b < a then b else a)"

definition pymax :: "pyfloat \<Rightarrow> pyfloat \<Rightarrow> pyfloat" where
  "pymax a b = (if a < b then b else a)"

text \<open>\<open>round(x, n)\<close>: the nearest decimal with \<open>n\<close> places (ties to even on the exact value),
  as a float; \<open>math.ceil\<close> and \<open>int\<close>, which raise on an infinity or NaN.\<close>

fun pyround :: "pyfloat \<Rightarrow> nat \<Rightarrow> pyfloat" where
  "pyround (Fin x) n = round64 (of_int (half_even (x * 10 ^ n)) / 10 ^ n)"
| "pyround f n = f"

definition int_overflow :: exn where
  "int_overflow = PyException ''OverflowError'' ''cannot convert float infinity to integer''"

definition int_nan :: exn where
  "int_nan = PyException ''ValueError'' ''cannot convert float NaN to integer''"

fun pyceil :: "pyfloat \<Rightarrow> int result" where
  "pyceil (Fin x) = Inr \<lceil>x\<rceil>"
| "pyceil NaN = Inl int_nan"
| "pyceil _ = Inl int_overflow"

fun pytrunc :: "pyfloat \<Rightarrow> int result" where
  "pytrunc (Fin x) = Inr (if 0 \<le> x then \<lfloor>x\<rfloor> else \<lceil>x\<rceil>)"
| "pytrunc NaN = Inl int_nan"
| "pytrunc _ = Inl int_overflow"

text \<open>True division of integers, \<open>a / b\<close>: the exact quotient rounded once.\<close>

definition int_truediv :: "int \<Rightarrow> int \<Rightarrow> pyfloat result" where
  "int_truediv a b = (if b = 0 then Inl zero_division else Inr (round64 (of_int a / of_int b)))"

section \<open>Order lemmas\<close>

lemma round64_cases:
  obtains "round64 x = PInf" "f64_lim \<le> round_rat x"
  | "round64 x = NInf" "round_rat x \<le> - f64_lim"
  | "round64 x = Fin (round_rat x)" "\<bar>round_rat x\<bar> < f64_lim"
  by (cases "f64_lim \<le> round_rat x"; cases "round_rat x \<le> - f64_lim")
    (auto simp: round64_def Let_def abs_less_iff)

lemma round64_mono: "x \<le> y \<Longrightarrow> round64 x \<le> round64 y"
  using round_rat_mono [of x y] by (auto simp: round64_def Let_def)

lemma round64_le_Fin: "rep64 b \<Longrightarrow> \<bar>b\<bar> < f64_lim \<Longrightarrow> x \<le> b \<Longrightarrow> round64 x \<le> Fin b"
  using round64_mono [of x b] by (simp add: round64_exact)

lemma round64_ge_Fin: "rep64 b \<Longrightarrow> \<bar>b\<bar> < f64_lim \<Longrightarrow> b \<le> x \<Longrightarrow> Fin b \<le> round64 x"
  using round64_mono [of b x] by (simp add: round64_exact)

lemma pyfloat_not_less: "a \<noteq> NaN \<Longrightarrow> b \<noteq> NaN \<Longrightarrow> \<not> a < b \<longleftrightarrow> b \<le> (a :: pyfloat)"
  by (cases a; cases b) (auto simp: less_eq_pyfloat_def)

lemma pyfloat_le_trans: "a \<le> b \<Longrightarrow> b \<le> c \<Longrightarrow> a \<le> (c :: pyfloat)"
  by (cases a; cases b; cases c) (auto simp: less_eq_pyfloat_def)

lemma round64_not_NaN [simp]: "round64 x \<noteq> NaN"
  by (simp add: round64_def Let_def)

section \<open>Grids\<close>

text \<open>Multiples of \<open>2^-q\<close> below \<open>2^53\<close> units, where sums and products of the code are exact.\<close>

definition on_grid :: "nat \<Rightarrow> rat \<Rightarrow> bool" where
  "on_grid q x \<longleftrightarrow> x * 2 ^ q \<in> \<int> \<and> 0 \<le> x \<and> x * 2 ^ q \<le> 2 ^ 53"

lemma on_grid_exact:
  assumes "on_grid q x" "q \<le> 1074" shows "round64 x = Fin x"
proof -
  obtain m where m: "x * 2 ^ q = of_int m" using assms(1) by (auto simp: on_grid_def elim: Ints_cases)
  then have x: "x = of_int m / 2 ^ q" by (simp add: field_simps)
  have "(0 :: rat) \<le> of_int m" "of_int m \<le> (2 ^ 53 :: rat)" using assms(1) m [symmetric] by (auto simp: on_grid_def)
  then have "0 \<le> m" "m \<le> 2 ^ 53" by simp_all
  then have "rep64 x" using rep64_dyadic [of m q] assms(2) x by simp
  moreover have "\<bar>x\<bar> < f64_lim"
  proof -
    have "x \<le> x * 2 ^ q" using assms(1) by (simp add: on_grid_def mult_le_cancel_left1)
    also have "\<dots> \<le> 2 ^ 60" using assms(1) by (simp add: on_grid_def)
    finally show ?thesis using assms(1) f64_lim_gt [of x] by (simp add: on_grid_def)
  qed
  ultimately show ?thesis by (rule round64_exact)
qed

lemma on_grid_intro: "x * 2 ^ q \<in> \<int> \<Longrightarrow> 0 \<le> x \<Longrightarrow> x \<le> y \<Longrightarrow> on_grid q y \<Longrightarrow> on_grid q x"
  unfolding on_grid_def using mult_right_mono [of x y "2 ^ q"] order_trans [of "x * 2 ^ q" "y * 2 ^ q" "2 ^ 53"] by simp

lemma on_grid_0: "on_grid 0 x \<longleftrightarrow> x \<in> \<int> \<and> 0 \<le> x \<and> x \<le> 2 ^ 53"
  by (simp add: on_grid_def)

end
