(* ===== verification/PyText.thy ===== *)
theory PyText
  imports PyFloat
begin

text \<open>
  The decimal texts of numbers: \<open>str(int)\<close>, \<open>repr(float)\<close> (the shortest decimal that rounds to
  the float), and the conversions \<open>int(str)\<close> and \<open>float(str)\<close> with Python's surrounding
  whitespace, signs, underscores and special names. Printing and reading back is the identity.
\<close>

section \<open>Digits\<close>

definition is_digit :: "char \<Rightarrow> bool" where
  "is_digit c \<longleftrightarrow> (let n = of_char c :: nat in 48 \<le> n \<and> n \<le> 57)"

definition digit_val :: "char \<Rightarrow> nat" where
  "digit_val c = of_char c - 48"

definition digit_char :: "nat \<Rightarrow> char" where
  "digit_char n = char_of (48 + n)"

lemma digit_char [simp]:
  assumes "n < 10"
  shows "is_digit (digit_char n)" "digit_val (digit_char n) = n"
proof -
  have "of_char (char_of (48 + n) :: char) = (48 + n) mod 256" by simp
  also have "\<dots> = 48 + n" using assms by simp
  finally show "is_digit (digit_char n)" "digit_val (digit_char n) = n"
    using assms by (simp_all add: is_digit_def digit_val_def digit_char_def)
qed

fun nat_str :: "nat \<Rightarrow> string" where
  "nat_str n = (if n < 10 then [digit_char n] else nat_str (n div 10) @ [digit_char (n mod 10)])"

declare nat_str.simps [simp del]

definition digits_val :: "string \<Rightarrow> nat" where
  "digits_val s = foldl (\<lambda>a c. 10 * a + digit_val c) 0 s"

lemma foldl_digits:
  "foldl (\<lambda>a c. 10 * a + digit_val c) m s = m * 10 ^ length s + digits_val s"
proof (induction s rule: rev_induct)
  case (snoc x xs)
  then show ?case by (simp add: digits_val_def algebra_simps)
qed (simp add: digits_val_def)

lemma digits_val_append: "digits_val (s @ t) = digits_val s * 10 ^ length t + digits_val t"
  unfolding digits_val_def [of "s @ t"] using foldl_digits [of "digits_val s" t]
  by (simp add: digits_val_def)

lemma digits_val_Nil [simp]: "digits_val [] = 0"
  by (simp add: digits_val_def)

lemma digits_val_single [simp]: "digits_val [c] = digit_val c"
  by (simp add: digits_val_def)

lemma nat_str_ne [simp]: "nat_str n \<noteq> []"
  by (subst nat_str.simps) simp

lemma nat_str_digits: "list_all is_digit (nat_str n)"
proof (induction n rule: nat_str.induct)
  case (1 n)
  then show ?case by (simp add: nat_str.simps [of n])
qed

lemma digits_val_nat_str [simp]: "digits_val (nat_str n) = n"
proof (induction n rule: nat_str.induct)
  case (1 n)
  then show ?case by (cases "n < 10") (simp_all add: nat_str.simps [of n] digits_val_append)
qed

text \<open>The first digit of a positive number is not \<open>0\<close>; the text of \<open>0\<close> is \<open>''0''\<close>.\<close>

lemma nat_str_hd: "0 < n \<Longrightarrow> hd (nat_str n) \<noteq> CHR ''0''"
proof (induction n rule: nat_str.induct)
  case (1 n)
  show ?case
  proof (cases "n < 10")
    case True
    then have "digit_val (hd (nat_str n)) = n" by (simp add: nat_str.simps [of n])
    moreover have "digit_val CHR ''0'' = 0" by (simp add: digit_val_def)
    ultimately show ?thesis using 1(2) by (metis less_irrefl)
  next
    case False
    then show ?thesis using 1 by (simp add: nat_str.simps [of n])
  qed
qed

lemma nat_str_0: "nat_str 0 = ''0''"
  by code_simp

lemma length_nat_str: "10 ^ (length (nat_str n) - 1) \<le> max 1 n" "n < 10 ^ length (nat_str n)"
proof (induction n rule: nat_str.induct)
  case (1 n)
  have step: "nat_str n = nat_str (n div 10) @ [digit_char (n mod 10)]" if "\<not> n < 10"
    using that by (simp add: nat_str.simps [of n])
  {
    case 1
    show ?case
    proof (cases "n < 10")
      case False
      obtain l where l: "length (nat_str (n div 10)) = Suc l"
        using nat_str_ne [of "n div 10"] by (cases "nat_str (n div 10)") auto
      have "10 ^ l \<le> n div 10" using "1.IH"(1) False l by simp
      then have "10 * 10 ^ l \<le> n" by linarith
      with step [OF False] l show ?thesis by simp
    qed (simp add: nat_str.simps [of n])
  next
    case 2
    show ?case
    proof (cases "n < 10")
      case False
      have "n div 10 < 10 ^ length (nat_str (n div 10))" using "1.IH"(2) False by simp
      then have "n < 10 * 10 ^ length (nat_str (n div 10))" by linarith
      with step [OF False] show ?thesis by simp
    qed (simp add: nat_str.simps [of n])
  }
qed

section \<open>Integers\<close>

definition int_str :: "int \<Rightarrow> string" where
  "int_str i = (if i < 0 then CHR ''-'' # nat_str (nat (- i)) else nat_str (nat i))"

text \<open>Underscores are allowed between digits only.\<close>

fun drop_underscores :: "bool \<Rightarrow> string \<Rightarrow> string option" where
  "drop_underscores prev [] = Some []"
| "drop_underscores prev (c # s) =
     (if c = CHR ''_'' then
        (case s of d # _ \<Rightarrow> if prev \<and> is_digit d then drop_underscores False s else None
                 | [] \<Rightarrow> None)
      else map_option (Cons c) (drop_underscores (is_digit c) s))"

definition split_sign :: "string \<Rightarrow> bool \<times> string" where
  "split_sign s =
     (case s of c # t \<Rightarrow> if c = CHR ''-'' then (True, t) else if c = CHR ''+'' then (False, t)
                        else (False, s)
              | [] \<Rightarrow> (False, []))"

definition int_of_str :: "string \<Rightarrow> int option" where
  "int_of_str s =
     (case split_sign (strip s) of (neg, t) \<Rightarrow>
        (case drop_underscores False t of
           None \<Rightarrow> None
         | Some d \<Rightarrow> if d \<noteq> [] \<and> list_all is_digit d
                     then Some (if neg then - int (digits_val d) else int (digits_val d))
                     else None))"

lemma is_digit_facts:
  assumes "is_digit c"
  shows "\<not> is_space c" "c \<noteq> CHR ''_''" "c \<noteq> CHR ''-''" "c \<noteq> CHR ''+''" "c \<noteq> CHR ''.''"
    "c \<noteq> CHR ''e''" "c \<noteq> CHR ''E''" "c \<noteq> CHR ''i''" "c \<noteq> CHR ''n''"
    "c \<noteq> CHR ''I''" "c \<noteq> CHR ''N''" "c \<noteq> CHR 0x22"
  using assms by (auto simp: is_digit_def is_space_def Let_def)

lemma drop_underscores_id:
  "CHR ''_'' \<notin> set s \<Longrightarrow> drop_underscores p s = Some s"
  by (induction s arbitrary: p) auto

lemma digits_no_underscore: "list_all is_digit s \<Longrightarrow> CHR ''_'' \<notin> set s"
  by (auto simp: list_all_iff dest: is_digit_facts(2))

lemma int_of_str_int_str [simp]: "int_of_str (int_str i) = Some i"
proof -
  have digits: "list_all is_digit (nat_str n)" for n by (rule nat_str_digits)
  have hd_digit: "is_digit (hd (nat_str n))" and last_digit: "is_digit (last (nat_str n))" for n
    using digits [of n] by (auto simp: list_all_iff)
  have minus_not_space: "\<not> is_space CHR ''-''" by (simp add: is_space_def)
  have strip: "strip (int_str i) = int_str i"
    by (rule strip_id)
      (use hd_digit last_digit minus_not_space in \<open>auto simp: int_str_def is_digit_facts(1)\<close>)
  have sign: "split_sign (int_str i) = (i < 0, nat_str (nat \<bar>i\<bar>))"
  proof (cases "i < 0")
    case False
    obtain c t where "nat_str (nat i) = c # t" by (cases "nat_str (nat i)") auto
    moreover then have "is_digit c" using hd_digit [of "nat i"] by simp
    ultimately show ?thesis using False
      by (auto simp: int_str_def split_sign_def dest: is_digit_facts(3,4))
  qed (simp add: int_str_def split_sign_def)
  show ?thesis
    using digits [of "nat \<bar>i\<bar>"]
    by (simp add: int_of_str_def strip sign drop_underscores_id digits_no_underscore)
qed

section \<open>Reading floats\<close>

text \<open>The optional exponent, and an unsigned decimal as the rational it denotes.\<close>

definition exp_parse :: "string \<Rightarrow> int option" where
  "exp_parse r =
     (case r of
        [] \<Rightarrow> Some 0
      | c # t \<Rightarrow>
          if c = CHR ''e'' \<or> c = CHR ''E'' then
            (case split_sign t of (neg, d) \<Rightarrow>
               if d \<noteq> [] \<and> list_all is_digit d
               then Some (if neg then - int (digits_val d) else int (digits_val d)) else None)
          else None)"

definition dec_parse :: "string \<Rightarrow> rat option" where
  "dec_parse s =
     (let ip = takeWhile is_digit s; r1 = dropWhile is_digit s;
          (fp, r2) = (case r1 of
                        c # t \<Rightarrow> if c = CHR ''.'' then (takeWhile is_digit t, dropWhile is_digit t)
                                else ([], r1)
                      | [] \<Rightarrow> ([], []))
      in if ip @ fp = [] then None
         else map_option (\<lambda>ex. of_nat (digits_val (ip @ fp)) * 10 powi (ex - int (length fp)))
                (exp_parse r2))"

definition lower :: "char \<Rightarrow> char" where
  "lower c = (let n = of_char c :: nat in if 65 \<le> n \<and> n \<le> 90 then char_of (n + 32) else c)"

definition float_of_str :: "string \<Rightarrow> pyfloat option" where
  "float_of_str s =
     (case drop_underscores False (strip s) of
        None \<Rightarrow> None
      | Some u \<Rightarrow>
          (case split_sign u of (neg, v) \<Rightarrow>
             let low = map lower v
             in if low = ''inf'' \<or> low = ''infinity'' then Some (if neg then NInf else PInf)
                else if low = ''nan'' then Some NaN
                else map_option (\<lambda>q. round64 (if neg then - q else q)) (dec_parse v)))"

section \<open>Printing floats\<close>

text \<open>The number of digits before the decimal point: \<open>10^(E-1) \<le> x < 10^E\<close> for \<open>x > 0\<close>.\<close>

definition dec_exp :: "rat \<Rightarrow> int" where
  "dec_exp x =
     (if 1 \<le> x then int (length (nat_str (nat \<lfloor>x\<rfloor>)))
      else 1 - int (length (nat_str (nat (\<lceil>1 / x\<rceil> - 1)))))"

text \<open>
  The shortest significand that reads back as \<open>x\<close>: for \<open>n = 1, 2, \<dots>\<close> digits the two
  neighbours of \<open>x\<close> are tried, the nearer one (ties to even) when both read back.
\<close>

fun shortest :: "rat \<Rightarrow> int \<Rightarrow> nat \<Rightarrow> (int \<times> int) option" where
  "shortest x k 0 = None"
| "shortest x k (Suc fuel) =
     (let y = x / 10 powi k; lo = \<lfloor>y\<rfloor>;
          okl = (round64 (of_int lo * 10 powi k) = Fin x);
          okh = (round64 (of_int (lo + 1) * 10 powi k) = Fin x)
      in if okl \<and> okh then Some (half_even y, k)
         else if okl then Some (lo, k)
         else if okh then Some (lo + 1, k)
         else shortest x (k - 1) fuel)"

definition shortest_digits :: "rat \<Rightarrow> (int \<times> int) option" where
  "shortest_digits x = shortest x (dec_exp x - 1) (nat (dec_exp x + 1074) + 1)"

text \<open>Trailing zeros move into the exponent.\<close>

fun strip_zeros :: "nat \<Rightarrow> int \<Rightarrow> nat \<times> int" where
  "strip_zeros d k = (if d \<noteq> 0 \<and> d mod 10 = 0 then strip_zeros (d div 10) (k + 1) else (d, k))"

declare strip_zeros.simps [simp del]

definition exp_str :: "int \<Rightarrow> string" where
  "exp_str e =
     (let d = nat_str (nat \<bar>e\<bar>)
      in CHR ''e'' # (if e < 0 then CHR ''-'' else CHR ''+'')
           # (if length d < 2 then CHR ''0'' # d else d))"

definition repr_digits :: "string \<Rightarrow> int \<Rightarrow> string" where
  "repr_digits ds decpt =
     (if decpt \<le> - 4 \<or> 16 < decpt then
        hd ds # (if tl ds = [] then [] else CHR ''.'' # tl ds) @ exp_str (decpt - 1)
      else if decpt \<le> 0 then ''0.'' @ replicate (nat (- decpt)) CHR ''0'' @ ds
      else if int (length ds) \<le> decpt
        then ds @ replicate (nat decpt - length ds) CHR ''0'' @ ''.0''
      else take (nat decpt) ds @ CHR ''.'' # drop (nat decpt) ds)"

definition repr_pos :: "rat \<Rightarrow> string" where
  "repr_pos x =
     (case shortest_digits x of
        None \<Rightarrow> []
      | Some (d, k) \<Rightarrow>
          (case strip_zeros (nat d) k of (d', k') \<Rightarrow>
             repr_digits (nat_str d') (int (length (nat_str d')) + k')))"

fun float_repr :: "pyfloat \<Rightarrow> string" where
  "float_repr (Fin x) =
     (if x = 0 then ''0.0'' else if x < 0 then CHR ''-'' # repr_pos (- x) else repr_pos x)"
| "float_repr PInf = ''inf''"
| "float_repr NInf = ''-inf''"
| "float_repr NaN = ''nan''"

section \<open>Printing and reading back\<close>

lemma shortest_sound:
  "shortest x k fuel = Some (d, k') \<Longrightarrow> round64 (of_int d * 10 powi k') = Fin x"
proof (induction fuel arbitrary: k)
  case (Suc fuel)
  have he: "half_even y = \<lfloor>y\<rfloor> \<or> half_even y = \<lfloor>y\<rfloor> + 1" for y
    by (simp add: half_even_def Let_def)
  show ?case
    using Suc.prems Suc.IH he [of "x / 10 powi k"]
    by (auto simp: Let_def split: if_splits)
qed simp

lemma shortest_enough:
  assumes "round64 x = Fin x" "x = of_int m * 10 powi (k - int j)" "j < fuel"
  shows "\<exists>r. shortest x k fuel = Some r"
  using assms(2,3)
proof (induction fuel arbitrary: k j)
  case (Suc fuel)
  show ?case
  proof (cases j)
    case 0
    then have "x / 10 powi k = of_int m" using Suc.prems(1) by simp
    moreover have "round64 (of_int m * 10 powi k) = Fin x" using Suc.prems(1) 0 assms(1) by simp
    ultimately show ?thesis by (simp add: Let_def)
  next
    case (Suc j')
    have "x = of_int m * 10 powi ((k - 1) - int j')" using Suc.prems(1) Suc by (simp add: algebra_simps)
    moreover have "j' < fuel" using Suc.prems(2) Suc by simp
    ultimately have "\<exists>r. shortest x (k - 1) fuel = Some r" by (rule Suc.IH)
    then show ?thesis by (simp add: Let_def)
  qed
qed simp

text \<open>Every float is a multiple of \<open>10^(-1074)\<close>, so the search ends.\<close>

lemma powi_2_10: "(2 powi (- int N) :: rat) = of_int (5 ^ N) * 10 powi (- int N)"
proof -
  have "(10 :: rat) ^ N = 2 ^ N * 5 ^ N" by (simp add: power_mult_distrib [symmetric])
  then show ?thesis by (simp add: power_int_minus field_simps)
qed

lemma rep64_decimal:
  assumes "rep64 x" "N = 1074" shows "\<exists>m. x = of_int m * 10 powi (- int N)"
proof -
  from assms obtain n e where e: "- int N \<le> e" and x: "x = of_int n * 2 powi e"
    unfolding rep64_def by auto
  have "x = of_int (n * 2 ^ nat (e - - int N) * 5 ^ N) * 10 powi (- int N)"
    unfolding x powi2_split [OF e] powi_2_10 by simp
  then show ?thesis by blast
qed

lemma shortest_digits_Some:
  assumes "is_f64 (Fin x)" shows "\<exists>r. shortest_digits x = Some r"
proof -
  define N :: nat where "N = 1074"
  define k where "k = dec_exp x - 1"
  have ex: "round64 x = Fin x" using assms by (simp add: is_f64_def round64_exact)
  have "rep64 x" using assms by (simp add: is_f64_def)
  then obtain m where m: "x = of_int m * 10 powi (- int N)"
    using rep64_decimal [OF _ N_def] by blast
  have "\<exists>m' j. x = of_int m' * 10 powi (k - int j) \<and> j < nat (k + 1 + int N) + 1"
  proof (cases "- int N \<le> k")
    case True
    then show ?thesis using m by (intro exI [of _ m] exI [of _ "nat (k + int N)"]) auto
  next
    case False
    then have "(10 powi (- int N) :: rat) = 10 powi (- int N - k) * 10 powi k"
      by (simp add: power_int_add [symmetric])
    also have "10 powi (- int N - k) = (of_int (10 ^ nat (- int N - k)) :: rat)"
      using False by (simp add: power_int_nonneg_exp)
    finally have "x = of_int (m * 10 ^ nat (- int N - k)) * 10 powi (k - int 0)"
      unfolding m by simp
    then show ?thesis
      by (intro exI [of _ "m * 10 ^ nat (- int N - k)"] exI [of _ 0] conjI) auto
  qed
  moreover have "nat (k + 1 + int N) + 1 = nat (dec_exp x + 1074) + 1" by (simp add: k_def N_def)
  ultimately show ?thesis
    using shortest_enough [OF ex] unfolding shortest_digits_def k_def by metis
qed

lemma strip_zeros_val:
  "strip_zeros d k = (d', k') \<Longrightarrow> (of_nat d' * 10 powi k' :: rat) = of_nat d * 10 powi k"
proof (induction d k rule: strip_zeros.induct)
  case (1 d k)
  show ?case
  proof (cases "d \<noteq> 0 \<and> d mod 10 = 0")
    case True
    then have "d = 10 * (d div 10)" by auto
    then have "(of_nat d :: rat) = 10 * of_nat (d div 10)" by (metis of_nat_mult of_nat_numeral)
    then have "(of_nat (d div 10) * 10 powi (k + 1) :: rat) = of_nat d * 10 powi k"
      by (simp add: power_int_add)
    with 1 True show ?thesis by (simp add: strip_zeros.simps [of d k])
  next
    case False
    with 1 show ?thesis by (auto simp: strip_zeros.simps [of d k])
  qed
qed

lemma takeWhile_digits:
  assumes "list_all P xs" "r = [] \<or> \<not> P (hd r)"
  shows "takeWhile P (xs @ r) = xs" "dropWhile P (xs @ r) = r"
  using assms by (induction xs) (cases r; auto)+

lemma dec_parse_point:
  assumes "list_all is_digit ip" "list_all is_digit fp" "ip @ fp \<noteq> []" "r = [] \<or> \<not> is_digit (hd r)"
  shows "dec_parse (ip @ CHR ''.'' # fp @ r) =
     map_option (\<lambda>ex. of_nat (digits_val (ip @ fp)) * 10 powi (ex - int (length fp))) (exp_parse r)"
proof -
  have "\<not> is_digit CHR ''.''" by (simp add: is_digit_def)
  then show ?thesis
    using assms takeWhile_digits [of is_digit ip "CHR ''.'' # fp @ r"] takeWhile_digits [of is_digit fp r]
    by (auto simp: dec_parse_def)
qed

lemma dec_parse_int:
  assumes "list_all is_digit ip" "ip \<noteq> []" "r = [] \<or> (\<not> is_digit (hd r) \<and> hd r \<noteq> CHR ''.'')"
  shows "dec_parse (ip @ r) = map_option (\<lambda>ex. of_nat (digits_val ip) * 10 powi ex) (exp_parse r)"
proof -
  have "takeWhile is_digit (ip @ r) = ip" "dropWhile is_digit (ip @ r) = r"
    using takeWhile_digits [of is_digit ip r] assms by auto
  then show ?thesis using assms(2,3)
    unfolding dec_parse_def by (simp only: Let_def) (cases r; simp)
qed

lemma exp_parse_exp_str [simp]: "exp_parse (exp_str e) = Some e"
proof -
  define d where "d = (let d = nat_str (nat \<bar>e\<bar>) in if length d < 2 then CHR ''0'' # d else d)"
  have "digit_val CHR ''0'' = 0" by (simp add: digit_val_def)
  then have "digits_val d = nat \<bar>e\<bar>"
    using digits_val_append [of "''0''"] by (simp add: d_def Let_def)
  moreover have "list_all is_digit d" "d \<noteq> []"
    using nat_str_digits [of "nat \<bar>e\<bar>"] by (auto simp: d_def Let_def is_digit_def [of "CHR ''0''"])
  moreover have "exp_str e = CHR ''e'' # (if e < 0 then CHR ''-'' else CHR ''+'') # d"
    by (simp add: exp_str_def d_def Let_def)
  ultimately show ?thesis by (simp add: exp_parse_def split_sign_def)
qed

lemma digits_val_zeros:
  "digits_val (replicate n CHR ''0'' @ s) = digits_val s"
  "digits_val (s @ replicate n CHR ''0'') = digits_val s * 10 ^ n"
proof -
  have z: "digit_val CHR ''0'' = 0" by (simp add: digit_val_def)
  have "digits_val (replicate n CHR ''0'') = 0"
    by (induction n) (use digits_val_append [of "''0''"] z in auto)
  then show "digits_val (replicate n CHR ''0'' @ s) = digits_val s"
    "digits_val (s @ replicate n CHR ''0'') = digits_val s * 10 ^ n"
    by (simp_all add: digits_val_append)
qed

lemma exp_str_hd [simp]: "hd (exp_str e) = CHR ''e''"
  by (simp add: exp_str_def Let_def)

lemma zeros_digits: "list_all is_digit (replicate n CHR ''0'')"
  by (induction n) (auto simp: is_digit_def)

lemma dec_parse_repr_exp:
  assumes ds: "list_all is_digit ds" "ds \<noteq> []" and "decpt \<le> - 4 \<or> 16 < decpt"
  shows "dec_parse (repr_digits ds decpt) =
     Some (of_nat (digits_val ds) * 10 powi (decpt - int (length ds)))"
proof -
  have e: "\<not> is_digit CHR ''e''" by (simp add: is_digit_def)
  obtain c t where ct: "ds = c # t" using ds(2) by (cases ds) auto
  have r: "exp_str (decpt - 1) = [] \<or> \<not> is_digit (hd (exp_str (decpt - 1)))"
    using e by simp
  show ?thesis
  proof (cases "t = []")
    case True
    have "dec_parse ([c] @ exp_str (decpt - 1)) =
        map_option (\<lambda>ex. of_nat (digits_val [c]) * 10 powi ex) (exp_parse (exp_str (decpt - 1)))"
      using ds ct e by (intro dec_parse_int) simp_all
    then show ?thesis using assms(3) ct True by (simp add: repr_digits_def)
  next
    case False
    have "dec_parse ([c] @ CHR ''.'' # t @ exp_str (decpt - 1)) =
        map_option (\<lambda>ex. of_nat (digits_val ([c] @ t)) * 10 powi (ex - int (length t)))
          (exp_parse (exp_str (decpt - 1)))"
      using ds ct r by (intro dec_parse_point) auto
    then show ?thesis using assms(3) ct False by (simp add: repr_digits_def diff_diff_eq)
  qed
qed

lemma dec_parse_repr_digits:
  assumes ds: "list_all is_digit ds" "ds \<noteq> []"
  shows "dec_parse (repr_digits ds decpt) =
     Some (of_nat (digits_val ds) * 10 powi (decpt - int (length ds)))"
proof -
  consider (exp) "decpt \<le> - 4 \<or> 16 < decpt"
    | (small) "\<not> (decpt \<le> - 4 \<or> 16 < decpt)" "decpt \<le> 0"
    | (big) "\<not> (decpt \<le> - 4 \<or> 16 < decpt)" "0 < decpt" "int (length ds) \<le> decpt"
    | (mid) "\<not> (decpt \<le> - 4 \<or> 16 < decpt)" "0 < decpt" "decpt < int (length ds)" by linarith
  then show ?thesis
  proof cases
    case exp
    then show ?thesis by (rule dec_parse_repr_exp [OF ds])
  next
    case small
    have "dec_parse (''0'' @ CHR ''.'' # (replicate (nat (- decpt)) CHR ''0'' @ ds) @ []) =
        map_option (\<lambda>ex. of_nat (digits_val (''0'' @ replicate (nat (- decpt)) CHR ''0'' @ ds)) *
            10 powi (ex - int (length (replicate (nat (- decpt)) CHR ''0'' @ ds)))) (exp_parse [])"
      using ds zeros_digits [of "nat (- decpt)"] zeros_digits [of 1]
      by (intro dec_parse_point) auto
    moreover have "digits_val (''0'' @ replicate (nat (- decpt)) CHR ''0'' @ ds) = digits_val ds"
      using digits_val_zeros(1) [of "Suc (nat (- decpt))" ds] by simp
    ultimately show ?thesis using small by (simp add: repr_digits_def exp_parse_def algebra_simps)
  next
    case big
    let ?n = "nat decpt - length ds"
    have "dec_parse ((ds @ replicate ?n CHR ''0'') @ CHR ''.'' # ''0'' @ []) =
        map_option (\<lambda>ex. of_nat (digits_val ((ds @ replicate ?n CHR ''0'') @ ''0'')) *
            10 powi (ex - int (length ''0''))) (exp_parse [])"
      using ds zeros_digits [of ?n] zeros_digits [of 1] by (intro dec_parse_point) auto
    moreover have "digits_val ((ds @ replicate ?n CHR ''0'') @ ''0'') = digits_val ds * 10 ^ Suc ?n"
      using digits_val_zeros(2) [of ds "Suc ?n"] by (simp add: replicate_app_Cons_same)
    moreover have "(10 powi (decpt - int (length ds)) :: rat) = 10 ^ ?n"
      using big by (simp add: power_int_nonneg_exp nat_diff_distrib)
    ultimately show ?thesis using big by (simp add: repr_digits_def exp_parse_def power_int_minus)
  next
    case mid
    have "dec_parse (take (nat decpt) ds @ CHR ''.'' # drop (nat decpt) ds @ []) =
        map_option (\<lambda>ex. of_nat (digits_val (take (nat decpt) ds @ drop (nat decpt) ds)) *
            10 powi (ex - int (length (drop (nat decpt) ds)))) (exp_parse [])"
      using ds mid by (intro dec_parse_point) (auto simp: list_all_iff dest: in_set_takeD in_set_dropD)
    then show ?thesis using mid by (simp add: repr_digits_def exp_parse_def)
  qed
qed

definition num_char :: "char \<Rightarrow> bool" where
  "num_char c \<longleftrightarrow> is_digit c \<or> c \<in> {CHR ''.'', CHR ''e'', CHR ''+'', CHR ''-''}"

lemma num_char_facts:
  assumes "num_char c" shows "\<not> is_space c" "c \<noteq> CHR ''_''"
  using assms by (auto simp: num_char_def is_digit_def is_space_def Let_def)

lemma exp_str_chars: "list_all num_char (exp_str e)"
  using nat_str_digits [of "nat \<bar>e\<bar>"]
  by (auto simp: exp_str_def Let_def num_char_def list_all_iff is_digit_def [of "CHR ''0''"])

lemma repr_digits_chars:
  assumes "list_all is_digit ds" "ds \<noteq> []"
  shows "list_all num_char (repr_digits ds decpt)" "repr_digits ds decpt \<noteq> []"
    "is_digit (hd (repr_digits ds decpt))"
proof -
  have z: "is_digit CHR ''0''" by (simp add: is_digit_def)
  have t: "\<forall>c \<in> set (tl ds). is_digit c" and h: "is_digit (hd ds)"
    using assms by (cases ds; simp add: list_all_iff)+
  have th: "0 < decpt \<Longrightarrow> is_digit (hd (take (nat decpt) ds))" using h by simp
  show "list_all num_char (repr_digits ds decpt)"
    using assms exp_str_chars [of "decpt - 1"] z t h
    by (auto simp: repr_digits_def list_all_iff num_char_def dest: in_set_takeD in_set_dropD)
  show "repr_digits ds decpt \<noteq> []" by (simp add: repr_digits_def)
  show "is_digit (hd (repr_digits ds decpt))"
    using h z th assms by (auto simp: repr_digits_def hd_append)
qed

lemma repr_pos:
  assumes "is_f64 (Fin x)" "0 < x"
  obtains ds decpt where "repr_pos x = repr_digits ds decpt" "ds = nat_str (digits_val ds)"
    "0 < digits_val ds"
    "round64 (of_nat (digits_val ds) * 10 powi (decpt - int (length ds))) = Fin x"
proof -
  obtain d k where dk: "shortest_digits x = Some (d, k)"
    using shortest_digits_Some [OF assms(1)] by auto
  then have r: "round64 (of_int d * 10 powi k) = Fin x"
    unfolding shortest_digits_def by (rule shortest_sound)
  have dpos: "0 < d"
  proof (rule ccontr)
    assume "\<not> 0 < d"
    then have "(of_int d * 10 powi k :: rat) \<le> 0" by (simp add: mult_le_0_iff)
    then have "Fin x \<le> Fin 0" using round64_mono [of _ 0] r by (metis round64_0)
    with assms(2) show False by simp
  qed
  obtain d' k' where dk': "strip_zeros (nat d) k = (d', k')" by fastforce
  have v: "(of_nat d' * 10 powi k' :: rat) = of_int d * 10 powi k"
    using strip_zeros_val [OF dk'] dpos by simp
  have "0 < d'"
  proof (rule ccontr)
    assume "\<not> 0 < d'"
    then have "(of_int d * 10 powi k :: rat) = 0" using v by simp
    then show False using r assms(2) by simp
  qed
  with dk dk' v r show ?thesis
    by (intro that [of "nat_str d'" "int (length (nat_str d')) + k'"]) (simp_all add: repr_pos_def)
qed

lemma last_digit_repr: "list_all num_char s \<Longrightarrow> s \<noteq> [] \<Longrightarrow> strip s = s"
  by (rule strip_id) (auto simp: list_all_iff num_char_facts(1))

lemma float_of_num:
  assumes "list_all num_char s" "s \<noteq> []" "is_digit (hd s)"
  shows "float_of_str s = map_option round64 (dec_parse s)"
    "float_of_str (CHR ''-'' # s) = map_option (\<lambda>q. round64 (- q)) (dec_parse s)"
proof -
  obtain c t where s: "s = c # t" using assms(2) by (cases s) auto
  have c: "is_digit c" using assms s by simp
  have low: "lower c = c" using c by (auto simp: lower_def is_digit_def Let_def)
  have us: "CHR ''_'' \<notin> set s" using assms(1) num_char_facts(2) by (auto simp: list_all_iff)
  have sg: "split_sign s = (False, s)" using c is_digit_facts(3,4) [of c]
    by (auto simp: split_sign_def s)
  have nn: "map lower s \<noteq> ''inf''" "map lower s \<noteq> ''infinity''" "map lower s \<noteq> ''nan''"
    using c is_digit_facts(8,9) [of c] by (auto simp: s low)
  have m: "num_char CHR ''-''" by (simp add: num_char_def)
  show "float_of_str s = map_option round64 (dec_parse s)"
    using last_digit_repr [OF assms(1,2)] drop_underscores_id [OF us, of False] nn sg
    by (simp add: float_of_str_def)
  have "strip (CHR ''-'' # s) = CHR ''-'' # s" using assms(1) m by (intro last_digit_repr) auto
  moreover have "drop_underscores False (CHR ''-'' # s) = Some (CHR ''-'' # s)"
    using us by (intro drop_underscores_id) auto
  ultimately show "float_of_str (CHR ''-'' # s) = map_option (\<lambda>q. round64 (- q)) (dec_parse s)"
    using nn by (simp add: float_of_str_def split_sign_def)
qed

lemma float_of_repr_pos:
  assumes "is_f64 (Fin x)" "0 < x"
  shows "float_of_str (repr_pos x) = Some (Fin x)"
    "float_of_str (CHR ''-'' # repr_pos x) = Some (Fin (- x))"
proof -
  obtain ds decpt where r: "repr_pos x = repr_digits ds decpt" "ds = nat_str (digits_val ds)"
    "round64 (of_nat (digits_val ds) * 10 powi (decpt - int (length ds))) = Fin x"
    using repr_pos [OF assms] by blast
  have ds: "list_all is_digit ds" "ds \<noteq> []" using r(2) nat_str_digits nat_str_ne by metis+
  note num = float_of_num [OF repr_digits_chars [OF ds], of decpt] dec_parse_repr_digits [OF ds]
  show "float_of_str (repr_pos x) = Some (Fin x)" using num r by simp
  have "round64 (- q) = Fin (- x)" if "round64 q = Fin x" for q
    using that by (auto simp: round64_def Let_def split: if_splits)
  then show "float_of_str (CHR ''-'' # repr_pos x) = Some (Fin (- x))" using num r by simp
qed

lemma is_f64_uminus [simp]: "is_f64 (Fin (- x)) \<longleftrightarrow> is_f64 (Fin x)"
  by (simp add: is_f64_def)

lemma float_of_str_special:
  "float_of_str ''inf'' = Some PInf" "float_of_str ''-inf'' = Some NInf"
  "float_of_str ''nan'' = Some NaN"
  by code_simp+

lemma float_of_str_repr: "is_f64 f \<Longrightarrow> float_of_str (float_repr f) = Some f"
proof (cases f)
  case (Fin x)
  assume f: "is_f64 f"
  consider "x = 0" | "0 < x" | "x < 0" by linarith
  then show ?thesis
  proof cases
    case 1
    have z: "list_all is_digit ''0''" "digits_val ''00'' = 0"
      using digits_val_zeros(1) [of 2 "[]"] by (simp_all add: is_digit_def numeral_2_eq_2)
    have "dec_parse ''0.0'' = Some 0"
      using dec_parse_point [of "''0''" "''0''" "[]"] z by (simp add: exp_parse_def)
    moreover have "list_all num_char ''0.0''" using z by (simp add: num_char_def)
    ultimately have "float_of_str ''0.0'' = Some (Fin 0)"
      using float_of_num(1) [of "''0.0''"] z by simp
    then show ?thesis using 1 Fin by simp
  next
    case 2
    then show ?thesis using f Fin float_of_repr_pos(1) [of x] by simp
  next
    case 3
    then show ?thesis using f Fin float_of_repr_pos(2) [of "- x"] by simp
  qed
qed (simp_all add: float_of_str_special)

lemma float_of_digits:
  assumes "list_all is_digit s" "s \<noteq> []"
  shows "float_of_str s = Some (round64 (of_nat (digits_val s)))"
proof -
  have "list_all num_char s" using assms(1) by (auto simp: list_all_iff num_char_def)
  moreover have "is_digit (hd s)" using assms by (cases s) auto
  moreover have "dec_parse s = Some (of_nat (digits_val s))"
    using dec_parse_int [of s "[]"] assms by (simp add: exp_parse_def)
  ultimately show ?thesis using float_of_num(1) [of s] assms(2) by simp
qed

end
