(* ===== verification/Json.thy ===== *)
theory Json
  imports PyText
begin

text \<open>
  The \<open>json\<close> module as the code uses it: \<open>json.dumps\<close> with its default \<open>ensure_ascii\<close>, with the compact
  separators of the failure store and with the default ones of the logger, and \<open>json.loads\<close>, a recursive-descent reader that answers \<open>None\<close>
  where the module raises \<open>JSONDecodeError\<close>. An object is its list of items; the reader keeps
  the last value of a repeated key, in the position of the first, as a \<open>dict\<close> does. What
  \<open>dumps\<close> prints, \<open>loads\<close> reads back.
\<close>

datatype json =
    JNull
  | JBool bool
  | JInt int
  | JFloat pyfloat
  | JStr string
  | JList "json list"
  | JObj "(string \<times> json) list"

section \<open>Printing\<close>

definition hex_digit :: "nat \<Rightarrow> char" where
  "hex_digit n = (if n < 10 then char_of (48 + n) else char_of (87 + n))"

definition escape_char :: "char \<Rightarrow> string" where
  "escape_char c =
     (let n = of_char c :: nat
      in if n = 34 then [CHR 0x5C, CHR 0x22]
         else if n = 92 then [CHR 0x5C, CHR 0x5C]
         else if n = 10 then [CHR 0x5C, CHR ''n'']
         else if n = 13 then [CHR 0x5C, CHR ''r'']
         else if n = 9 then [CHR 0x5C, CHR ''t'']
         else if n = 12 then [CHR 0x5C, CHR ''f'']
         else if n = 8 then [CHR 0x5C, CHR ''b'']
         else if n < 32 \<or> 126 < n
           then [CHR 0x5C, CHR ''u'', CHR ''0'', CHR ''0'', hex_digit (n div 16), hex_digit (n mod 16)]
         else [c])"

definition str_dumps :: "string \<Rightarrow> string" where
  "str_dumps s = CHR 0x22 # concat (map escape_char s) @ [CHR 0x22]"

fun float_dumps :: "pyfloat \<Rightarrow> string" where
  "float_dumps (Fin x) = float_repr (Fin x)"
| "float_dumps PInf = ''Infinity''"
| "float_dumps NInf = ''-Infinity''"
| "float_dumps NaN = ''NaN''"

text \<open>\<open>ws\<close> is what follows a comma or a colon: nothing for \<open>separators=(",", ":")\<close>, a blank by default.\<close>

fun join_comma :: "string \<Rightarrow> string list \<Rightarrow> string" where
  "join_comma ws [] = []"
| "join_comma ws [s] = s"
| "join_comma ws (s # t # r) = s @ CHR '','' # ws @ join_comma ws (t # r)"

fun dumps_with :: "string \<Rightarrow> json \<Rightarrow> string" where
  "dumps_with ws JNull = ''null''"
| "dumps_with ws (JBool b) = (if b then ''true'' else ''false'')"
| "dumps_with ws (JInt i) = int_str i"
| "dumps_with ws (JFloat f) = float_dumps f"
| "dumps_with ws (JStr s) = str_dumps s"
| "dumps_with ws (JList js) = ''['' @ join_comma ws (map (dumps_with ws) js) @ '']''"
| "dumps_with ws (JObj kvs) =
     ''{'' @ join_comma ws (map (\<lambda>(k, j). str_dumps k @ CHR '':'' # ws @ dumps_with ws j) kvs) @ ''}''"

abbreviation dumps :: "json \<Rightarrow> string" where
  "dumps \<equiv> dumps_with []"

abbreviation dumps_default :: "json \<Rightarrow> string" where
  "dumps_default \<equiv> dumps_with '' ''"

section \<open>Reading\<close>

definition is_ws :: "char \<Rightarrow> bool" where
  "is_ws c \<longleftrightarrow> c \<in> {CHR '' '', CHR 0x09, CHR 0x0A, CHR 0x0D}"

abbreviation skip_ws :: "string \<Rightarrow> string" where
  "skip_ws \<equiv> dropWhile is_ws"

fun hex_val :: "char \<Rightarrow> nat option" where
  "hex_val c =
     (let n = of_char c :: nat
      in if 48 \<le> n \<and> n \<le> 57 then Some (n - 48)
         else if 97 \<le> n \<and> n \<le> 102 then Some (n - 87)
         else if 65 \<le> n \<and> n \<le> 70 then Some (n - 55)
         else None)"

declare hex_val.simps [simp del]

definition simple_escape :: "char \<Rightarrow> char option" where
  "simple_escape c =
     (if c = CHR 0x22 then Some CHR 0x22 else if c = CHR 0x5C then Some CHR 0x5C
      else if c = CHR ''/'' then Some CHR ''/'' else if c = CHR ''b'' then Some CHR 0x08
      else if c = CHR ''f'' then Some CHR 0x0C else if c = CHR ''n'' then Some CHR 0x0A
      else if c = CHR ''r'' then Some CHR 0x0D else if c = CHR ''t'' then Some CHR 0x09
      else None)"

text \<open>
  The body of a string after its opening quote (\<open>strict\<close>: no raw control characters). A
  \<open>\u\<close> escape beyond Latin-1 has no \<^typ>\<open>char\<close> and is outside the model: it answers \<open>None\<close>.
\<close>

fun str_body :: "string \<Rightarrow> (string \<times> string) option" where
  "str_body [] = None"
| "str_body (c # s) =
     (if c = CHR 0x22 then Some ([], s)
      else if (of_char c :: nat) < 32 then None
      else if c = CHR 0x5C then
        (case s of
           [] \<Rightarrow> None
         | e # s1 \<Rightarrow>
             if e = CHR ''u'' then
               (case s1 of
                  h3 # h2 # h1 # h0 # s2 \<Rightarrow>
                    (case (hex_val h3, hex_val h2, hex_val h1, hex_val h0) of
                       (Some v3, Some v2, Some v1, Some v0) \<Rightarrow>
                         if v3 = 0 \<and> v2 = 0
                         then map_option (apfst (Cons (char_of (16 * v1 + v0)))) (str_body s2)
                         else None
                     | _ \<Rightarrow> None)
                | _ \<Rightarrow> None)
             else (case simple_escape e of
                     None \<Rightarrow> None
                   | Some x \<Rightarrow> map_option (apfst (Cons x)) (str_body s1)))
      else map_option (apfst (Cons c)) (str_body s))"

text \<open>
  A number is the longest match of \<open>-?(0|[1-9][0-9]*)(\.[0-9]+)?([eE][-+]?[0-9]+)?\<close>; a
  fraction or an exponent makes it a float.
\<close>

definition scan_int :: "string \<Rightarrow> string \<times> string" where
  "scan_int s =
     (case s of
        c # t \<Rightarrow> if c = CHR ''0'' then (''0'', t) else (takeWhile is_digit s, dropWhile is_digit s)
      | [] \<Rightarrow> ([], []))"

definition scan_frac :: "string \<Rightarrow> string \<times> string" where
  "scan_frac s =
     (case s of
        c # t \<Rightarrow> if c = CHR ''.'' \<and> takeWhile is_digit t \<noteq> []
                then (c # takeWhile is_digit t, dropWhile is_digit t) else ([], s)
      | [] \<Rightarrow> ([], []))"

definition scan_exp :: "string \<Rightarrow> string \<times> string" where
  "scan_exp s =
     (case s of
        c # t \<Rightarrow>
          if c = CHR ''e'' \<or> c = CHR ''E'' then
            (let sg = (case t of d # _ \<Rightarrow> if d = CHR ''-'' \<or> d = CHR ''+'' then [d] else [] | [] \<Rightarrow> []);
                 u = drop (length sg) t
             in if takeWhile is_digit u \<noteq> []
                then (c # sg @ takeWhile is_digit u, dropWhile is_digit u) else ([], s))
          else ([], s)
      | [] \<Rightarrow> ([], []))"

definition read_number :: "string \<Rightarrow> (json \<times> string) option" where
  "read_number s =
     (let neg = (case s of c # _ \<Rightarrow> c = CHR ''-'' | [] \<Rightarrow> False);
          sg = (if neg then ''-'' else []);
          (ip, r1) = scan_int (drop (length sg) s)
      in if ip = [] then None
         else let (fp, r2) = scan_frac r1; (ex, r3) = scan_exp r2
              in if fp = [] \<and> ex = []
                 then map_option (\<lambda>i. (JInt i, r3)) (int_of_str (sg @ ip))
                 else map_option (\<lambda>f. (JFloat f, r3)) (float_of_str (sg @ ip @ fp @ ex)))"

text \<open>
  The reader proper. Every call consumes a character or is followed by one that does, so the
  fuel \<open>loads\<close> gives (twice the length of the text, plus two) never runs out on what
  \<open>dumps\<close> prints.
\<close>

fun read_value :: "nat \<Rightarrow> string \<Rightarrow> (json \<times> string) option"
  and read_items :: "nat \<Rightarrow> string \<Rightarrow> (json list \<times> string) option"
  and read_members :: "nat \<Rightarrow> string \<Rightarrow> ((string \<times> json) list \<times> string) option" where
  "read_value 0 s = None"
| "read_value (Suc n) s =
     (case s of
        [] \<Rightarrow> None
      | c # t \<Rightarrow>
          if c = CHR 0x22 then map_option (apfst JStr) (str_body t)
          else if c = CHR ''{'' then
            (let u = skip_ws t
             in if u \<noteq> [] \<and> hd u = CHR ''}'' then Some (JObj [], tl u)
                else map_option (apfst (\<lambda>kvs. JObj (foldl (\<lambda>d (k, v). dict_set d k v) [] kvs)))
                       (read_members n u))
          else if c = CHR ''['' then
            (let u = skip_ws t
             in if u \<noteq> [] \<and> hd u = CHR '']'' then Some (JList [], tl u)
                else map_option (apfst JList) (read_items n u))
          else if startswith s ''null'' then Some (JNull, drop 4 s)
          else if startswith s ''true'' then Some (JBool True, drop 4 s)
          else if startswith s ''false'' then Some (JBool False, drop 5 s)
          else if startswith s ''NaN'' then Some (JFloat NaN, drop 3 s)
          else if startswith s ''Infinity'' then Some (JFloat PInf, drop 8 s)
          else if startswith s ''-Infinity'' then Some (JFloat NInf, drop 9 s)
          else read_number s)"
| "read_items 0 s = None"
| "read_items (Suc n) s =
     (case read_value n s of
        None \<Rightarrow> None
      | Some (j, r) \<Rightarrow>
          (case skip_ws r of
             [] \<Rightarrow> None
           | c # t \<Rightarrow>
               if c = CHR '']'' then Some ([j], t)
               else if c = CHR '','' then map_option (apfst (Cons j)) (read_items n (skip_ws t))
               else None))"
| "read_members 0 s = None"
| "read_members (Suc n) s =
     (case s of
        [] \<Rightarrow> None
      | q # s1 \<Rightarrow>
          if q \<noteq> CHR 0x22 then None
          else (case str_body s1 of
             None \<Rightarrow> None
           | Some (k, r) \<Rightarrow>
               (case skip_ws r of
                  [] \<Rightarrow> None
                | c # t \<Rightarrow>
                    if c \<noteq> CHR '':'' then None
                    else (case read_value n (skip_ws t) of
                       None \<Rightarrow> None
                     | Some (j, r2) \<Rightarrow>
                         (case skip_ws r2 of
                            [] \<Rightarrow> None
                          | d # t2 \<Rightarrow>
                              if d = CHR ''}'' then Some ([(k, j)], t2)
                              else if d = CHR '','' then
                                map_option (apfst (Cons (k, j))) (read_members n (skip_ws t2))
                              else None)))))"

definition loads :: "string \<Rightarrow> json option" where
  "loads s =
     (case read_value (2 * length s + 2) (skip_ws s) of
        None \<Rightarrow> None
      | Some (j, r) \<Rightarrow> if skip_ws r = [] then Some j else None)"

section \<open>Reading back what was printed\<close>

subsection \<open>Strings\<close>

lemma hex_val_digit: "n < 16 \<Longrightarrow> hex_val (hex_digit n) = Some n"
proof -
  assume "n < 16"
  then have "of_char (hex_digit n) = (if n < 10 then 48 + n else 87 + n)"
    by (simp add: hex_digit_def)
  then show ?thesis using \<open>n < 16\<close> by (simp add: hex_val.simps Let_def)
qed

lemma hex_zero: "hex_val CHR ''0'' = Some 0"
  by (simp add: hex_val.simps)

lemma char_of_special:
  "char_of (34 :: nat) = CHR 0x22" "char_of (92 :: nat) = CHR 0x5C" "char_of (10 :: nat) = CHR 0x0A"
  "char_of (13 :: nat) = CHR 0x0D" "char_of (9 :: nat) = CHR 0x09" "char_of (12 :: nat) = CHR 0x0C"
  "char_of (8 :: nat) = CHR 0x08"
  by code_simp+

lemma str_body_escape:
  "str_body (escape_char c @ r) = map_option (apfst (Cons c)) (str_body r)"
proof -
  define n :: nat where "n = of_char c"
  have n256: "n < 256" unfolding n_def by (rule nat_of_char_less_256)
  have c: "c = char_of n" by (simp add: n_def)
  show ?thesis
  proof (cases "n \<in> {34, 92, 10, 13, 9, 12, 8}")
    case True
    then show ?thesis
      by (auto simp: escape_char_def simple_escape_def c char_of_special)
  next
    case False
    show ?thesis
    proof (cases "n < 32 \<or> 126 < n")
      case True
      have esc: "escape_char c =
          [CHR 0x5C, CHR ''u'', CHR ''0'', CHR ''0'', hex_digit (n div 16), hex_digit (n mod 16)]"
        using True False by (simp add: escape_char_def n_def [symmetric] Let_def)
      have "n div 16 < 16" using n256 by simp
      then show ?thesis
        by (simp add: esc hex_zero hex_val_digit) (simp add: c)
    next
      case False': False
      have "escape_char c = [c]" using False False' by (simp add: escape_char_def n_def [symmetric] Let_def)
      moreover have "c \<noteq> CHR 0x22" "c \<noteq> CHR 0x5C" using False by (auto simp: n_def)
      ultimately show ?thesis using False' by (simp add: n_def)
    qed
  qed
qed

lemma str_body_dumps: "str_body (concat (map escape_char s) @ CHR 0x22 # r) = Some (s, r)"
  by (induction s) (simp_all add: str_body_escape)

subsection \<open>Numbers\<close>

definition delimited :: "string \<Rightarrow> bool" where
  "delimited r \<longleftrightarrow> r = [] \<or> hd r \<in> {CHR '','', CHR '']'', CHR ''}''}"

text \<open>The three parts of a JSON number.\<close>

definition num_parts :: "string \<Rightarrow> string \<Rightarrow> string \<Rightarrow> bool" where
  "num_parts ip fp ex \<longleftrightarrow>
     (ip = ''0'' \<or> (list_all is_digit ip \<and> ip \<noteq> [] \<and> hd ip \<noteq> CHR ''0'')) \<and>
     (fp = [] \<or> (\<exists>f. fp = CHR ''.'' # f \<and> f \<noteq> [] \<and> list_all is_digit f)) \<and>
     (ex = [] \<or> (\<exists>s d. ex = CHR ''e'' # s # d \<and> s \<in> {CHR ''+'', CHR ''-''} \<and> d \<noteq> [] \<and>
                  list_all is_digit d))"

lemma delimited_facts:
  assumes "delimited r"
  shows "r = [] \<or> \<not> is_digit (hd r)" "r = [] \<or> hd r \<noteq> CHR ''.''"
    "r = [] \<or> (hd r \<noteq> CHR ''e'' \<and> hd r \<noteq> CHR ''E'')" "r = [] \<or> \<not> is_ws (hd r)"
  using assms by (auto simp: delimited_def is_digit_def is_ws_def)

lemma scan_parts:
  assumes "num_parts ip fp ex" "delimited r"
  shows "scan_int (ip @ fp @ ex @ r) = (ip, fp @ ex @ r)"
    and "scan_frac (fp @ ex @ r) = (fp, ex @ r)"
    and "scan_exp (ex @ r) = (ex, r)"
proof -
  note d = delimited_facts [OF assms(2)]
  have e: "\<not> is_digit CHR ''e''" "\<not> is_digit CHR ''.''" by (simp_all add: is_digit_def)
  have ne: "ex @ r = [] \<or> \<not> is_digit (hd (ex @ r))" "ex @ r = [] \<or> hd (ex @ r) \<noteq> CHR ''.''"
    using assms(1) d(1,2) e by (auto simp: num_parts_def)
  then have nf: "fp @ ex @ r = [] \<or> \<not> is_digit (hd (fp @ ex @ r))"
    using assms(1) e by (auto simp: num_parts_def)
  show "scan_int (ip @ fp @ ex @ r) = (ip, fp @ ex @ r)"
  proof (cases "ip = ''0''")
    case False
    then obtain c t where "ip = c # t" "c \<noteq> CHR ''0''" "list_all is_digit ip"
      using assms(1) by (cases ip) (auto simp: num_parts_def)
    then show ?thesis using takeWhile_digits [of is_digit ip "fp @ ex @ r"] nf by (simp add: scan_int_def)
  qed (simp add: scan_int_def)
  show "scan_frac (fp @ ex @ r) = (fp, ex @ r)"
  proof (cases "fp = []")
    case True
    then show ?thesis using ne by (cases "ex @ r") (auto simp: scan_frac_def)
  next
    case False
    then obtain f where f: "fp = CHR ''.'' # f" "f \<noteq> []" "list_all is_digit f"
      using assms(1) by (auto simp: num_parts_def)
    then show ?thesis using takeWhile_digits [of is_digit f "ex @ r"] ne by (simp add: scan_frac_def)
  qed
  show "scan_exp (ex @ r) = (ex, r)"
  proof (cases "ex = []")
    case True
    then show ?thesis using d(3) by (cases r) (auto simp: scan_exp_def)
  next
    case False
    then obtain s k where k: "ex = CHR ''e'' # s # k" "s \<in> {CHR ''+'', CHR ''-''}" "k \<noteq> []"
      "list_all is_digit k" using assms(1) by (auto simp: num_parts_def)
    then show ?thesis using takeWhile_digits [of is_digit k r] d(1) by (auto simp: scan_exp_def)
  qed
qed

lemma num_parts_hd:
  assumes "num_parts ip fp ex" shows "ip \<noteq> []" "is_digit (hd ip)"
  using assms by (auto simp: num_parts_def is_digit_def [of "CHR ''0''"] list_all_iff)

lemma read_number_parts:
  assumes "num_parts ip fp ex" "delimited r" "sg = (if neg then ''-'' else [])"
  shows "read_number (sg @ ip @ fp @ ex @ r) =
     (if fp = [] \<and> ex = [] then map_option (\<lambda>i. (JInt i, r)) (int_of_str (sg @ ip))
      else map_option (\<lambda>f. (JFloat f, r)) (float_of_str (sg @ ip @ fp @ ex)))"
proof -
  obtain c t where c: "ip = c # t" "is_digit c"
    using num_parts_hd [OF assms(1)] by (cases ip) auto
  have "(case sg @ ip @ fp @ ex @ r of c # _ \<Rightarrow> c = CHR ''-'' | [] \<Rightarrow> False) = neg"
    using c is_digit_facts(3) [of c] assms(3) by auto
  then show ?thesis
    using scan_parts [OF assms(1,2)] assms(3) c(1) unfolding read_number_def Let_def by auto
qed

lemma int_str_parts:
  "int_str i = (if i < 0 then ''-'' else []) @ nat_str (nat \<bar>i\<bar>)" "num_parts (nat_str n) [] []"
proof -
  show "int_str i = (if i < 0 then ''-'' else []) @ nat_str (nat \<bar>i\<bar>)"
    by (simp add: int_str_def)
  show "num_parts (nat_str n) [] []"
    using nat_str_0 nat_str_digits [of n] nat_str_hd [of n] by (cases "n = 0") (auto simp: num_parts_def)
qed

lemma read_number_int: "delimited r \<Longrightarrow> read_number (int_str i @ r) = Some (JInt i, r)"
  using read_number_parts [OF int_str_parts(2) [of "nat \<bar>i\<bar>"], of r _ "i < 0"]
    int_of_str_int_str [of i] by (simp add: int_str_parts(1))

lemma exp_str_parts: "\<exists>s d. exp_str e = CHR ''e'' # s # d \<and> s \<in> {CHR ''+'', CHR ''-''} \<and> d \<noteq> [] \<and>
    list_all is_digit d"
  using nat_str_digits [of "nat \<bar>e\<bar>"]
  by (auto simp: exp_str_def Let_def is_digit_def [of "CHR ''0''"])

lemma repr_digits_parts:
  assumes ds: "list_all is_digit ds" "ds \<noteq> []" "hd ds \<noteq> CHR ''0''"
  shows "\<exists>ip fp ex. repr_digits ds decpt = ip @ fp @ ex \<and> num_parts ip fp ex \<and> \<not> (fp = [] \<and> ex = [])"
proof -
  obtain c t where ct: "ds = c # t" using ds by (cases ds) auto
  have c: "is_digit c" "list_all is_digit t" "c \<noteq> CHR ''0''" using ds ct by auto
  obtain s d where ex: "exp_str (decpt - 1) = CHR ''e'' # s # d" "s \<in> {CHR ''+'', CHR ''-''}" "d \<noteq> []"
    "list_all is_digit d" using exp_str_parts by blast
  have z: "is_digit CHR ''0''" by (simp add: is_digit_def)
  consider (exp) "decpt \<le> - 4 \<or> 16 < decpt"
    | (small) "\<not> (decpt \<le> - 4 \<or> 16 < decpt)" "decpt \<le> 0"
    | (big) "\<not> (decpt \<le> - 4 \<or> 16 < decpt)" "0 < decpt" "int (length ds) \<le> decpt"
    | (mid) "\<not> (decpt \<le> - 4 \<or> 16 < decpt)" "0 < decpt" "decpt < int (length ds)" by linarith
  then show ?thesis
  proof cases
    case exp
    then show ?thesis using ct c ex
      by (intro exI [of _ "[c]"] exI [of _ "if t = [] then [] else CHR ''.'' # t"]
          exI [of _ "exp_str (decpt - 1)"]) (auto simp: repr_digits_def num_parts_def)
  next
    case small
    then show ?thesis using ds z zeros_digits [of "nat (- decpt)"]
      by (intro exI [of _ "''0''"] exI [of _ "CHR ''.'' # replicate (nat (- decpt)) CHR ''0'' @ ds"]
          exI [of _ "[]"]) (auto simp: repr_digits_def num_parts_def)
  next
    case big
    then show ?thesis using ds z zeros_digits [of "nat decpt - length ds"]
      by (intro exI [of _ "ds @ replicate (nat decpt - length ds) CHR ''0''"]
          exI [of _ "''.0''"] exI [of _ "[]"]) (auto simp: repr_digits_def num_parts_def)
  next
    case mid
    then show ?thesis using ds
      by (intro exI [of _ "take (nat decpt) ds"] exI [of _ "CHR ''.'' # drop (nat decpt) ds"]
          exI [of _ "[]"])
        (auto simp: repr_digits_def num_parts_def list_all_iff dest: in_set_takeD in_set_dropD)
  qed
qed

lemma float_repr_parts:
  assumes "is_f64 (Fin x)"
  shows "\<exists>neg ip fp ex. float_repr (Fin x) = (if neg then ''-'' else []) @ ip @ fp @ ex \<and>
     num_parts ip fp ex \<and> \<not> (fp = [] \<and> ex = [])"
proof (cases "x = 0")
  case True
  then show ?thesis
    by (intro exI [of _ False] exI [of _ "''0''"] exI [of _ "''.0''"] exI [of _ "[]"])
      (simp add: num_parts_def is_digit_def)
next
  case False
  define y where "y = \<bar>x\<bar>"
  have y: "is_f64 (Fin y)" "0 < y" using assms False by (auto simp: y_def abs_if)
  obtain ds decpt where r: "repr_pos y = repr_digits ds decpt" "ds = nat_str (digits_val ds)"
    "0 < digits_val ds" using repr_pos [OF y] by blast
  have "list_all is_digit ds" "ds \<noteq> []" "hd ds \<noteq> CHR ''0''"
    using r nat_str_digits nat_str_ne nat_str_hd by metis+
  then obtain ip fp ex where "repr_pos y = ip @ fp @ ex" "num_parts ip fp ex" "\<not> (fp = [] \<and> ex = [])"
    using repr_digits_parts r(1) by metis
  moreover have "float_repr (Fin x) = (if x < 0 then ''-'' else []) @ repr_pos y"
    using False by (simp add: y_def)
  ultimately show ?thesis by metis
qed

lemma read_number_float:
  assumes "is_f64 (Fin x)" "delimited r"
  shows "read_number (float_repr (Fin x) @ r) = Some (JFloat (Fin x), r)"
proof -
  obtain neg ip fp ex where p: "float_repr (Fin x) = (if neg then ''-'' else []) @ ip @ fp @ ex"
    "num_parts ip fp ex" "\<not> (fp = [] \<and> ex = [])" using float_repr_parts [OF assms(1)] by blast
  have "float_of_str ((if neg then ''-'' else []) @ ip @ fp @ ex) = Some (Fin x)"
    using float_of_str_repr [OF assms(1)] p(1) by simp
  then show ?thesis
    using read_number_parts [OF p(2) assms(2), of _ neg] p(3) unfolding p(1) by auto
qed

subsection \<open>Values\<close>

text \<open>What Python can build: floats are binary64 values and an object's keys are distinct.\<close>

fun json_ok :: "json \<Rightarrow> bool" where
  "json_ok (JFloat f) = is_f64 f"
| "json_ok (JList js) = list_all json_ok js"
| "json_ok (JObj kvs) = (distinct (map fst kvs) \<and> list_all (\<lambda>(k, j). json_ok j) kvs)"
| "json_ok _ = True"

definition value_start :: "char \<Rightarrow> bool" where
  "value_start c \<longleftrightarrow> is_digit c \<or> c \<in> {CHR 0x22, CHR ''-'', CHR ''['', CHR ''{'', CHR ''n'', CHR ''t'',
     CHR ''f'', CHR ''N'', CHR ''I''}"

lemma value_start_facts:
  assumes "value_start c"
  shows "\<not> is_ws c" "c \<noteq> CHR '']''" "c \<noteq> CHR ''}''"
  using assms by (auto simp: value_start_def is_digit_def is_ws_def)

lemma int_str_start: "int_str i \<noteq> [] \<and> (is_digit (hd (int_str i)) \<or> hd (int_str i) = CHR ''-'')"
  using num_parts_hd [OF int_str_parts(2)] by (simp add: int_str_parts(1))

lemma float_repr_start:
  assumes "is_f64 (Fin x)"
  shows "float_repr (Fin x) \<noteq> [] \<and> (is_digit (hd (float_repr (Fin x))) \<or> hd (float_repr (Fin x)) = CHR ''-'')"
proof -
  obtain neg ip fp ex where "float_repr (Fin x) = (if neg then ''-'' else []) @ ip @ fp @ ex"
    "num_parts ip fp ex" using float_repr_parts [OF assms] by blast
  with num_parts_hd [of ip fp ex] show ?thesis by (cases ip) auto
qed

lemma dumps_start:
  assumes "json_ok j" obtains c t where "dumps_with ws j = c # t" "value_start c"
proof (cases j)
  case (JBool b)
  then show ?thesis using that by (cases b) (auto simp: value_start_def)
next
  case (JInt i)
  then show ?thesis using int_str_start [of i] that by (cases "int_str i") (auto simp: value_start_def)
next
  case (JFloat f)
  show ?thesis
  proof (cases f)
    case (Fin x)
    then show ?thesis using JFloat assms float_repr_start [of x] that
      by (cases "float_repr f") (auto simp: value_start_def)
  qed (use JFloat that in \<open>auto simp: value_start_def\<close>)
qed (use that in \<open>auto simp: value_start_def str_dumps_def split: if_splits\<close>)

text \<open>A number does not start like any other value.\<close>

lemma read_value_number:
  assumes "s \<noteq> []" "is_digit (hd s) \<or> (hd s = CHR ''-'' \<and> (tl s = [] \<or> is_digit (hd (tl s))))"
  shows "read_value (Suc n) s = read_number s"
proof -
  obtain c t where s: "s = c # t" using assms(1) by (cases s) auto
  show ?thesis
  proof (cases "is_digit c")
    case True
    then have "c \<noteq> CHR ''{''" "c \<noteq> CHR ''[''" "c \<noteq> CHR ''n''" "c \<noteq> CHR ''t''" "c \<noteq> CHR ''f''"
      "c \<noteq> CHR ''N''" "c \<noteq> CHR ''I''" "c \<noteq> CHR ''-''" "c \<noteq> CHR 0x22"
      by (auto simp: is_digit_def)
    then show ?thesis by (simp add: s startswith_def)
  next
    case False
    then have "c = CHR ''-''" "t = [] \<or> hd t \<noteq> CHR ''I''"
      using assms(2) s by (auto dest: is_digit_facts(10))
    then show ?thesis by (cases t) (auto simp: s startswith_def)
  qed
qed

lemma read_value_int: "delimited r \<Longrightarrow> read_value (Suc n) (int_str i @ r) = Some (JInt i, r)"
proof -
  assume r: "delimited r"
  have "read_value (Suc n) (int_str i @ r) = read_number (int_str i @ r)"
    using num_parts_hd [OF int_str_parts(2) [of "nat \<bar>i\<bar>"]]
    by (intro read_value_number) (auto simp: int_str_parts(1) hd_append)
  with read_number_int [OF r] show ?thesis by simp
qed

lemma read_value_float:
  assumes "is_f64 f" "delimited r"
  shows "read_value (Suc n) (float_dumps f @ r) = Some (JFloat f, r)"
proof (cases f)
  case (Fin x)
  obtain neg ip fp ex where p: "float_repr (Fin x) = (if neg then ''-'' else []) @ ip @ fp @ ex"
    "num_parts ip fp ex" using float_repr_parts [of x] assms(1) Fin by blast
  obtain c t where "ip = c # t" "is_digit c" using num_parts_hd [OF p(2)] by (cases ip) auto
  then have "read_value (Suc n) (float_repr (Fin x) @ r) = read_number (float_repr (Fin x) @ r)"
    unfolding p(1) by (intro read_value_number) auto
  with read_number_float [of x r] assms Fin show ?thesis by simp
qed (simp_all add: startswith_def)

lemma skip_ws_start: "value_start c \<Longrightarrow> skip_ws (c # t) = c # t"
  by (simp add: value_start_facts)

lemma foldl_dict_set:
  "distinct (map fst (d @ kvs)) \<Longrightarrow> foldl (\<lambda>d (k, v). dict_set d k v) d kvs = d @ kvs"
proof (induction kvs arbitrary: d)
  case (Cons kv kvs)
  obtain k v where kv: "kv = (k, v)" by fastforce
  have "map_of d k = None" using Cons.prems kv by (auto simp: map_of_eq_None_iff)
  then have "dict_set d k v = d @ [(k, v)]" by (rule dict_set_fresh)
  with Cons.IH [of "d @ [(k, v)]"] Cons.prems kv show ?case by simp
qed simp

lemma skip_ws_append: "list_all is_ws ws \<Longrightarrow> skip_ws (ws @ s) = skip_ws s"
  by (induction ws) auto

definition reads_back :: "string \<Rightarrow> json \<Rightarrow> bool" where
  "reads_back ws j \<longleftrightarrow>
     (\<forall>n r. delimited r \<longrightarrow> 2 * length (dumps_with ws j) \<le> n \<longrightarrow> read_value n (dumps_with ws j @ r) = Some (j, r))"

lemma read_items_dumps:
  assumes "list_all is_ws ws" "js \<noteq> []" "list_all json_ok js" "list_all (reads_back ws) js"
    and "2 * length (join_comma ws (map (dumps_with ws) js)) + 1 \<le> n"
  shows "read_items n (join_comma ws (map (dumps_with ws) js) @ CHR '']'' # r) = Some (js, r)"
  using assms(2-)
proof (induction js arbitrary: n)
  case (Cons j js)
  obtain m where m: "n = Suc m" using Cons.prems(4) by (cases n) auto
  show ?case
  proof (cases js)
    case Nil
    have "delimited (CHR '']'' # r)" by (simp add: delimited_def)
    then have "read_value m (dumps_with ws j @ CHR '']'' # r) = Some (j, CHR '']'' # r)"
      using Cons.prems m Nil by (auto simp: reads_back_def)
    then show ?thesis by (simp add: m Nil is_ws_def)
  next
    case (Cons j2 js2)
    let ?rest = "join_comma ws (map (dumps_with ws) js) @ CHR '']'' # r"
    have len: "length (join_comma ws (map (dumps_with ws) (j # js))) =
        length (dumps_with ws j) + 1 + length ws + length (join_comma ws (map (dumps_with ws) js))" using Cons by simp
    have "delimited (CHR '','' # ws @ ?rest)" by (simp add: delimited_def)
    then have v: "read_value m (dumps_with ws j @ CHR '','' # ws @ ?rest) = Some (j, CHR '','' # ws @ ?rest)"
      using Cons.prems m len by (auto simp: reads_back_def)
    obtain c t where "dumps_with ws j2 = c # t" "value_start c" using Cons.prems Cons dumps_start [of j2 ws] by (metis list.pred_inject(2))
    then have "skip_ws (ws @ ?rest) = ?rest"
      using Cons value_start_facts(1) [of c] skip_ws_append [OF assms(1)] by (cases js2) simp_all
    moreover have "read_items m ?rest = Some (js, r)"
      using Cons.prems m len Cons by (intro Cons.IH) auto
    ultimately show ?thesis using v Cons by (simp add: m is_ws_def)
  qed
qed simp

lemma read_members_dumps:
  assumes "list_all is_ws ws" "kvs \<noteq> []" "list_all (\<lambda>(k, j). json_ok j) kvs" "list_all (\<lambda>(k, j). reads_back ws j) kvs"
    and "2 * length (join_comma ws (map (\<lambda>(k, j). str_dumps k @ CHR '':'' # ws @ dumps_with ws j) kvs)) + 1 \<le> n"
  shows "read_members n (join_comma ws (map (\<lambda>(k, j). str_dumps k @ CHR '':'' # ws @ dumps_with ws j) kvs) @ CHR ''}'' # r)
    = Some (kvs, r)"
  using assms(2-)
proof (induction kvs arbitrary: n)
  case (Cons kv kvs)
  let ?p = "\<lambda>(k, j). str_dumps k @ CHR '':'' # ws @ dumps_with ws j"
  obtain k j where kv: "kv = (k, j)" by fastforce
  obtain m where m: "n = Suc m" using Cons.prems(4) by (cases n) auto
  have wsc: "\<not> is_ws CHR '':''" "\<not> is_ws CHR '',''" "\<not> is_ws CHR ''}''" by (simp_all add: is_ws_def)
  obtain c t where ct: "dumps_with ws j = c # t" "value_start c" using Cons.prems(2) kv dumps_start [of j ws] by (metis (mono_tags, lifting) case_prod_conv list.pred_inject(2))
  have key: "read_members n (?p kv @ e # r') =
      (case read_value m (dumps_with ws j @ e # r') of None \<Rightarrow> None
       | Some (j', r2) \<Rightarrow>
           (case skip_ws r2 of [] \<Rightarrow> None
            | d # t2 \<Rightarrow> if d = CHR ''}'' then Some ([(k, j')], t2)
                else if d = CHR '','' then map_option (apfst (Cons (k, j'))) (read_members m (skip_ws t2))
                else None))" for e r'
    using value_start_facts(1) [OF ct(2)] wsc skip_ws_append [OF assms(1)]
    by (simp add: m kv str_dumps_def str_body_dumps ct(1))
  show ?case
  proof (cases kvs)
    case Nil
    have "delimited (CHR ''}'' # r)" by (simp add: delimited_def)
    then have "read_value m (dumps_with ws j @ CHR ''}'' # r) = Some (j, CHR ''}'' # r)"
      using Cons.prems m Nil kv by (auto simp: reads_back_def)
    with key [of "CHR ''}''" r] show ?thesis using wsc by (simp add: Nil kv)
  next
    case (Cons kv2 kvs2)
    let ?rest = "join_comma ws (map ?p kvs) @ CHR ''}'' # r"
    have len: "length (join_comma ws (map ?p (kv # kvs))) =
        length (str_dumps k) + 2 + 2 * length ws + length (dumps_with ws j) + length (join_comma ws (map ?p kvs))"
      using Cons kv by simp
    have "delimited (CHR '','' # ws @ ?rest)" by (simp add: delimited_def)
    then have v: "read_value m (dumps_with ws j @ CHR '','' # ws @ ?rest) = Some (j, CHR '','' # ws @ ?rest)"
      using Cons.prems m len kv by (auto simp: reads_back_def)
    have "skip_ws (ws @ ?rest) = ?rest"
      using Cons skip_ws_append [OF assms(1)] by (cases kv2; cases kvs2) (simp_all add: str_dumps_def is_ws_def)
    moreover have "read_members m ?rest = Some (kvs, r)"
      using Cons.prems m len Cons by (intro Cons.IH) auto
    moreover have "join_comma ws (map ?p (kv # kvs)) @ CHR ''}'' # r = ?p kv @ CHR '','' # ws @ ?rest"
      using Cons by simp
    ultimately show ?thesis using key [of "CHR '',''" "ws @ ?rest"] v wsc by (simp add: kv)
  qed
qed simp

lemma reads_back_list:
  assumes "list_all is_ws ws" "json_ok (JList js)" and rb: "list_all (reads_back ws) js"
  shows "reads_back ws (JList js)"
  unfolding reads_back_def
proof (intro allI impI)
  fix n r
  assume n: "2 * length (dumps_with ws (JList js)) \<le> n"
  then obtain m where m: "n = Suc m" by (cases n) auto
  show "read_value n (dumps_with ws (JList js) @ r) = Some (JList js, r)"
  proof (cases js)
    case (Cons j js')
    then have "json_ok j" using assms(2) by simp
    then obtain c t where "dumps_with ws j = c # t" "value_start c" by (rule dumps_start)
    then have "skip_ws (join_comma ws (map (dumps_with ws) js) @ CHR '']'' # r) = join_comma ws (map (dumps_with ws) js) @ CHR '']'' # r"
      and "hd (join_comma ws (map (dumps_with ws) js) @ CHR '']'' # r) \<noteq> CHR '']''"
      using Cons value_start_facts [of c] by (cases js'; simp)+
    moreover have "read_items m (join_comma ws (map (dumps_with ws) js) @ CHR '']'' # r) = Some (js, r)"
      using assms rb Cons n m by (intro read_items_dumps) auto
    ultimately show ?thesis by (simp add: m)
  qed (simp add: m is_ws_def)
qed

lemma reads_back_obj:
  assumes "list_all is_ws ws" "json_ok (JObj kvs)" and rb: "list_all (\<lambda>(k, j). reads_back ws j) kvs"
  shows "reads_back ws (JObj kvs)"
  unfolding reads_back_def
proof (intro allI impI)
  fix n r
  assume n: "2 * length (dumps_with ws (JObj kvs)) \<le> n"
  then obtain m where m: "n = Suc m" by (cases n) auto
  show "read_value n (dumps_with ws (JObj kvs) @ r) = Some (JObj kvs, r)"
  proof (cases kvs)
    case (Cons kv kvs')
    have "skip_ws (join_comma ws (map (\<lambda>(k, j). str_dumps k @ CHR '':'' # ws @ dumps_with ws j) kvs) @ CHR ''}'' # r) = join_comma ws (map (\<lambda>(k, j). str_dumps k @ CHR '':'' # ws @ dumps_with ws j) kvs) @ CHR ''}'' # r"
      and "hd (join_comma ws (map (\<lambda>(k, j). str_dumps k @ CHR '':'' # ws @ dumps_with ws j) kvs) @ CHR ''}'' # r) \<noteq> CHR ''}''"
      using Cons by (cases kv; cases kvs'; simp add: str_dumps_def is_ws_def)+
    moreover have "read_members m (join_comma ws (map (\<lambda>(k, j). str_dumps k @ CHR '':'' # ws @ dumps_with ws j) kvs) @ CHR ''}'' # r) = Some (kvs, r)"
      using assms rb Cons n m by (intro read_members_dumps) auto
    ultimately show ?thesis using assms(2) foldl_dict_set [of "[]" kvs] by (simp add: m)
  qed (simp add: m is_ws_def)
qed

lemma read_value_dumps:
  assumes "list_all is_ws ws"
  shows "json_ok j \<Longrightarrow> reads_back ws j"
  using assms
proof (induction ws j rule: dumps_with.induct)
  case (1 ws)
  show ?case unfolding reads_back_def
    by (intro allI impI, rename_tac n r, case_tac n) (auto simp: startswith_def)
next
  case (2 ws b)
  show ?case unfolding reads_back_def
    by (intro allI impI, rename_tac n r, case_tac n; cases b; simp add: startswith_def)
next
  case (3 ws i)
  show ?case unfolding reads_back_def
    using int_str_start [of i] read_value_int
    by (intro allI impI, rename_tac n r, case_tac n) auto
next
  case (4 ws f)
  then obtain c t where "float_dumps f = c # t" using dumps_start [of "JFloat f" ws] by (metis dumps_with.simps(4))
  show ?case unfolding reads_back_def
  proof (intro allI impI)
    fix n r
    assume r: "delimited r" and n: "2 * length (dumps_with ws (JFloat f)) \<le> n"
    have "is_f64 f" using 4 by simp
    moreover obtain m where "n = Suc m" using n \<open>float_dumps f = c # t\<close> by (cases n) auto
    ultimately show "read_value n (dumps_with ws (JFloat f) @ r) = Some (JFloat f, r)"
      using read_value_float r by (simp only: dumps_with.simps)
  qed
next
  case (5 ws s)
  show ?case unfolding reads_back_def
    by (intro allI impI, rename_tac n r, case_tac n) (auto simp: str_dumps_def str_body_dumps)
next
  case (6 ws js)
  then show ?case by (intro reads_back_list) (auto simp: list_all_iff)
next
  case (7 ws kvs)
  then show ?case by (intro reads_back_obj) (fastforce simp: list_all_iff)+
qed

lemma loads_dumps_with:
  assumes "list_all is_ws ws" and ok: "json_ok j"
  shows "loads (dumps_with ws j) = Some j"
proof -
  obtain c t where ct: "dumps_with ws j = c # t" "value_start c" using dumps_start [OF ok] by blast
  have "delimited []" by (simp add: delimited_def)
  then have "read_value (2 * length (dumps_with ws j) + 2) (dumps_with ws j @ []) = Some (j, [])"
    using read_value_dumps [OF assms(1) ok] unfolding reads_back_def by (metis le_add1)
  then show ?thesis using value_start_facts(1) [OF ct(2)] by (simp add: loads_def ct(1))
qed

lemmas loads_dumps = loads_dumps_with [of "[]", simplified]

lemma loads_dumps_default: "json_ok j \<Longrightarrow> loads (dumps_default j) = Some j"
  by (simp add: loads_dumps_with is_ws_def)

section \<open>The text is one printable line\<close>

definition printable :: "char \<Rightarrow> bool" where
  "printable c \<longleftrightarrow> (let n = of_char c :: nat in 32 \<le> n \<and> n \<le> 126)"

lemma printable_not_newline: "printable c \<Longrightarrow> c \<noteq> CHR 0x0A \<and> c \<noteq> CHR 0x0D"
  by (auto simp: printable_def)

lemma digit_printable: "is_digit c \<Longrightarrow> printable c"
  by (auto simp: printable_def is_digit_def Let_def)

lemma num_char_printable: "num_char c \<Longrightarrow> printable c"
  using digit_printable [of c] by (auto simp: num_char_def) (simp_all add: printable_def)

lemma escape_printable: "list_all printable (escape_char c)"
proof -
  define n :: nat where "n = of_char c"
  have n: "n < 256" "n div 16 < 16" "n mod 16 < 16"
    using nat_of_char_less_256 [of c] by (simp_all add: n_def div_less_iff_less_mult del: nat_of_char_less_256)
  have hex: "printable (hex_digit m)" if "m < 16" for m
    using that by (simp add: hex_digit_def printable_def)
  have "printable CHR 0x5C" "printable CHR 0x22" "printable CHR ''n''" "printable CHR ''r''"
    "printable CHR ''t''" "printable CHR ''f''" "printable CHR ''b''" "printable CHR ''u''"
    "printable CHR ''0''" by (simp_all add: printable_def)
  then show ?thesis
    using hex [OF n(2)] hex [OF n(3)] by (auto simp: escape_char_def n_def [symmetric] Let_def printable_def [of c])
qed

lemma str_dumps_printable: "list_all printable (str_dumps s)"
  using escape_printable by (auto simp: str_dumps_def list_all_iff printable_def [of "CHR 0x22"])

lemma float_dumps_printable: "is_f64 f \<Longrightarrow> list_all printable (float_dumps f)"
proof (cases f)
  case (Fin x)
  assume "is_f64 f"
  then obtain neg ip fp ex where p: "float_repr (Fin x) = (if neg then ''-'' else []) @ ip @ fp @ ex"
    "num_parts ip fp ex" using float_repr_parts [of x] Fin by blast
  have "list_all num_char (ip @ fp @ ex)" "num_char CHR ''-''"
    using p(2) by (auto simp: num_parts_def list_all_iff num_char_def is_digit_def [of "CHR ''0''"])
  then have "list_all num_char (float_repr (Fin x))" unfolding p(1) by auto
  then show ?thesis using Fin num_char_printable by (auto simp: list_all_iff)
qed (simp_all add: printable_def)

lemma int_str_printable: "list_all printable (int_str i)"
  using nat_str_digits [of "nat \<bar>i\<bar>"]
  by (auto simp: int_str_parts(1) list_all_iff digit_printable printable_def [of "CHR ''-''"])

lemma join_comma_printable:
  "list_all printable ws \<Longrightarrow> list_all (list_all printable) ss \<Longrightarrow> list_all printable (join_comma ws ss)"
  by (induction ws ss rule: join_comma.induct) (auto simp: printable_def [of "CHR '',''"])

lemma dumps_with_printable: "list_all printable ws \<Longrightarrow> json_ok j \<Longrightarrow> list_all printable (dumps_with ws j)"
proof (induction ws j rule: dumps_with.induct)
  case (2 ws b)
  then show ?case by (cases b) (simp_all add: printable_def)
next
  case (6 ws js)
  have "list_all printable (join_comma ws (map (dumps_with ws) js))"
    using 6 by (intro join_comma_printable) (auto simp: list_all_iff)
  then show ?case by (simp add: printable_def [of "CHR ''[''"] printable_def [of "CHR '']''"])
next
  case (7 ws kvs)
  have "list_all printable (str_dumps k @ CHR '':'' # ws @ dumps_with ws j)" if "(k, j) \<in> set kvs" for k j
    using 7 that str_dumps_printable [of k] by (fastforce simp: list_all_iff printable_def [of "CHR '':''"])
  then have "list_all printable (join_comma ws (map (\<lambda>(k, j). str_dumps k @ CHR '':'' # ws @ dumps_with ws j) kvs))"
    using 7(2) by (intro join_comma_printable) (auto simp: list_all_iff)
  then show ?case by (simp add: printable_def [of "CHR ''{''"] printable_def [of "CHR ''}''"])
qed (simp_all add: int_str_printable float_dumps_printable str_dumps_printable, simp add: printable_def)

lemmas dumps_printable = dumps_with_printable [of "[]", simplified]

end
