(* ===== verification/Platform.thy ===== *)
theory Platform
  imports Json
begin

text \<open>
  What the code reaches outside its own objects: the process environment, the wall clock, the
  local disk and the Prometheus client. \<open>prometheus_client\<close> is third-party code, so the model
  keeps the calls the program makes to it, in order, and nothing of its inside; the readings
  below (\<open>count_calls\<close>, \<open>last_gauge\<close>) are counts and searches over those calls.
\<close>

section \<open>Calls to the Prometheus client\<close>

type_synonym labels = "(string \<times> string) list"

datatype metric_call =
    CounterInc string labels
  | GaugeSet string labels int
  | GaugeInc string labels
  | GaugeDec string labels
  | Observe string labels pyfloat
  | Touch string labels

definition count_calls :: "metric_call \<Rightarrow> metric_call list \<Rightarrow> nat" where
  "count_calls c cs = length (filter (\<lambda>x. x = c) cs)"

fun last_gauge :: "string \<Rightarrow> labels \<Rightarrow> metric_call list \<Rightarrow> int option" where
  "last_gauge n l [] = None"
| "last_gauge n l (c # cs) =
     (case last_gauge n l cs of
        Some v \<Rightarrow> Some v
      | None \<Rightarrow> (case c of GaugeSet n' l' v \<Rightarrow> if n' = n \<and> l' = l then Some v else None | _ \<Rightarrow> None))"

lemma count_calls_append [simp]: "count_calls c (xs @ ys) = count_calls c xs + count_calls c ys"
  by (simp add: count_calls_def)

lemma count_calls_Cons [simp]:
  "count_calls c (x # xs) = (if x = c then 1 else 0) + count_calls c xs"
  by (simp add: count_calls_def)

lemma count_calls_Nil [simp]: "count_calls c [] = 0"
  by (simp add: count_calls_def)

lemma last_gauge_append:
  "last_gauge n l (xs @ ys) = (case last_gauge n l ys of Some v \<Rightarrow> Some v | None \<Rightarrow> last_gauge n l xs)"
  by (induction xs) (auto split: option.splits)

section \<open>The wall clock\<close>

record datetime =
  year :: nat
  month :: nat
  day :: nat
  hour :: nat
  minute :: nat
  second :: nat
  microsecond :: nat

definition pad :: "nat \<Rightarrow> nat \<Rightarrow> string" where
  "pad w n = replicate (w - length (nat_str n)) CHR ''0'' @ nat_str n"

text \<open>\<open>datetime.isoformat()\<close> of a time in UTC; the fraction is left out when it is zero.\<close>

definition isoformat_utc :: "datetime \<Rightarrow> string" where
  "isoformat_utc d =
     pad 4 (year d) @ ''-'' @ pad 2 (month d) @ ''-'' @ pad 2 (day d) @ ''T'' @
     pad 2 (hour d) @ '':'' @ pad 2 (minute d) @ '':'' @ pad 2 (second d) @
     (if microsecond d = 0 then [] else ''.'' @ pad 6 (microsecond d)) @ ''+00:00''"

section \<open>The platform state\<close>

text \<open>
  \<open>disk_ok\<close> says whether operations on the disk succeed at present; where it is \<open>False\<close> they
  raise \<open>OSError\<close>. \<open>fstore\<close> is the module variable \<open>_store\<close> of the failure store: the path of
  the \<open>FileFailureStore\<close> in use, if one has been made.
\<close>

record platform =
  env :: "string \<rightharpoonup> string"
  wall :: datetime
  disk_ok :: bool
  files :: "string \<rightharpoonup> string"
  fstore :: "string option"
  calls :: "metric_call list"

text \<open>A process that has just started on a healthy, empty disk with no environment.\<close>

definition boot :: "datetime \<Rightarrow> platform" where
  "boot d = \<lparr>env = Map.empty, wall = d, disk_ok = True, files = Map.empty, fstore = None, calls = []\<rparr>"

definition new_year :: datetime where
  "new_year = \<lparr>year = 2026, month = 1, day = 1, hour = 0, minute = 0, second = 0, microsecond = 0\<rparr>"

lemma boot_sel [simp]:
  "env (boot d) = Map.empty" "wall (boot d) = d" "disk_ok (boot d)" "files (boot d) = Map.empty"
  "fstore (boot d) = None" "calls (boot d) = []"
  by (simp_all add: boot_def)

lemma isoformat_new_year: "isoformat_utc new_year = ''2026-01-01T00:00:00+00:00''"
  by code_simp

definition emit :: "metric_call list \<Rightarrow> platform \<Rightarrow> platform" where
  "emit cs p = p\<lparr>calls := calls p @ cs\<rparr>"

definition getenv :: "string \<Rightarrow> string \<Rightarrow> platform \<Rightarrow> string" where
  "getenv k dflt p = (case env p k of None \<Rightarrow> dflt | Some v \<Rightarrow> v)"

lemma emit_sel [simp]:
  "env (emit cs p) = env p" "wall (emit cs p) = wall p" "disk_ok (emit cs p) = disk_ok p"
  "files (emit cs p) = files p" "fstore (emit cs p) = fstore p"
  "calls (emit cs p) = calls p @ cs"
  by (simp_all add: emit_def)

lemma emit_emit [simp]: "emit ds (emit cs p) = emit (cs @ ds) p"
  by (simp add: emit_def)

definition os_error :: exn where
  "os_error = PyException ''OSError'' ''input/output error''"

end
