(* ===== verification/FailureStore.thy ===== *)
theory FailureStore
  imports Platform
begin

text \<open>
  \<open>shared/autosre_shared/storage/failure_store.py\<close>: failure events, the JSONL file that keeps
  them, the module-level store, \<open>record_event\<close> and the \<open>/failures\<close> endpoints. The interface
  \<open>FailureStore\<close> is the locale \<open>failure_log\<close>; the file store is its interpretation.
\<close>

section \<open>Events\<close>

definition Source_CHAOS :: string where "Source_CHAOS = ''chaos''"

definition Source_CIRCUIT_BREAKER :: string where "Source_CIRCUIT_BREAKER = ''circuit_breaker''"

definition Source_RATE_LIMIT :: string where "Source_RATE_LIMIT = ''rate_limit''"

definition Source_WORKER :: string where "Source_WORKER = ''worker''"

definition Source_AUTH :: string where "Source_AUTH = ''auth''"

lemmas source_defs = Source_CHAOS_def Source_CIRCUIT_BREAKER_def Source_RATE_LIMIT_def
  Source_WORKER_def Source_AUTH_def

definition utc_now_iso :: "platform \<Rightarrow> string" where
  "utc_now_iso p = isoformat_utc (wall p)"

text \<open>A field holds whatever JSON value \<open>from_dict\<close> found; the code's own events hold strings
  and a dictionary of details.\<close>

record failure_event =
  source :: json
  event :: json
  details :: json
  timestamp :: json

definition to_dict :: "failure_event \<Rightarrow> json" where
  "to_dict e = JObj [(''timestamp'', timestamp e), (''source'', source e), (''event'', event e),
                     (''details'', details e)]"

text \<open>\<open>d.get\<close> on a value that is not a dictionary raises \<open>AttributeError\<close>.\<close>

fun py_type :: "json \<Rightarrow> string" where
  "py_type JNull = ''NoneType''"
| "py_type (JBool b) = ''bool''"
| "py_type (JInt i) = ''int''"
| "py_type (JFloat f) = ''float''"
| "py_type (JStr s) = ''str''"
| "py_type (JList js) = ''list''"
| "py_type (JObj kvs) = ''dict''"

definition no_get :: "json \<Rightarrow> exn" where
  "no_get j = PyException ''AttributeError''
     ([CHR 0x27] @ py_type j @ [CHR 0x27] @ '' object has no attribute 'get''@ [CHR 0x27])"

definition from_dict :: "json \<Rightarrow> failure_event result" where
  "from_dict d =
     (case d of
        JObj kvs \<Rightarrow> Inr \<lparr>source = dict_get kvs ''source'' (JStr ''unknown''),
                        event = dict_get kvs ''event'' (JStr ''unknown''),
                        details = dict_get kvs ''details'' (JObj []),
                        timestamp = dict_get kvs ''timestamp'' (JStr '''')\<rparr>
      | _ \<Rightarrow> Inl (no_get d))"

section \<open>The file store\<close>

definition mkdir_parents :: "platform \<Rightarrow> unit result" where
  "mkdir_parents p = (if disk_ok p then Inr () else Inl os_error)"

definition event_line :: "failure_event \<Rightarrow> string" where
  "event_line e = dumps (to_dict e)"

definition write_event :: "string \<Rightarrow> failure_event \<Rightarrow> platform \<Rightarrow> unit result \<times> platform" where
  "write_event path e p =
     (let line = event_line e
      in if disk_ok p
         then (Inr (), p\<lparr>files := (files p)(path \<mapsto>
                 (case files p path of None \<Rightarrow> [] | Some t \<Rightarrow> t) @ line @ [CHR 0x0A])\<rparr>)
         else (Inl os_error, p))"

text \<open>
  The lines of a text file. A line ends at a line feed, a carriage return or the two together;
  since the loop strips every line and skips the empty ones, cutting at each of the two
  characters gives it the same lines.
\<close>

fun text_lines :: "string \<Rightarrow> string \<Rightarrow> string list" where
  "text_lines acc [] = [rev acc]"
| "text_lines acc (c # s) =
     (if c = CHR 0x0A \<or> c = CHR 0x0D then rev acc # text_lines [] s else text_lines (c # acc) s)"

text \<open>The body of the loop over the lines: skip, raise, or take one more event.\<close>

definition source_differs :: "string option \<Rightarrow> json \<Rightarrow> bool" where
  "source_differs src d =
     (case src of None \<Rightarrow> False
      | Some s \<Rightarrow> (case d of JObj kvs \<Rightarrow> map_of kvs ''source'' \<noteq> Some (JStr s) | _ \<Rightarrow> False))"

fun read_lines :: "string option \<Rightarrow> string list \<Rightarrow> failure_event list result" where
  "read_lines src [] = Inr []"
| "read_lines src (l # ls) =
     (let line = strip l
      in if line = [] then read_lines src ls
         else case loads line of
                None \<Rightarrow> read_lines src ls
              | Some d \<Rightarrow>
                  if source_differs src d then read_lines src ls
                  else (case from_dict d of
                          Inl x \<Rightarrow> Inl x
                        | Inr e \<Rightarrow> map_sum id (Cons e) (read_lines src ls)))"

text \<open>The slice \<open>events[-limit:]\<close>.\<close>

definition slice_from :: "int \<Rightarrow> 'a list \<Rightarrow> 'a list" where
  "slice_from i xs =
     (let n = int (length xs) in drop (nat (if i < 0 then max 0 (n + i) else min i n)) xs)"

definition read_events ::
  "string \<Rightarrow> int option \<Rightarrow> string option \<Rightarrow> platform \<Rightarrow> failure_event list result" where
  "read_events path limit src p =
     (case files p path of
        None \<Rightarrow> Inr []
      | Some text \<Rightarrow>
          if \<not> disk_ok p then Inl os_error
          else (case read_lines src (text_lines [] text) of
                  Inl x \<Rightarrow> Inl x
                | Inr events \<Rightarrow> Inr (case limit of Some k \<Rightarrow> slice_from (- k) events | None \<Rightarrow> events)))"

definition clear_events :: "string \<Rightarrow> platform \<Rightarrow> unit result \<times> platform" where
  "clear_events path p =
     (case files p path of
        None \<Rightarrow> (Inr (), p)
      | Some _ \<Rightarrow> if disk_ok p then (Inr (), p\<lparr>files := (files p)(path \<mapsto> [])\<rparr>)
                  else (Inl os_error, p))"

section \<open>The module-level store\<close>

definition path_join :: "string \<Rightarrow> string \<Rightarrow> string" where
  "path_join a b = (if a = [] \<or> last a = CHR ''/'' then a @ b else a @ ''/'' @ b)"

definition default_path :: "platform \<Rightarrow> string" where
  "default_path p = getenv ''FAILURE_LOG_PATH'' (path_join (getenv ''DATA_DIR'' ''data'' p) ''failures.jsonl'') p"

definition get_failure_store :: "platform \<Rightarrow> string result \<times> platform" where
  "get_failure_store p =
     (case fstore p of
        Some path \<Rightarrow> (Inr path, p)
      | None \<Rightarrow>
          (case mkdir_parents p of
             Inl x \<Rightarrow> (Inl x, p)
           | Inr _ \<Rightarrow> (Inr (default_path p), p\<lparr>fstore := Some (default_path p)\<rparr>)))"

definition set_failure_store :: "string \<Rightarrow> platform \<Rightarrow> platform" where
  "set_failure_store path p = p\<lparr>fstore := Some path\<rparr>"

definition new_event :: "string \<Rightarrow> string \<Rightarrow> (string \<times> json) list \<Rightarrow> platform \<Rightarrow> failure_event" where
  "new_event src ev ds p =
     \<lparr>source = JStr src, event = JStr ev, details = JObj ds, timestamp = JStr (utc_now_iso p)\<rparr>"

text \<open>\<open>record_event\<close>: the body of its \<open>try\<close>, which raises when the store cannot be made or the
  file cannot be written, and its \<open>except Exception\<close>, which lets every other exception through. The
  call to the logger has no effect here. Callers go on with the state alone, since nothing is ever
  let through.\<close>

definition record_event_body ::
  "string \<Rightarrow> string \<Rightarrow> (string \<times> json) list \<Rightarrow> platform \<Rightarrow> unit result \<times> platform" where
  "record_event_body src ev ds p =
     (case get_failure_store p of
        (Inl x, p1) \<Rightarrow> (Inl x, p1)
      | (Inr path, p1) \<Rightarrow> write_event path (new_event src ev ds p) p1)"

definition record_event_outcome ::
  "string \<Rightarrow> string \<Rightarrow> (string \<times> json) list \<Rightarrow> platform \<Rightarrow> unit result \<times> platform" where
  "record_event_outcome src ev ds p =
     (case record_event_body src ev ds p of
        (Inr u, p1) \<Rightarrow> (Inr u, p1)
      | (Inl x, p1) \<Rightarrow> if is_Exception x then (Inr (), p1) else (Inl x, p1))"

definition record_event :: "string \<Rightarrow> string \<Rightarrow> (string \<times> json) list \<Rightarrow> platform \<Rightarrow> platform" where
  "record_event src ev ds p = snd (record_event_outcome src ev ds p)"

section \<open>Endpoints\<close>

definition list_failures :: "int \<Rightarrow> string option \<Rightarrow> platform \<Rightarrow> json result \<times> platform" where
  "list_failures limit src p =
     (case get_failure_store p of
        (Inl x, p1) \<Rightarrow> (Inl x, p1)
      | (Inr path, p1) \<Rightarrow>
          (map_sum id (\<lambda>es. JObj [(''count'', JInt (int (length es))), (''events'', JList (map to_dict es))])
             (read_events path (Some limit) src p1), p1))"

definition clear_failures :: "platform \<Rightarrow> json result \<times> platform" where
  "clear_failures p =
     (case get_failure_store p of
        (Inl x, p1) \<Rightarrow> (Inl x, p1)
      | (Inr path, p1) \<Rightarrow>
          (case clear_events path p1 of
             (r, p2) \<Rightarrow> (map_sum id (\<lambda>_. JObj [(''status'', JStr ''cleared'')]) r, p2)))"

section \<open>Lines and events\<close>

lemma from_dict_to_dict [simp]: "from_dict (to_dict e) = Inr e"
  by (simp add: from_dict_def to_dict_def dict_get_def)

lemma new_event_sel [simp]:
  "source (new_event src ev ds p) = JStr src" "event (new_event src ev ds p) = JStr ev"
  "details (new_event src ev ds p) = JObj ds"
  by (simp_all add: new_event_def)

lemma event_line_facts:
  assumes "json_ok (to_dict e)"
  shows "loads (strip (event_line e)) = Some (to_dict e)" "strip (event_line e) \<noteq> []"
    "CHR 0x0A \<notin> set (event_line e)" "CHR 0x0D \<notin> set (event_line e)"
proof -
  obtain s where s: "event_line e = CHR ''{'' # s @ [CHR ''}'']"
    by (simp add: event_line_def to_dict_def)
  then have "strip (event_line e) = event_line e"
    by (intro strip_id) (simp_all add: is_space_def)
  then show "loads (strip (event_line e)) = Some (to_dict e)" "strip (event_line e) \<noteq> []"
    using loads_dumps [OF assms] s by (simp_all add: event_line_def)
  show "CHR 0x0A \<notin> set (event_line e)" "CHR 0x0D \<notin> set (event_line e)"
    using dumps_printable [OF assms] printable_not_newline by (auto simp: event_line_def list_all_iff)
qed

lemma text_lines_newline: "text_lines acc (a @ CHR 0x0A # b) = text_lines acc a @ text_lines [] b"
  by (induction acc a rule: text_lines.induct) auto

lemma text_lines_single:
  "CHR 0x0A \<notin> set l \<Longrightarrow> CHR 0x0D \<notin> set l \<Longrightarrow> text_lines acc l = [rev acc @ l]"
  by (induction l arbitrary: acc) auto

text \<open>
  A line the reader can take or skip: blank, not JSON, or an object with a \<open>source\<close>; and the
  event it holds, if any.
\<close>

definition line_ok :: "string \<Rightarrow> bool" where
  "line_ok l \<longleftrightarrow> strip l = [] \<or>
     (case loads (strip l) of None \<Rightarrow> True
      | Some d \<Rightarrow> (case d of JObj kvs \<Rightarrow> map_of kvs ''source'' \<noteq> None | _ \<Rightarrow> False))"

definition line_event :: "string \<Rightarrow> failure_event option" where
  "line_event l =
     (if strip l = [] then None
      else case loads (strip l) of None \<Rightarrow> None
           | Some d \<Rightarrow> (case from_dict d of Inl _ \<Rightarrow> None | Inr e \<Rightarrow> Some e))"

definition matches :: "string option \<Rightarrow> failure_event \<Rightarrow> bool" where
  "matches src e = (case src of None \<Rightarrow> True | Some s \<Rightarrow> source e = JStr s)"

definition last_of :: "int option \<Rightarrow> 'a list \<Rightarrow> 'a list" where
  "last_of limit xs = (case limit of None \<Rightarrow> xs | Some k \<Rightarrow> slice_from (- k) xs)"

lemma slice_last: "0 < k \<Longrightarrow> slice_from (- k) xs = drop (length xs - nat k) xs"
  by (auto simp: slice_from_def Let_def nat_diff_distrib' intro!: arg_cong2 [of _ _ _ _ drop])

lemma slice_zero: "slice_from (- 0) xs = xs"
  by (simp add: slice_from_def)

lemma slice_negative: "0 < k \<Longrightarrow> slice_from k xs = drop (nat k) xs"
  by (auto simp: slice_from_def Let_def min_def)

definition events_of :: "string list \<Rightarrow> failure_event list" where
  "events_of ls = List.map_filter line_event ls"

lemma events_of_simps [simp]:
  "events_of [] = []"
  "events_of (l # ls) = (case line_event l of None \<Rightarrow> events_of ls | Some e \<Rightarrow> e # events_of ls)"
  "events_of (ls @ ms) = events_of ls @ events_of ms"
  by (auto simp: events_of_def List.map_filter_def split: option.splits)

lemma read_lines_ok:
  "list_all line_ok ls \<Longrightarrow> read_lines src ls = Inr (filter (matches src) (events_of ls))"
proof (induction ls)
  case (Cons l ls)
  then have IH: "read_lines src ls = Inr (filter (matches src) (events_of ls))" and l: "line_ok l"
    by auto
  show ?case
  proof (cases "strip l = []")
    case False
    show ?thesis
    proof (cases "loads (strip l)")
      case (Some d)
      then obtain kvs s where d: "d = JObj kvs" "map_of kvs ''source'' = Some s"
        using l False by (auto simp: line_ok_def split: json.splits)
      obtain e where e: "from_dict d = Inr e" "source e = s"
        using d by (auto simp: from_dict_def dict_get_def)
      have "source_differs src d = (\<not> matches src e)"
        using d e(2) by (auto simp: source_differs_def matches_def split: option.splits)
      then show ?thesis using IH False Some e(1) by (auto simp: line_event_def)
    qed (use IH False in \<open>simp add: line_event_def\<close>)
  qed (use IH in \<open>simp add: line_event_def\<close>)
qed simp

lemma event_line_ok:
  assumes "json_ok (to_dict e)"
  shows "line_ok (event_line e)" "line_event (event_line e) = Some e"
  using event_line_facts [OF assms] by (auto simp: line_ok_def line_event_def) (simp add: to_dict_def)

section \<open>The interface\<close>

text \<open>
  What every \<open>FailureStore\<close> promises, over the events it holds (\<open>view\<close>) while it is usable:
  a write appends, a read selects by source and keeps the last ones, a clear empties.
\<close>

locale failure_log =
  fixes usable :: "'s \<Rightarrow> bool"
    and view :: "'s \<Rightarrow> failure_event list"
    and put :: "failure_event \<Rightarrow> 's \<Rightarrow> unit result \<times> 's"
    and read :: "int option \<Rightarrow> string option \<Rightarrow> 's \<Rightarrow> failure_event list result"
    and clear :: "'s \<Rightarrow> unit result \<times> 's"
  assumes write_view: "usable s \<Longrightarrow> json_ok (to_dict e) \<Longrightarrow>
      fst (put e s) = Inr () \<and> usable (snd (put e s)) \<and> view (snd (put e s)) = view s @ [e]"
    and read_view: "usable s \<Longrightarrow> read limit src s = Inr (last_of limit (filter (matches src) (view s)))"
    and clear_view: "usable s \<Longrightarrow>
      fst (clear s) = Inr () \<and> usable (snd (clear s)) \<and> view (snd (clear s)) = []"
begin

lemma write_all_view:
  "usable s \<Longrightarrow> list_all (\<lambda>e. json_ok (to_dict e)) es \<Longrightarrow>
     usable (fold (\<lambda>e s. snd (put e s)) es s) \<and>
     view (fold (\<lambda>e s. snd (put e s)) es s) = view s @ es"
  by (induction es arbitrary: s) (auto simp: write_view)

lemma write_all_read:
  assumes "usable s" "list_all (\<lambda>e. json_ok (to_dict e)) es"
  shows "read limit src (fold (\<lambda>e s. snd (put e s)) es s) =
     Inr (last_of limit (filter (matches src) (view s @ es)))"
  using write_all_view [OF assms] read_view by metis

lemma clear_write_read:
  assumes "usable s" "list_all (\<lambda>e. json_ok (to_dict e)) es"
  shows "read None None (fold (\<lambda>e s. snd (put e s)) es (snd (clear s))) = Inr es"
  using write_all_read [of "snd (clear s)" es None None] clear_view [OF assms(1)] assms(2)
  by (simp add: last_of_def matches_def)

end

section \<open>The file store provides the interface\<close>

definition log_text :: "string \<Rightarrow> platform \<Rightarrow> string" where
  "log_text path p = (case files p path of None \<Rightarrow> [] | Some t \<Rightarrow> t)"

definition log_usable :: "string \<Rightarrow> platform \<Rightarrow> bool" where
  "log_usable path p \<longleftrightarrow>
     disk_ok p \<and> (log_text path p = [] \<or> last (log_text path p) = CHR 0x0A) \<and>
     list_all line_ok (text_lines [] (log_text path p))"

definition log_view :: "string \<Rightarrow> platform \<Rightarrow> failure_event list" where
  "log_view path p = events_of (text_lines [] (log_text path p))"

lemma blank_line [simp]: "line_ok []" "line_event [] = None"
  by (simp_all add: line_ok_def line_event_def strip_def)

lemma text_lines_append_line:
  assumes "t = [] \<or> last t = CHR 0x0A" "json_ok (to_dict e)"
  shows "events_of (text_lines [] (t @ event_line e @ [CHR 0x0A])) = events_of (text_lines [] t) @ [e]"
    and "list_all line_ok (text_lines [] (t @ event_line e @ [CHR 0x0A])) =
      list_all line_ok (text_lines [] t)"
proof -
  have line: "text_lines [] (event_line e @ [CHR 0x0A]) = [event_line e, []]"
    using text_lines_newline [of "[]" "event_line e" "[]"] text_lines_single [of "event_line e" "[]"]
      event_line_facts(3,4) [OF assms(2)] by simp
  have "events_of (text_lines [] (t @ event_line e @ [CHR 0x0A])) = events_of (text_lines [] t) @ [e] \<and>
    list_all line_ok (text_lines [] (t @ event_line e @ [CHR 0x0A])) = list_all line_ok (text_lines [] t)"
  proof (cases "t = []")
    case False
    with assms(1) obtain t' where t: "t = t' @ [CHR 0x0A]" by (metis append_butlast_last_id)
    have "text_lines [] (t @ event_line e @ [CHR 0x0A]) = text_lines [] t' @ [event_line e, []]"
      using text_lines_newline [of "[]" t' "event_line e @ [CHR 0x0A]"] line by (simp add: t)
    moreover have "text_lines [] t = text_lines [] t' @ [[]]"
      using text_lines_newline [of "[]" t' "[]"] by (simp add: t)
    ultimately show ?thesis using event_line_ok [OF assms(2)] by simp
  qed (use line event_line_ok [OF assms(2)] in simp)
  then show "events_of (text_lines [] (t @ event_line e @ [CHR 0x0A])) = events_of (text_lines [] t) @ [e]"
    "list_all line_ok (text_lines [] (t @ event_line e @ [CHR 0x0A])) = list_all line_ok (text_lines [] t)"
    by blast+
qed

interpretation file_log: failure_log "log_usable path" "log_view path" "write_event path"
    "read_events path" "clear_events path" for path
proof
  fix s e
  assume u: "log_usable path s" and e: "json_ok (to_dict e)"
  have t: "log_text path (snd (write_event path e s)) = log_text path s @ event_line e @ [CHR 0x0A]"
    using u by (simp add: write_event_def log_text_def log_usable_def)
  show "fst (write_event path e s) = Inr () \<and> log_usable path (snd (write_event path e s)) \<and>
      log_view path (snd (write_event path e s)) = log_view path s @ [e]"
    using u text_lines_append_line [OF _ e, of "log_text path s"]
    by (auto simp: log_usable_def log_view_def t) (simp_all add: write_event_def Let_def)
next
  fix s limit src
  assume u: "log_usable path s"
  then show "read_events path limit src s = Inr (last_of limit (filter (matches src) (log_view path s)))"
    using read_lines_ok [of "text_lines [] (log_text path s)" src]
    by (auto simp: read_events_def log_usable_def log_view_def log_text_def last_of_def slice_from_def
        split: option.splits)
next
  fix s
  assume "log_usable path s"
  then show "fst (clear_events path s) = Inr () \<and> log_usable path (snd (clear_events path s)) \<and>
      log_view path (snd (clear_events path s)) = []"
    by (auto simp: clear_events_def log_usable_def log_view_def log_text_def split: option.splits)
qed

section \<open>Recording\<close>


text \<open>The path of the store in use, or of the one the next access makes.\<close>

definition store_path :: "platform \<Rightarrow> string" where
  "store_path p = (case fstore p of Some path \<Rightarrow> path | None \<Rightarrow> default_path p)"

lemma record_event_eq:
  "record_event src ev ds p =
     (if disk_ok p
      then p\<lparr>fstore := Some (store_path p), files := (files p)(store_path p \<mapsto>
        (case files p (store_path p) of None \<Rightarrow> [] | Some t \<Rightarrow> t) @ event_line (new_event src ev ds p) @ [CHR 0x0A])\<rparr>
      else p)"
  by (auto simp: record_event_def record_event_outcome_def record_event_body_def get_failure_store_def
      write_event_def mkdir_parents_def store_path_def os_error_def Let_def split: option.splits)

lemma record_event_frame [simp, frame_simps]:
  "env (record_event src ev ds p) = env p" "wall (record_event src ev ds p) = wall p"
  "disk_ok (record_event src ev ds p) = disk_ok p" "calls (record_event src ev ds p) = calls p"
  by (simp_all add: record_event_eq)

lemma record_event_fstore [simp]: "fstore p = Some path \<Longrightarrow> fstore (record_event src ev ds p) = Some path"
  by (simp add: record_event_eq store_path_def)

lemma record_event_disk_down: "\<not> disk_ok p \<Longrightarrow> record_event src ev ds p = p"
  by (simp add: record_event_eq)

lemma new_event_json_ok [simp]: "json_ok (to_dict (new_event src ev ds p)) \<longleftrightarrow> json_ok (JObj ds)"
  by (simp add: to_dict_def new_event_def)

lemma new_event_record [simp]: "new_event s e d (record_event src ev ds p) = new_event s e d p"
  by (simp add: new_event_def utc_now_iso_def)

lemma record_event_written:
  assumes "log_usable (store_path p) p" "json_ok (JObj ds)"
  shows "fstore (record_event src ev ds p) = Some (store_path p)"
    "log_usable (store_path p) (record_event src ev ds p)"
    "log_view (store_path p) (record_event src ev ds p) = log_view (store_path p) p @ [new_event src ev ds p]"
proof -
  let ?w = "snd (write_event (store_path p) (new_event src ev ds p) p)"
  have r: "record_event src ev ds p = ?w\<lparr>fstore := Some (store_path p)\<rparr>"
    using assms(1) by (simp add: record_event_eq write_event_def log_usable_def)
  show "fstore (record_event src ev ds p) = Some (store_path p)" by (simp add: r)
  show "log_usable (store_path p) (record_event src ev ds p)"
    "log_view (store_path p) (record_event src ev ds p) = log_view (store_path p) p @ [new_event src ev ds p]"
    using file_log.write_view [OF assms(1), of "new_event src ev ds p"] assms(2)
    by (simp_all add: r log_usable_def log_view_def log_text_def)
qed

lemma record_event_view:
  assumes "fstore p = Some path" "log_usable path p" "json_ok (JObj ds)"
  shows "log_usable path (record_event src ev ds p)"
    "log_view path (record_event src ev ds p) = log_view path p @ [new_event src ev ds p]"
  using record_event_written [of p ds] assms by (simp_all add: store_path_def)

definition record_all :: "(string \<times> string \<times> (string \<times> json) list) list \<Rightarrow> platform \<Rightarrow> platform" where
  "record_all rs p = fold (\<lambda>(src, ev, ds). record_event src ev ds) rs p"

lemma record_all_view:
  assumes "fstore p = Some path" "log_usable path p" "list_all (\<lambda>(src, ev, ds). json_ok (JObj ds)) rs"
  shows "fstore (record_all rs p) = Some path \<and> log_usable path (record_all rs p) \<and>
    log_view path (record_all rs p) = log_view path p @ map (\<lambda>(src, ev, ds). new_event src ev ds p) rs"
  using assms
proof (induction rs arbitrary: p)
  case (Cons r rs)
  obtain src ev ds where r: "r = (src, ev, ds)" by (cases r) auto
  let ?p = "record_event src ev ds p"
  have "fstore ?p = Some path" "log_usable path ?p"
    "log_view path ?p = log_view path p @ [new_event src ev ds p]"
    using record_event_view [OF Cons.prems(1,2)] Cons.prems r by auto
  with Cons.IH [of ?p] Cons.prems(3) r show ?case by (simp add: record_all_def)
qed (simp add: record_all_def)

lemma read_lines_append:
  assumes "list_all line_ok ls"
  shows "read_lines src (ls @ ms) =
     (case read_lines src ms of Inl x \<Rightarrow> Inl x | Inr es \<Rightarrow> Inr (filter (matches src) (events_of ls) @ es))"
  using assms
proof (induction ls)
  case (Cons l ls)
  have "read_lines src [l] = Inr (filter (matches src) (events_of [l]))"
    using Cons.prems by (intro read_lines_ok) simp
  with Cons show ?case by (auto simp: Let_def split: sum.splits option.splits if_splits)
qed (simp split: sum.splits)

section \<open>Properties\<close>

text \<open>
  C17. Any sequence of \<open>record_event\<close> calls is read back by \<open>GET /failures\<close>: with a positive
  limit \<open>k\<close> the endpoint answers the last \<open>k\<close> of the events of the wanted source, the ones
  already in the file first, in the order they were recorded, each with all of its details.
  Lines of the file that are blank or not JSON are passed over.
\<close>

theorem failures_feed:
  assumes "fstore p = Some path" "log_usable path p"
    and "list_all (\<lambda>(src, ev, ds). json_ok (JObj ds)) rs" "0 < k"
  shows "(let es = filter (matches src)
                    (log_view path p @ map (\<lambda>(src, ev, ds). new_event src ev ds p) rs)
          in fst (list_failures k src (record_all rs p)) =
               Inr (JObj [(''count'', JInt (int (min (nat k) (length es)))),
                          (''events'', JList (map to_dict (drop (length es - nat k) es)))]))"
proof -
  let ?p = "record_all rs p"
  define es where "es = filter (matches src)
      (log_view path p @ map (\<lambda>(src, ev, ds). new_event src ev ds p) rs)"
  have v: "fstore ?p = Some path" "log_usable path ?p"
    "log_view path ?p = log_view path p @ map (\<lambda>(src, ev, ds). new_event src ev ds p) rs"
    using record_all_view [OF assms(1-3)] by auto
  have "read_events path (Some k) src ?p = Inr (drop (length es - nat k) es)"
    using file_log.read_view [OF v(2), of "Some k" src] v(3) assms(4)
    by (simp add: last_of_def slice_last es_def)
  then show ?thesis
    using v(1) assms(4) unfolding Let_def es_def [symmetric]
    by (simp add: list_failures_def get_failure_store_def min_def)
qed

theorem failures_feed_witness:
  "fst (list_failures 1 (Some ''chaos'')
      (record_all [(''chaos'', ''reset'', []), (''worker'', ''job_failed'', [])]
        ((boot new_year)\<lparr>fstore := Some ''f''\<rparr>))) =
    Inr (JObj [(''count'', JInt 1), (''events'', JList [JObj [
       (''timestamp'', JStr ''2026-01-01T00:00:00+00:00''), (''source'', JStr ''chaos''),
       (''event'', JStr ''reset''), (''details'', JObj [])]])])"
  using failures_feed [of "(boot new_year)\<lparr>fstore := Some ''f''\<rparr>" "''f''"
      "[(''chaos'', ''reset'', []), (''worker'', ''job_failed'', [])]" 1 "Some ''chaos''"]
  by (simp add: matches_def to_dict_def new_event_def utc_now_iso_def isoformat_new_year
      log_usable_def log_view_def log_text_def)




text \<open>
  A limit that is not positive does not mean \<open>no events\<close>: \<open>events[-0:]\<close> is the whole list, so
  \<open>limit=0\<close> answers every event, and a negative limit \<open>-k\<close> drops the first \<open>k\<close>.
\<close>

lemma read_limit_nonpositive:
  assumes "log_usable path p" "k \<le> 0"
  shows "read_events path (Some k) src p =
     Inr (drop (nat (- k)) (filter (matches src) (log_view path p)))"
  using file_log.read_view [OF assms(1), of "Some k" src] slice_negative [of "- k"] slice_zero assms(2)
  by (cases "k = 0") (simp_all add: last_of_def)

text \<open>
  A line that is valid JSON but not an object is not skipped like a malformed one: reading
  the log raises \<open>AttributeError\<close>, whatever comes after the line.
\<close>

lemma scalar_line_raises:
  assumes "disk_ok p" "files p path = Some text" "text_lines [] text = ls @ l # ms"
    and "list_all line_ok ls" "strip l \<noteq> []" "loads (strip l) = Some d" "\<forall>kvs. d \<noteq> JObj kvs"
  shows "read_events path limit src p = Inl (no_get d)"
proof -
  have "source_differs src d = False" using assms(7) by (auto simp: source_differs_def split: option.splits json.splits)
  moreover have "from_dict d = Inl (no_get d)" using assms(7) by (auto simp: from_dict_def split: json.splits)
  ultimately have "read_lines src (l # ms) = Inl (no_get d)" using assms(5,6) by simp
  moreover have "read_lines src (ls @ xs) =
      (case read_lines src xs of Inl x \<Rightarrow> Inl x | Inr es \<Rightarrow> Inr (filter (matches src) (events_of ls) @ es))" for xs
    by (rule read_lines_append [OF assms(4)])
  ultimately show ?thesis using assms(1-3) by (simp add: read_events_def)
qed

end
