(* ===== verification/Http.thy ===== *)
theory Http
  imports FailureStore
begin

text \<open>
  Requests and responses as the application code sees them. The web framework (Starlette and
  FastAPI) is third-party code: its routing is a parameter of the definitions that call it, and
  what is here is the data the code reads from a request and puts into a response.
\<close>

text \<open>
  Header names are lower case, as ASGI delivers them. \<open>client_host\<close> is \<open>request.client.host\<close>,
  \<open>route\<close> the path template of the matched route.
\<close>

record request =
  req_method :: string
  req_path :: string
  req_headers :: "(string \<times> string) list"
  client_host :: "string option"
  route :: "string option"

datatype content = Json_content json | Text_content string

record response =
  status_code :: int
  body :: content
  headers :: "(string \<times> string) list"

definition JSONResponse :: "int \<Rightarrow> json \<Rightarrow> (string \<times> string) list \<Rightarrow> response" where
  "JSONResponse code j hs = \<lparr>status_code = code, body = Json_content j, headers = hs\<rparr>"

lemma JSONResponse_sel [simp]:
  "status_code (JSONResponse code j hs) = code" "body (JSONResponse code j hs) = Json_content j"
  "headers (JSONResponse code j hs) = hs"
  by (simp_all add: JSONResponse_def)

text \<open>The text of an exception, \<open>str(exc)\<close>.\<close>

fun exn_str :: "exn \<Rightarrow> string" where
  "exn_str (CircuitBreakerOpenError n) = ''circuit breaker '' @ [CHR 0x27] @ n @ [CHR 0x27] @ '' is open''"
| "exn_str (HTTPException c d) = int_str c @ '': '' @ d"
| "exn_str (PyException c m) = m"
| "exn_str CancelledError = ''''"

text \<open>The text of a string in an error message, \<open>repr(s)\<close>, on the Latin-1 range.\<close>

definition repr_char :: "char \<Rightarrow> char \<Rightarrow> string" where
  "repr_char q c =
     (let n = of_char c :: nat
      in if c = q \<or> n = 92 then [CHR 0x5C, c]
         else if n = 9 then [CHR 0x5C, CHR ''t'']
         else if n = 10 then [CHR 0x5C, CHR ''n'']
         else if n = 13 then [CHR 0x5C, CHR ''r'']
         else if n < 32 \<or> (127 \<le> n \<and> n \<le> 160) \<or> n = 173
           then [CHR 0x5C, CHR ''x'', hex_digit (n div 16), hex_digit (n mod 16)]
         else [c])"

definition str_repr :: "string \<Rightarrow> string" where
  "str_repr s =
     (let q = (if CHR 0x27 \<in> set s \<and> CHR 0x22 \<notin> set s then CHR 0x22 else CHR 0x27)
      in [q] @ concat (map (repr_char q) s) @ [q])"

end
