(* ===== verification/CircuitBreaker.thy ===== *)
theory CircuitBreaker
  imports Http
begin

text \<open>
  \<open>shared/autosre_shared/resilience/circuit_breaker.py\<close>: the breaker state machine over a
  \<open>BreakerStore\<close>, the context managers that guard a call, the registry and the
  \<open>/breaker/status\<close> endpoint. Readings of the breaker's clock are arguments. The store
  interface is the locale \<open>breaker_store\<close>, interpreted by \<open>InMemoryStore\<close>; the contract of the
  state machine is the abstract machine \<open>spec_\<dots>\<close>, which the operations refine.
\<close>

section \<open>State\<close>

datatype breaker_state = CLOSED | OPEN | HALF_OPEN

fun state_text :: "breaker_state \<Rightarrow> string" where
  "state_text CLOSED = ''closed''"
| "state_text OPEN = ''open''"
| "state_text HALF_OPEN = ''half_open''"

fun STATE_VALUE :: "breaker_state \<Rightarrow> int" where
  "STATE_VALUE CLOSED = 0"
| "STATE_VALUE OPEN = 1"
| "STATE_VALUE HALF_OPEN = 2"

record breaker_record =
  state :: breaker_state
  failure_count :: int
  success_count :: int
  opened_at :: "pyfloat option"

definition new_record :: breaker_record where
  "new_record = \<lparr>state = CLOSED, failure_count = 0, success_count = 0, opened_at = None\<rparr>"

text \<open>The interface \<open>BreakerStore\<close>, and \<open>InMemoryStore\<close>.\<close>

record 's store_ops =
  load :: "'s \<Rightarrow> breaker_record"
  save :: "breaker_record \<Rightarrow> 's \<Rightarrow> 's"

record in_memory_store =
  mem_record :: breaker_record

definition in_memory_new :: in_memory_store where
  "in_memory_new = \<lparr>mem_record = new_record\<rparr>"

definition in_memory_load :: "in_memory_store \<Rightarrow> breaker_record" where
  "in_memory_load s = mem_record s"

definition in_memory_save :: "breaker_record \<Rightarrow> in_memory_store \<Rightarrow> in_memory_store" where
  "in_memory_save r s = s\<lparr>mem_record := r\<rparr>"

definition in_memory_ops :: "in_memory_store store_ops" where
  "in_memory_ops = \<lparr>load = in_memory_load, save = in_memory_save\<rparr>"

text \<open>The constructor's arguments, then the object. \<open>expected\<close> is membership in
  \<open>expected_exceptions\<close>; its default \<open>(Exception,)\<close> is \<^const>\<open>is_Exception\<close>.\<close>

record breaker_config =
  failure_threshold :: int
  recovery_timeout :: pyfloat
  success_threshold :: int
  expected :: "exn \<Rightarrow> bool"

definition default_config :: breaker_config where
  "default_config = \<lparr>failure_threshold = 5, recovery_timeout = Fin 30, success_threshold = 2,
     expected = is_Exception\<rparr>"

record 's circuit_breaker =
  name :: string
  config :: breaker_config
  ops :: "'s store_ops"
  store :: 's

section \<open>Operations\<close>

abbreviation (input) name_label :: "string \<Rightarrow> labels" where
  "name_label n \<equiv> [(''name'', n)]"

definition load_rec :: "'s circuit_breaker \<Rightarrow> breaker_record" where
  "load_rec b = load (ops b) (store b)"

definition save_rec :: "breaker_record \<Rightarrow> 's circuit_breaker \<Rightarrow> 's circuit_breaker" where
  "save_rec r b = b\<lparr>store := save (ops b) r (store b)\<rparr>"

definition new_breaker ::
  "string \<Rightarrow> breaker_config \<Rightarrow> 's store_ops \<Rightarrow> 's \<Rightarrow> platform \<Rightarrow> 's circuit_breaker \<times> platform" where
  "new_breaker n c sops s p =
     (let b = \<lparr>name = n, config = c, ops = sops, store = s\<rparr>; rec = load_rec b
      in (b, emit [GaugeSet ''circuit_breaker_state'' (name_label n) (STATE_VALUE (state rec)),
                   Touch ''circuit_breaker_open_total'' (name_label n),
                   Touch ''circuit_breaker_rejections_total'' (name_label n)] p))"

definition breaker_state_of :: "'s circuit_breaker \<Rightarrow> breaker_state" where
  "breaker_state_of b = state (load_rec b)"

definition set_state ::
  "string \<Rightarrow> breaker_record \<Rightarrow> breaker_state \<Rightarrow> platform \<Rightarrow> breaker_record \<times> platform" where
  "set_state n rec new_state p =
     (rec\<lparr>state := new_state\<rparr>,
      emit [GaugeSet ''circuit_breaker_state'' (name_label n) (STATE_VALUE new_state)] p)"

text \<open>\<open>rec.opened_at or 0.0\<close>: a falsy \<open>opened_at\<close> is \<open>None\<close> or zero itself.\<close>

definition opened_or_zero :: "breaker_record \<Rightarrow> pyfloat" where
  "opened_or_zero rec = (case opened_at rec of None \<Rightarrow> 0 | Some t \<Rightarrow> t)"

definition allow ::
  "pyfloat \<Rightarrow> 's circuit_breaker \<Rightarrow> platform \<Rightarrow> bool \<times> 's circuit_breaker \<times> platform" where
  "allow now b p =
     (let rec = load_rec b
      in if state rec = OPEN then
           if now - opened_or_zero rec < recovery_timeout (config b) then (False, b, p)
           else let (rec', p1) = set_state (name b) (rec\<lparr>success_count := 0\<rparr>) HALF_OPEN p;
                    b1 = save_rec rec' b
                in (True, b1, record_event Source_CIRCUIT_BREAKER ''half_open'' [(''name'', JStr (name b))] p1)
         else (True, b, p))"

definition reject :: "'s circuit_breaker \<Rightarrow> platform \<Rightarrow> exn \<times> platform" where
  "reject b p =
     (CircuitBreakerOpenError (name b),
      emit [CounterInc ''circuit_breaker_rejections_total'' (name_label (name b))] p)"

definition record_success ::
  "'s circuit_breaker \<Rightarrow> platform \<Rightarrow> 's circuit_breaker \<times> platform" where
  "record_success b p =
     (let rec = load_rec b
      in if state rec = HALF_OPEN then
           let rec1 = rec\<lparr>success_count := success_count rec + 1\<rparr>
           in if success_threshold (config b) \<le> success_count rec1 then
                let (rec2, p1) = set_state (name b)
                      (rec1\<lparr>failure_count := 0, success_count := 0, opened_at := None\<rparr>) CLOSED p
                in (save_rec rec2 b,
                    record_event Source_CIRCUIT_BREAKER ''closed'' [(''name'', JStr (name b))] p1)
              else (save_rec rec1 b, p)
         else (save_rec (rec\<lparr>failure_count := 0\<rparr>) b, p))"

definition opened_event :: "'s circuit_breaker \<Rightarrow> int \<Rightarrow> platform \<Rightarrow> platform" where
  "opened_event b n p =
     record_event Source_CIRCUIT_BREAKER ''opened''
       [(''name'', JStr (name b)), (''failure_count'', JInt n)] p"

definition record_failure ::
  "pyfloat \<Rightarrow> 's circuit_breaker \<Rightarrow> platform \<Rightarrow> 's circuit_breaker \<times> platform" where
  "record_failure now b p =
     (let rec = load_rec b; open_inc = CounterInc ''circuit_breaker_open_total'' (name_label (name b))
      in if state rec = HALF_OPEN then
           let (rec1, p1) = set_state (name b) (rec\<lparr>opened_at := Some now, success_count := 0\<rparr>) OPEN p;
               p2 = emit [open_inc] p1
           in (save_rec rec1 b, opened_event b (failure_count rec1) p2)
         else
           let rec1 = rec\<lparr>failure_count := failure_count rec + 1\<rparr>
           in if failure_threshold (config b) \<le> failure_count rec1 then
                let (rec2, p1) = set_state (name b) (rec1\<lparr>opened_at := Some now\<rparr>) OPEN p;
                    p2 = emit [open_inc] p1
                in (save_rec rec2 b, opened_event b (failure_count rec2) p2)
              else (save_rec rec1 b, p))"

definition enter ::
  "pyfloat \<Rightarrow> 's circuit_breaker \<Rightarrow> platform \<Rightarrow> unit result \<times> 's circuit_breaker \<times> platform" where
  "enter now b p =
     (case allow now b p of
        (True, b1, p1) \<Rightarrow> (Inr (), b1, p1)
      | (False, b1, p1) \<Rightarrow> (case reject b1 p1 of (x, p2) \<Rightarrow> (Inl x, b1, p2)))"

definition exit_call ::
  "bool \<Rightarrow> pyfloat \<Rightarrow> 's circuit_breaker \<Rightarrow> platform \<Rightarrow> 's circuit_breaker \<times> platform" where
  "exit_call failed now b p = (if failed then record_failure now b p else record_success b p)"

text \<open>
  A guarded block. While its body is suspended other requests run, so the body acts on the
  breaker and the platform too. \<open>now1\<close> and \<open>now2\<close> are the clock at entry and at exit.
\<close>

type_synonym ('s, 'a) guarded =
  "'s circuit_breaker \<Rightarrow> platform \<Rightarrow> 'a result \<times> 's circuit_breaker \<times> platform"

definition protect :: "('s, 'a) guarded \<Rightarrow> pyfloat \<Rightarrow> pyfloat \<Rightarrow> ('s, 'a) guarded" where
  "protect block now1 now2 b p =
     (case enter now1 b p of
        (Inl x, b1, p1) \<Rightarrow> (Inl x, b1, p1)
      | (Inr _, b1, p1) \<Rightarrow>
          (case block b1 p1 of
             (Inl x, b2, p2) \<Rightarrow>
               if expected (config b2) x then
                 (case exit_call True now2 b2 p2 of (b3, p3) \<Rightarrow> (Inl x, b3, p3))
               else (Inl x, b2, p2)
           | (Inr v, b2, p2) \<Rightarrow>
               (case exit_call False now2 b2 p2 of (b3, p3) \<Rightarrow> (Inr v, b3, p3))))"

definition guard :: "('s, 'a) guarded \<Rightarrow> pyfloat \<Rightarrow> pyfloat \<Rightarrow> ('s, 'a) guarded" where
  "guard block now1 now2 b p =
     (case enter now1 b p of
        (Inl x, b1, p1) \<Rightarrow> (Inl x, b1, p1)
      | (Inr _, b1, p1) \<Rightarrow>
          (case block b1 p1 of
             (Inl x, b2, p2) \<Rightarrow>
               if expected (config b2) x then
                 (case exit_call True now2 b2 p2 of (b3, p3) \<Rightarrow> (Inl x, b3, p3))
               else (Inl x, b2, p2)
           | (Inr v, b2, p2) \<Rightarrow>
               (case exit_call False now2 b2 p2 of (b3, p3) \<Rightarrow> (Inr v, b3, p3))))"

definition call :: "('s, 'a) guarded \<Rightarrow> pyfloat \<Rightarrow> pyfloat \<Rightarrow> ('s, 'a) guarded" where
  "call func now1 now2 b p = protect func now1 now2 b p"

definition cb_snapshot :: "pyfloat \<Rightarrow> 's circuit_breaker \<Rightarrow> json" where
  "cb_snapshot now b =
     (let rec = load_rec b;
          secs = (case opened_at rec of
                    Some t \<Rightarrow> if state rec = OPEN
                              then JFloat (pyround (pymax 0 (recovery_timeout (config b) - (now - t))) 2)
                              else JNull
                  | None \<Rightarrow> JNull)
      in JObj [(''name'', JStr (name b)), (''state'', JStr (state_text (state rec))),
               (''failure_count'', JInt (failure_count rec)),
               (''success_count'', JInt (success_count rec)),
               (''seconds_until_half_open'', secs),
               (''config'', JObj [(''failure_threshold'', JInt (failure_threshold (config b))),
                                  (''recovery_timeout'', JFloat (recovery_timeout (config b))),
                                  (''success_threshold'', JInt (success_threshold (config b)))])])"

section \<open>Registry and endpoint\<close>

type_synonym breaker = "in_memory_store circuit_breaker"

type_synonym registry = "breaker dict"

definition get_or_create ::
  "string \<Rightarrow> breaker_config \<Rightarrow> registry \<Rightarrow> platform \<Rightarrow> breaker \<times> registry \<times> platform" where
  "get_or_create n c reg p =
     (case map_of reg n of
        Some b \<Rightarrow> (b, reg, p)
      | None \<Rightarrow> (case new_breaker n c in_memory_ops in_memory_new p of
                   (b, p1) \<Rightarrow> (b, dict_set reg n b, p1)))"

definition all_breakers :: "registry \<Rightarrow> breaker list" where
  "all_breakers reg = map snd reg"

definition reset_registry :: "registry \<Rightarrow> registry" where
  "reset_registry reg = []"

definition breaker_dependency ::
  "string \<Rightarrow> breaker_config \<Rightarrow> registry \<Rightarrow> platform \<Rightarrow> breaker \<times> registry \<times> platform" where
  "breaker_dependency n c = (\<lambda>reg p. get_or_create n c reg p)"

definition exn_name :: "exn \<Rightarrow> string" where
  "exn_name x = (case x of CircuitBreakerOpenError n \<Rightarrow> n | _ \<Rightarrow> ''unknown'')"

definition circuit_breaker_open_handler :: "exn \<Rightarrow> response" where
  "circuit_breaker_open_handler x =
     JSONResponse 503 (JObj [(''detail'', JStr (exn_str x)), (''circuit'', JStr (exn_name x)),
                             (''state'', JStr ''open'')]) []"

definition breaker_status :: "pyfloat \<Rightarrow> registry \<Rightarrow> json" where
  "breaker_status now reg = JObj [(''breakers'', JList (map (cb_snapshot now) (all_breakers reg)))]"

section \<open>Interleavings\<close>

text \<open>
  The lock makes each of \<open>allow\<close>, \<open>record_success\<close> and \<open>record_failure\<close> one atomic step; guarded
  calls that overlap in time interleave these steps in any order. A step carries its clock reading.
\<close>

datatype breaker_op = Allow pyfloat | Success | Failure pyfloat

fun run_op :: "breaker_op \<Rightarrow> 's circuit_breaker \<times> platform \<Rightarrow> 's circuit_breaker \<times> platform" where
  "run_op (Allow now) (b, p) = snd (allow now b p)"
| "run_op Success (b, p) = record_success b p"
| "run_op (Failure now) (b, p) = record_failure now b p"

definition run_ops :: "breaker_op list \<Rightarrow> 's circuit_breaker \<times> platform \<Rightarrow> 's circuit_breaker \<times> platform" where
  "run_ops xs bp = fold run_op xs bp"

lemmas breaker_op_defs = allow_def record_success_def record_failure_def set_state_def
  opened_event_def

lemma run_ops_simps [simp]:
  "run_ops [] bp = bp" "run_ops (x # xs) bp = run_ops xs (run_op x bp)"
  "run_ops (xs @ ys) bp = run_ops ys (run_ops xs bp)"
  by (simp_all add: run_ops_def)

lemma save_rec_sel [simp]:
  "name (save_rec r b) = name b" "config (save_rec r b) = config b" "ops (save_rec r b) = ops b"
  by (simp_all add: save_rec_def)

lemma run_op_frame [simp, frame_simps]:
  "name (fst (run_op x bp)) = name (fst bp)" "config (fst (run_op x bp)) = config (fst bp)"
  "ops (fst (run_op x bp)) = ops (fst bp)"
  by (cases bp; cases x; simp add: breaker_op_defs Let_def)+

lemma run_ops_frame [simp, frame_simps]:
  "name (fst (run_ops xs bp)) = name (fst bp)" "config (fst (run_ops xs bp)) = config (fst bp)"
  "ops (fst (run_ops xs bp)) = ops (fst bp)"
  by (induction xs arbitrary: bp) simp_all

section \<open>The contract: an abstract machine\<close>

text \<open>
  The phases a breaker promises: closed with a count of consecutive failures, open since a time,
  or half open with a count of successful probes. \<open>SOpen\<close> and \<open>SHalf\<close> keep the failure count,
  which the events and the status endpoint report.
\<close>

datatype phase = SClosed int | SOpen int pyfloat | SHalf int int

fun spec_step :: "breaker_config \<Rightarrow> breaker_op \<Rightarrow> phase \<Rightarrow> phase" where
  "spec_step c (Allow now) (SOpen n t) =
     (if now - t < recovery_timeout c then SOpen n t else SHalf n 0)"
| "spec_step c (Allow now) s = s"
| "spec_step c Success (SClosed n) = SClosed 0"
| "spec_step c Success (SOpen n t) = SOpen 0 t"
| "spec_step c Success (SHalf n k) =
     (if success_threshold c \<le> k + 1 then SClosed 0 else SHalf n (k + 1))"
| "spec_step c (Failure now) (SClosed n) =
     (if failure_threshold c \<le> n + 1 then SOpen (n + 1) now else SClosed (n + 1))"
| "spec_step c (Failure now) (SOpen n t) =
     (if failure_threshold c \<le> n + 1 then SOpen (n + 1) now else SOpen (n + 1) t)"
| "spec_step c (Failure now) (SHalf n k) = SOpen n now"

fun spec_state :: "phase \<Rightarrow> breaker_state" where
  "spec_state (SClosed n) = CLOSED"
| "spec_state (SOpen n t) = OPEN"
| "spec_state (SHalf n k) = HALF_OPEN"

definition rec_phase :: "breaker_record \<Rightarrow> phase" where
  "rec_phase r = (case state r of
      CLOSED \<Rightarrow> SClosed (failure_count r)
    | OPEN \<Rightarrow> SOpen (failure_count r) (opened_or_zero r)
    | HALF_OPEN \<Rightarrow> SHalf (failure_count r) (success_count r))"

definition phase_of :: "'s circuit_breaker \<Rightarrow> phase" where
  "phase_of b = rec_phase (load_rec b)"

lemma spec_state_phase [simp]: "spec_state (phase_of b) = breaker_state_of b"
  by (simp add: phase_of_def rec_phase_def breaker_state_of_def split: breaker_state.splits)

lemma opened_or_zero_simps [simp]:
  "opened_or_zero (r\<lparr>failure_count := n\<rparr>) = opened_or_zero r"
  "opened_or_zero (r\<lparr>success_count := n\<rparr>) = opened_or_zero r"
  "opened_or_zero (r\<lparr>state := st\<rparr>) = opened_or_zero r"
  "opened_or_zero (r\<lparr>opened_at := Some t\<rparr>) = t"
  by (simp_all add: opened_or_zero_def)

text \<open>The record invariant.\<close>

definition record_ok :: "breaker_config \<Rightarrow> breaker_record \<Rightarrow> bool" where
  "record_ok c r \<longleftrightarrow>
     0 \<le> failure_count r \<and> 0 \<le> success_count r \<and>
     (opened_at r = None \<longleftrightarrow> state r = CLOSED) \<and>
     (state r = CLOSED \<longrightarrow> failure_count r = 0 \<or> failure_count r < failure_threshold c) \<and>
     (state r \<noteq> HALF_OPEN \<longrightarrow> success_count r = 0) \<and>
     (success_count r = 0 \<or> success_count r < success_threshold c)"

section \<open>The store interface\<close>

text \<open>What the breaker relies on of a \<open>BreakerStore\<close>: loading gives back what was last saved.\<close>

locale breaker_store =
  fixes sops :: "'s store_ops"
  assumes load_save: "load sops (save sops r s) = r"
begin

lemma load_save_rec: "ops b = sops \<Longrightarrow> load_rec (save_rec r b) = r"
  by (simp add: load_rec_def save_rec_def load_save)

lemma step_refines:
  assumes "ops b = sops"
  shows "phase_of (fst (run_op x (b, p))) = spec_step (config b) x (phase_of b)"
  using assms
  by (cases x; cases "state (load_rec b)")
    (auto simp: breaker_op_defs phase_of_def rec_phase_def load_save_rec Let_def)

lemma steps_refine:
  "ops (fst bp) = sops \<Longrightarrow>
   phase_of (fst (run_ops xs bp)) = fold (spec_step (config (fst bp))) xs (phase_of (fst bp))"
proof (induction xs arbitrary: bp)
  case (Cons x xs)
  with step_refines [of "fst bp" x "snd bp"] show ?case by simp
qed simp

lemma step_record_ok:
  assumes "ops b = sops" "record_ok (config b) (load_rec b)"
  shows "record_ok (config b) (load_rec (fst (run_op x (b, p))))"
  using assms
  by (cases x; cases "state (load_rec b)")
    (auto simp: breaker_op_defs record_ok_def load_save_rec Let_def)

end

interpretation in_memory: breaker_store in_memory_ops
  by unfold_locales (simp add: in_memory_ops_def in_memory_load_def in_memory_save_def)

section \<open>Reachable breakers\<close>

text \<open>
  Everything that can happen to a breaker made by the constructor, and to the platform it shares
  with the rest of the process: its own steps, and any activity of other components, which never
  set this breaker's gauge.
\<close>

inductive breaker_reach :: "string \<Rightarrow> breaker_config \<Rightarrow> breaker \<Rightarrow> platform \<Rightarrow> bool" for n c where
  created: "new_breaker n c in_memory_ops in_memory_new p0 = (b, p) \<Longrightarrow> breaker_reach n c b p"
| stepped: "breaker_reach n c b p \<Longrightarrow> run_op x (b, p) = (b', p') \<Longrightarrow> breaker_reach n c b' p'"
| rejected: "breaker_reach n c b p \<Longrightarrow> reject b p = (x, p') \<Longrightarrow> breaker_reach n c b p'"
| others: "breaker_reach n c b p \<Longrightarrow>
    last_gauge ''circuit_breaker_state'' [(''name'', n)] (calls p') =
    last_gauge ''circuit_breaker_state'' [(''name'', n)] (calls p) \<Longrightarrow> breaker_reach n c b p'"

inductive_cases breaker_reachE: "breaker_reach n c b p"

definition gauge_ok :: "'s circuit_breaker \<Rightarrow> platform \<Rightarrow> bool" where
  "gauge_ok b p \<longleftrightarrow> last_gauge ''circuit_breaker_state'' (name_label (name b)) (calls p) =
     Some (STATE_VALUE (breaker_state_of b))"

lemma run_op_gauge:
  assumes "ops b = in_memory_ops" "gauge_ok b p"
  shows "case run_op x (b, p) of (b', p') \<Rightarrow> gauge_ok b' p'"
  using assms
  by (cases x; cases "state (load_rec b)")
    (auto simp: breaker_op_defs gauge_ok_def breaker_state_of_def in_memory.load_save_rec Let_def
      last_gauge_append)

lemma new_breaker_load: "load_rec (fst (new_breaker n c in_memory_ops in_memory_new p)) = new_record"
  by (simp add: new_breaker_def load_rec_def in_memory_ops_def in_memory_load_def in_memory_new_def Let_def)

lemma new_breaker_sel [simp]:
  "name (fst (new_breaker n c sops s p)) = n" "config (fst (new_breaker n c sops s p)) = c"
  "ops (fst (new_breaker n c sops s p)) = sops"
  by (simp_all add: new_breaker_def Let_def)

lemma reach_invariant:
  "breaker_reach n c b p \<Longrightarrow>
   name b = n \<and> config b = c \<and> ops b = in_memory_ops \<and> record_ok c (load_rec b) \<and> gauge_ok b p"
proof (induction rule: breaker_reach.induct)
  case (created p0 b p)
  then have b: "b = fst (new_breaker n c in_memory_ops in_memory_new p0)"
    "p = snd (new_breaker n c in_memory_ops in_memory_new p0)" by simp_all
  have "calls p = calls p0 @ [GaugeSet ''circuit_breaker_state'' (name_label n) 0,
      Touch ''circuit_breaker_open_total'' (name_label n),
      Touch ''circuit_breaker_rejections_total'' (name_label n)]"
    using new_breaker_load [of n c p0] by (simp add: b new_breaker_def Let_def new_record_def)
  then show ?case using new_breaker_load [of n c p0]
    by (simp add: b gauge_ok_def breaker_state_of_def record_ok_def new_record_def last_gauge_append)
next
  case (stepped b p x b' p')
  then show ?case
    using run_op_gauge [of b p x] in_memory.step_record_ok [of b x p] run_op_frame [of x "(b, p)"] by simp
next
  case (rejected b p x p')
  then show ?case by (auto simp: reject_def gauge_ok_def last_gauge_append)
qed (auto simp: gauge_ok_def)

section \<open>Runs of the abstract machine\<close>

fun failure_run :: "int \<Rightarrow> breaker_op list \<Rightarrow> int" where
  "failure_run n [] = n"
| "failure_run n (Allow t # xs) = failure_run n xs"
| "failure_run n (Success # xs) = failure_run 0 xs"
| "failure_run n (Failure t # xs) = failure_run (n + 1) xs"

lemma spec_below_threshold:
  assumes "n < failure_threshold c" "0 < failure_threshold c"
    and "\<forall>ys. prefix ys xs \<longrightarrow> failure_run n ys < failure_threshold c"
  shows "fold (spec_step c) xs (SClosed n) = SClosed (failure_run n xs)"
  using assms
proof (induction xs arbitrary: n)
  case (Cons x xs)
  have rest: "\<forall>ys. prefix ys xs \<longrightarrow> failure_run n (x # ys) < failure_threshold c"
    using Cons.prems(3) by (metis prefix_def append_Cons)
  then have "failure_run n [x] < failure_threshold c" by (metis Nil_prefix)
  with rest Cons.IH Cons.prems(1,2) show ?case by (cases x) auto
qed simp

fun op_within :: "rat \<Rightarrow> rat \<Rightarrow> breaker_op \<Rightarrow> bool" where
  "op_within t T (Allow u) \<longleftrightarrow> (\<exists>x. u = Fin x \<and> t \<le> x \<and> x \<le> T)"
| "op_within t T Success \<longleftrightarrow> True"
| "op_within t T (Failure u) \<longleftrightarrow> (\<exists>x. u = Fin x \<and> t \<le> x \<and> x \<le> T)"

lemma pyfloat_le_less_trans: "a \<le> b \<Longrightarrow> b < c \<Longrightarrow> a < (c :: pyfloat)"
  by (cases a; cases b; cases c) (auto simp: less_eq_pyfloat_def)

lemma elapsed_short:
  assumes "Fin T - Fin t < r" "t \<le> t'" "u \<le> T"
  shows "Fin u - Fin t' < r"
  using assms round64_mono [of "u - t'" "T - t"] pyfloat_le_less_trans by (simp add: diff_mono)

lemma spec_open_window:
  assumes "Fin T - Fin t < recovery_timeout c" "list_all (op_within t T) xs" "t \<le> s" "s \<le> T"
  shows "\<exists>m s'. fold (spec_step c) xs (SOpen n (Fin s)) = SOpen m (Fin s') \<and> t \<le> s' \<and> s' \<le> T"
  using assms(2-4)
proof (induction xs arbitrary: n s)
  case (Cons x xs)
  then show ?case using elapsed_short [OF assms(1)] by (cases x) auto
qed auto

definition successes :: "breaker_op list \<Rightarrow> int" where
  "successes xs = int (length (filter (\<lambda>x. x = Success) xs))"

fun is_Failure :: "breaker_op \<Rightarrow> bool" where
  "is_Failure (Failure t) = True"
| "is_Failure x = False"

lemma spec_closed_no_failure:
  "\<not> list_ex is_Failure xs \<Longrightarrow> fold (spec_step c) xs (SClosed 0) = SClosed 0"
proof (induction xs)
  case (Cons x xs) then show ?case by (cases x) auto
qed simp

lemma spec_half_open_run:
  assumes "\<not> list_ex is_Failure xs" "k < success_threshold c"
  shows "fold (spec_step c) xs (SHalf n k) =
     (if k + successes xs < success_threshold c then SHalf n (k + successes xs) else SClosed 0)"
  using assms
proof (induction xs arbitrary: k)
  case (Cons x xs)
  show ?case
  proof (cases x)
    case Success
    show ?thesis
    proof (cases "k + 1 < success_threshold c")
      case True
      then show ?thesis using Cons Success by (simp add: successes_def)
    next
      case False
      then show ?thesis using Cons.prems Success spec_closed_no_failure [of xs c] by (simp add: successes_def)
    qed
  qed (use Cons in \<open>auto simp: successes_def\<close>)
qed (simp add: successes_def)

section \<open>Guarded calls as runs of steps\<close>

text \<open>A guarded function whose own activity on the breaker is the steps \<open>xs\<close> of overlapping
  calls, and which ends with \<open>r\<close>.\<close>

definition body_of :: "breaker_op list \<Rightarrow> 'a result \<Rightarrow> ('s, 'a) guarded" where
  "body_of xs r = (\<lambda>b p. (r, run_ops xs (b, p)))"

fun exit_ops :: "breaker_config \<Rightarrow> pyfloat \<Rightarrow> 'a result \<Rightarrow> breaker_op list" where
  "exit_ops c now (Inr v) = [Success]"
| "exit_ops c now (Inl x) = (if expected c x then [Failure now] else [])"

lemma allow_closed_or_half:
  "breaker_state_of b \<noteq> OPEN \<Longrightarrow> allow now b p = (True, b, p)"
  by (simp add: allow_def breaker_state_of_def Let_def)

lemma allow_open_wait:
  "phase_of b = SOpen n t \<Longrightarrow> now - t < recovery_timeout (config b) \<Longrightarrow> allow now b p = (False, b, p)"
  by (auto simp: allow_def phase_of_def rec_phase_def Let_def split: breaker_state.splits)

lemma allow_admits:
  "fst (allow now b p) \<longleftrightarrow> (case phase_of b of SOpen n t \<Rightarrow> \<not> now - t < recovery_timeout (config b) | _ \<Rightarrow> True)"
  by (auto simp: allow_def phase_of_def rec_phase_def Let_def set_state_def split: breaker_state.splits)

lemma call_rejects:
  assumes "\<not> fst (allow now1 b p)"
  shows "call f now1 now2 b p =
    (Inl (CircuitBreakerOpenError (name b)), b,
     emit [CounterInc ''circuit_breaker_rejections_total'' (name_label (name b))] p)"
  using assms
  by (auto simp: call_def protect_def enter_def reject_def allow_def Let_def set_state_def split: if_splits)

lemma call_admits:
  assumes "fst (allow now1 b p)"
  shows "call (body_of xs r) now1 now2 b p = (r, run_ops (Allow now1 # xs @ exit_ops (config b) now2 r) (b, p))"
proof -
  obtain b1 p1 where a: "allow now1 b p = (True, b1, p1)" using assms by (cases "allow now1 b p") auto
  obtain b2 p2 where xs: "run_ops xs (b1, p1) = (b2, p2)" by force
  have "config b2 = config b"
    using run_ops_frame(2) [of xs "(b1, p1)"] run_op_frame(2) [of "Allow now1" "(b, p)"] a xs by simp
  then show ?thesis
    by (cases r) (auto simp: call_def protect_def enter_def a xs body_of_def exit_call_def split: prod.splits)
qed

section \<open>Properties\<close>

text \<open>
  C1. The breaker refines its contract. Whatever interleaving of \<open>allow\<close>, \<open>record_success\<close> and
  \<open>record_failure\<close> steps overlapping calls produce, the phase of the stored record is the one the
  abstract machine reaches, and \<open>allow\<close> admits a call exactly when the machine is not left open.
\<close>

theorem breaker_refines_spec:
  assumes "ops b = in_memory_ops"
  shows "phase_of (fst (run_ops xs (b, p))) = fold (spec_step (config b)) xs (phase_of b) \<and>
    (fst (allow now b p) \<longleftrightarrow> spec_state (spec_step (config b) (Allow now) (phase_of b)) \<noteq> OPEN)"
  using in_memory.steps_refine [of "(b, p)" xs] assms
  by (cases "phase_of b") (simp_all add: allow_admits)

definition demo_breaker :: breaker where
  "demo_breaker = \<lparr>name = ''auth'', config = default_config, ops = in_memory_ops, store = in_memory_new\<rparr>"

lemma demo_breaker_sel [simp]:
  "name demo_breaker = ''auth''" "config demo_breaker = default_config" "ops demo_breaker = in_memory_ops"
  "phase_of demo_breaker = SClosed 0"
  by (simp_all add: demo_breaker_def phase_of_def rec_phase_def load_rec_def in_memory_ops_def
      in_memory_load_def in_memory_new_def new_record_def)

lemma default_config_sel [simp]:
  "failure_threshold default_config = 5" "recovery_timeout default_config = Fin 30"
  "success_threshold default_config = 2" "expected default_config = is_Exception"
  by (simp_all add: default_config_def)

theorem breaker_refines_spec_witness:
  "phase_of (fst (run_ops (replicate 5 (Failure (Fin 7))) (demo_breaker, boot new_year))) = SOpen 5 (Fin 7)"
  using breaker_refines_spec [of demo_breaker "replicate 5 (Failure (Fin 7))" "boot new_year"]
  by (simp add: numeral_eq_Suc)

text \<open>
  C20. A closed breaker trips exactly on the failure that completes a run of \<open>failure_threshold\<close>
  failures with no success among them, whatever else is interleaved: it stays closed and counts
  the current run while every run is shorter, and the failure that reaches the threshold opens it
  at that instant.
\<close>

theorem breaker_trips_exactly:
  assumes "ops b = in_memory_ops" "phase_of b = SClosed 0" "0 < failure_threshold (config b)"
    and "\<forall>ys. prefix ys xs \<longrightarrow> failure_run 0 ys < failure_threshold (config b)"
  shows "phase_of (fst (run_ops xs (b, p))) = SClosed (failure_run 0 xs) \<and>
    (failure_run 0 xs + 1 = failure_threshold (config b) \<longrightarrow>
       phase_of (fst (run_ops (xs @ [Failure now]) (b, p))) = SOpen (failure_threshold (config b)) now)"
proof -
  have c: "fold (spec_step (config b)) xs (SClosed 0) = SClosed (failure_run 0 xs)"
    using spec_below_threshold assms(3,4) by blast
  show ?thesis
    using in_memory.steps_refine [of "(b, p)" xs] in_memory.steps_refine [of "(b, p)" "xs @ [Failure now]"]
      assms(1,2) c by simp
qed

theorem breaker_trips_exactly_witness:
  "phase_of (fst (run_ops ([Failure (Fin 1), Success, Failure (Fin 2), Failure (Fin 3), Failure (Fin 4),
      Allow (Fin 5), Failure (Fin 6)] @ [Failure (Fin 8)]) (demo_breaker, boot new_year))) = SOpen 5 (Fin 8)"
proof -
  let ?xs = "[Failure (Fin 1), Success, Failure (Fin 2), Failure (Fin 3), Failure (Fin 4),
      Allow (Fin 5), Failure (Fin 6)]"
  have "\<forall>ys. prefix ys ?xs \<longrightarrow> failure_run 0 ys < failure_threshold (config demo_breaker)"
    by (auto simp: prefix_Cons)
  then show ?thesis
    using breaker_trips_exactly [of demo_breaker ?xs "boot new_year" "Fin 8"] by simp
qed

text \<open>
  C21. An open breaker fails fast. After it opened at \<open>t\<close>, and whatever steps of overlapping calls
  happen up to a time \<open>T\<close> less than \<open>recovery_timeout\<close> later, every call at a time up to \<open>T\<close> is
  rejected: the guarded function does not run (the outcome is the same for every function), the
  breaker is left as it was and exactly the rejections counter is incremented.
\<close>

theorem open_breaker_fails_fast:
  assumes "ops b = in_memory_ops" "phase_of b = SOpen n (Fin t)"
    and "Fin T - Fin t < recovery_timeout (config b)" "t \<le> T" "u \<le> T"
    and "list_all (op_within t T) xs" "run_ops xs (b, p) = (b', p')"
  shows "breaker_state_of b' = OPEN \<and>
    call f (Fin u) now2 b' p' =
      (Inl (CircuitBreakerOpenError (name b)), b',
       emit [CounterInc ''circuit_breaker_rejections_total'' [(''name'', name b)]] p')"
proof -
  obtain m s where ph: "fold (spec_step (config b)) xs (SOpen n (Fin t)) = SOpen m (Fin s)" "t \<le> s"
    using spec_open_window [OF assms(3,6), of t n] assms(4) by auto
  have b': "config b' = config b" "name b' = name b"
    using run_ops_frame [of xs "(b, p)"] assms(7) by simp_all
  have phase: "phase_of b' = SOpen m (Fin s)"
    using in_memory.steps_refine [of "(b, p)" xs] assms(1,2,7) ph(1) by simp
  have "Fin u - Fin s < recovery_timeout (config b')"
    using elapsed_short [OF assms(3) ph(2) assms(5)] b' by simp
  then have "\<not> fst (allow (Fin u) b' p')" by (simp add: allow_admits phase)
  from call_rejects [OF this, of f now2] show ?thesis using b' spec_state_phase [of b'] phase by simp
qed

theorem open_breaker_fails_fast_witness:
  "(case run_ops [Success, Failure (Fin 12)]
      (fst (run_ops (replicate 5 (Failure (Fin 10))) (demo_breaker, boot new_year)), boot new_year) of (b, p) \<Rightarrow>
     fst (call (body_of [] (Inr (1 :: int))) (Fin 35) (Fin 36) b p) = Inl (CircuitBreakerOpenError ''auth''))"
proof -
  let ?b = "fst (run_ops (replicate 5 (Failure (Fin 10))) (demo_breaker, boot new_year))"
  have ph: "phase_of ?b = SOpen 5 (Fin 10)"
    using in_memory.steps_refine [of "(demo_breaker, boot new_year)" "replicate 5 (Failure (Fin 10))"]
    by (simp add: numeral_eq_Suc)
  obtain b p where r: "run_ops [Success, Failure (Fin 12)] (?b, boot new_year) = (b, p)" by force
  have c: "config ?b = default_config" "ops ?b = in_memory_ops" "name ?b = ''auth''" by simp_all
  have lt: "Fin 35 - Fin 10 < recovery_timeout (config ?b)" by (simp add: round64_exact)
  let ?f = "body_of [] (Inr (1 :: int))"
  have "call ?f (Fin 35) (Fin 36) b p = (Inl (CircuitBreakerOpenError (name ?b)), b,
      emit [CounterInc ''circuit_breaker_rejections_total'' [(''name'', name ?b)]] p)"
    using open_breaker_fails_fast [OF c(2) ph lt _ _ _ r, of 35 ?f "Fin 36"] by simp
  with r show ?thesis by (simp add: c)
qed

text \<open>
  C22. Recovery. Once \<open>recovery_timeout\<close> has passed, the next \<open>allow\<close> admits a probe and the
  breaker is half open; with no failure in between it closes, counters reset, exactly at the
  \<open>success_threshold\<close>-th success, and a failure before that reopens it with a fresh timer.
\<close>

theorem breaker_recovers:
  assumes "ops b = in_memory_ops" "phase_of b = SOpen n t" "\<not> now - t < recovery_timeout (config b)"
    and "0 < success_threshold (config b)" "\<not> list_ex is_Failure xs"
  shows "fst (allow now b p) \<and>
    phase_of (fst (run_ops (Allow now # xs) (b, p))) =
      (if successes xs < success_threshold (config b) then SHalf n (successes xs) else SClosed 0) \<and>
    (successes xs < success_threshold (config b) \<longrightarrow>
       phase_of (fst (run_ops (Allow now # xs @ [Failure u]) (b, p))) = SOpen n u)"
proof -
  have "fold (spec_step (config b)) (Allow now # xs) (SOpen n t) =
      (if successes xs < success_threshold (config b) then SHalf n (successes xs) else SClosed 0)"
    using spec_half_open_run [OF assms(5), of 0 "config b" n] assms(3,4) by simp
  then show ?thesis
    using in_memory.steps_refine [of "(b, p)" "Allow now # xs"] assms(1-3)
      in_memory.steps_refine [of "(b, p)" "(Allow now # xs) @ [Failure u]"]
    by (simp add: allow_admits del: fold_simps(2) run_ops_simps(2))
qed


theorem breaker_recovers_witness:
  "phase_of (fst (run_ops [Allow (Fin 40), Success, Allow (Fin 41), Success]
      (fst (run_ops (replicate 5 (Failure (Fin 10))) (demo_breaker, boot new_year)), boot new_year))) = SClosed 0"
proof -
  let ?b = "fst (run_ops (replicate 5 (Failure (Fin 10))) (demo_breaker, boot new_year))"
  have ph: "phase_of ?b = SOpen 5 (Fin 10)"
    using in_memory.steps_refine [of "(demo_breaker, boot new_year)" "replicate 5 (Failure (Fin 10))"]
    by (simp add: numeral_eq_Suc)
  have c: "config ?b = default_config" "ops ?b = in_memory_ops" by simp_all
  have le: "\<not> Fin 40 - Fin 10 < recovery_timeout (config ?b)" by (simp add: round64_exact)
  show ?thesis
    using breaker_recovers [OF c(2) ph le, of "[Success, Allow (Fin 41), Success]" "boot new_year"]
    unfolding c(1) by (simp add: successes_def del: run_ops_simps(2))
qed

text \<open>
  Every guarded call is a bracketed run of steps: an admitted call is \<open>allow\<close>, then the steps of
  whatever overlaps with it, then one \<open>record_success\<close> if the function returned, one
  \<open>record_failure\<close> if it raised an expected exception, and nothing if it raised another one (a
  cancelled probe leaves no trace); the function's value or exception is passed on unchanged.
\<close>

lemma call_is_bracketed:
  assumes "fst (allow now1 b p)"
  shows "call (body_of xs r) now1 now2 b p =
    (r, run_ops (Allow now1 # xs @
          (case r of Inr v \<Rightarrow> [Success] | Inl x \<Rightarrow> if expected (config b) x then [Failure now2] else [])) (b, p))"
  using call_admits [OF assms, of xs r now2] by (cases r) simp_all

text \<open>
  Invariant of every reachable breaker: it has an opening time exactly when it is not closed;
  a closed breaker's failure count is below the threshold; successes are counted only while half
  open and stay below \<open>success_threshold\<close>; counts are not negative; its name and configuration
  never change; and the last value set on its \<open>circuit_breaker_state\<close> gauge is the code of the
  current state.
\<close>

lemma breaker_invariant:
  assumes "breaker_reach n c b p"
  shows "name b = n \<and> config b = c \<and> record_ok c (load_rec b) \<and>
    last_gauge ''circuit_breaker_state'' [(''name'', n)] (calls p) = Some (STATE_VALUE (breaker_state_of b))"
  using reach_invariant [OF assms] by (auto simp: gauge_ok_def)

section \<open>Transitions in the failure log\<close>

definition opened_inc :: "string \<Rightarrow> metric_call" where
  "opened_inc n = CounterInc ''circuit_breaker_open_total'' [(''name'', n)]"

text \<open>A transition is a step that changes the state; its event is the name of the state entered. A
  failure that reaches the threshold while the breaker is open already makes no transition, but the
  code logs and counts it as an opening too: a late opening.\<close>

fun change_event :: "breaker_state \<Rightarrow> string" where
  "change_event CLOSED = ''closed''"
| "change_event OPEN = ''opened''"
| "change_event HALF_OPEN = ''half_open''"

definition entered :: "phase \<Rightarrow> phase \<Rightarrow> breaker_state list" where
  "entered s s' = (if spec_state s' = spec_state s then [] else [spec_state s'])"

fun late_opening :: "breaker_config \<Rightarrow> breaker_op \<Rightarrow> phase \<Rightarrow> bool" where
  "late_opening c (Failure now) (SOpen n t) = (failure_threshold c \<le> n + 1)"
| "late_opening c _ _ = False"

fun transitions :: "breaker_config \<Rightarrow> breaker_op list \<Rightarrow> phase \<Rightarrow> breaker_state list" where
  "transitions c [] s = []"
| "transitions c (x # xs) s = entered s (spec_step c x s) @ transitions c xs (spec_step c x s)"

fun late_openings :: "breaker_config \<Rightarrow> breaker_op list \<Rightarrow> phase \<Rightarrow> nat" where
  "late_openings c [] s = 0"
| "late_openings c (x # xs) s = (if late_opening c x s then 1 else 0) + late_openings c xs (spec_step c x s)"

definition step_events :: "breaker_config \<Rightarrow> breaker_op \<Rightarrow> phase \<Rightarrow> string list" where
  "step_events c x s =
     map change_event (entered s (spec_step c x s)) @ (if late_opening c x s then [''opened''] else [])"

fun run_events :: "breaker_config \<Rightarrow> breaker_op list \<Rightarrow> phase \<Rightarrow> string list" where
  "run_events c [] s = []"
| "run_events c (x # xs) s = step_events c x s @ run_events c xs (spec_step c x s)"

lemma run_events_prompt: "late_openings c xs s = 0 \<Longrightarrow> run_events c xs s = map change_event (transitions c xs s)"
  by (induction xs arbitrary: s) (auto simp: step_events_def split: if_splits)

lemma change_event_opened [simp]: "change_event q = ''opened'' \<longleftrightarrow> q = OPEN"
  by (cases q) simp_all

lemma run_events_opened:
  "length (filter (\<lambda>e. e = ''opened'') (run_events c xs s)) =
     length (filter (\<lambda>q. q = OPEN) (transitions c xs s)) + late_openings c xs s"
  by (induction xs arbitrary: s) (auto simp: step_events_def filter_map o_def)

lemma log_emit [simp]: "log_usable path (emit cs p) = log_usable path p" "log_view path (emit cs p) = log_view path p"
  by (simp_all add: log_usable_def log_view_def log_text_def)

lemma new_event_emit [simp]: "new_event s e d (emit cs p) = new_event s e d p"
  by (simp add: new_event_def utc_now_iso_def)

lemma step_logged:
  assumes "fstore p = Some path" "log_usable path p" "run_op x (b, p) = (b', p')"
  shows "fstore p' = Some path \<and> log_usable path p' \<and>
    map event (log_view path p') = map event (log_view path p) @ map JStr (step_events (config b) x (phase_of b)) \<and>
    count_calls (opened_inc (name b)) (calls p') =
      count_calls (opened_inc (name b)) (calls p) +
      length (filter (\<lambda>e. e = ''opened'') (step_events (config b) x (phase_of b)))"
  using assms
  by (cases x; cases "state (load_rec b)")
    (auto simp: breaker_op_defs phase_of_def rec_phase_def opened_inc_def Let_def new_event_def
      step_events_def entered_def record_event_view split: if_splits)

lemma run_logged:
  assumes "ops b = in_memory_ops" "fstore p = Some path" "log_usable path p" "run_ops xs (b, p) = (b', p')"
  shows "map event (log_view path p') = map event (log_view path p) @ map JStr (run_events (config b) xs (phase_of b)) \<and>
    count_calls (opened_inc (name b)) (calls p') =
      count_calls (opened_inc (name b)) (calls p) +
      length (filter (\<lambda>e. e = ''opened'') (run_events (config b) xs (phase_of b)))"
  using assms
proof (induction xs arbitrary: b p)
  case (Cons x xs)
  obtain b1 p1 where x: "run_op x (b, p) = (b1, p1)" by force
  have b1: "ops b1 = in_memory_ops" "config b1 = config b" "name b1 = name b"
    "phase_of b1 = spec_step (config b) x (phase_of b)"
    using run_op_frame [of x "(b, p)"] in_memory.step_refines [of b x p] x Cons.prems(1) by simp_all
  show ?case
    using step_logged [OF Cons.prems(2,3) x] Cons.IH [of b1 p1] b1 Cons.prems(4) x by simp
qed simp

text \<open>
  C23. Transitions are persisted: over any interleaving of steps the failure log grows, in the order of
  the steps, by one event for every transition (\<open>opened\<close>, \<open>half_open\<close> or \<open>closed\<close>, the state entered)
  and by one more \<open>opened\<close> for every late opening, a failure that reaches the threshold while the
  breaker is open; and \<open>circuit_breaker_open_total\<close> grows by the number of transitions to OPEN and
  of late openings. Without late openings the log holds exactly the transitions and the counter
  their number to OPEN.
\<close>

theorem transitions_persisted:
  assumes "ops b = in_memory_ops" "fstore p = Some path" "log_usable path p" "run_ops xs (b, p) = (b', p')"
  shows "map event (log_view path p') = map event (log_view path p) @ map JStr (run_events (config b) xs (phase_of b)) \<and>
    (late_openings (config b) xs (phase_of b) = 0 \<longrightarrow> map event (log_view path p') =
       map event (log_view path p) @ map (\<lambda>q. JStr (change_event q)) (transitions (config b) xs (phase_of b))) \<and>
    count_calls (CounterInc ''circuit_breaker_open_total'' [(''name'', name b)]) (calls p') =
      count_calls (CounterInc ''circuit_breaker_open_total'' [(''name'', name b)]) (calls p) +
      length (filter (\<lambda>q. q = OPEN) (transitions (config b) xs (phase_of b))) +
      late_openings (config b) xs (phase_of b)"
  using run_logged [OF assms] run_events_prompt [of "config b" xs "phase_of b"]
  by (simp add: opened_inc_def run_events_opened)

theorem transitions_persisted_witness:
  "map event (log_view ''f'' (snd (run_ops (replicate 5 (Failure (Fin 10)) @ [Allow (Fin 40), Success, Success])
      (demo_breaker, (boot new_year)\<lparr>fstore := Some ''f''\<rparr>)))) =
   [JStr ''opened'', JStr ''half_open'', JStr ''closed''] \<and>
   count_calls (CounterInc ''circuit_breaker_open_total'' [(''name'', name demo_breaker)])
     (calls (snd (run_ops (replicate 6 (Failure (Fin 10))) (demo_breaker, (boot new_year)\<lparr>fstore := Some ''f''\<rparr>)))) = 2"
proof -
  let ?p = "(boot new_year)\<lparr>fstore := Some ''f''\<rparr>"
  let ?xs = "replicate 5 (Failure (Fin 10)) @ [Allow (Fin 40), Success, Success]" and ?ys = "replicate 6 (Failure (Fin 10))"
  have u: "log_usable ''f'' ?p" "log_view ''f'' ?p = []" by (simp_all add: log_usable_def log_view_def log_text_def)
  obtain b1 p1 where r1: "run_ops ?xs (demo_breaker, ?p) = (b1, p1)" by force
  obtain b2 p2 where r2: "run_ops ?ys (demo_breaker, ?p) = (b2, p2)" by force
  have "transitions default_config ?xs (SClosed 0) = [OPEN, HALF_OPEN, CLOSED]"
    "late_openings default_config ?xs (SClosed 0) = 0"
    by (simp_all add: numeral_eq_Suc entered_def) (simp_all add: round64_exact flip: numeral_eq_Suc)
  then have "map event (log_view ''f'' p1) = [JStr ''opened'', JStr ''half_open'', JStr ''closed'']"
    using transitions_persisted [OF _ _ u(1) r1, THEN conjunct2, THEN conjunct1] u(2) by simp
  moreover have "length (filter (\<lambda>q. q = OPEN) (transitions default_config ?ys (SClosed 0))) +
      late_openings default_config ?ys (SClosed 0) = 2"
    by (simp add: numeral_eq_Suc entered_def)
  then have "count_calls (CounterInc ''circuit_breaker_open_total'' [(''name'', name demo_breaker)]) (calls p2) = 2"
    using transitions_persisted [OF _ _ u(1) r2] by simp
  ultimately show ?thesis using r1 r2 by simp
qed

text \<open>
  C39. A failure that arrives while the breaker is open (of a call that was in flight when it opened)
  with the count of failures at the threshold restarts the recovery timer and increments
  \<open>circuit_breaker_open_total\<close> once more, although the breaker stays open and makes no transition.
  Below the threshold, that is after a late success has reset the count, it only raises the count of
  failures: the timer, the counter and the rest of the platform stay as they are.
\<close>

theorem late_failure_restarts_timer:
  assumes "ops b = in_memory_ops" "phase_of b = SOpen n t" "record_failure now b p = (b', p')"
  shows "if failure_threshold (config b) \<le> n + 1
    then phase_of b' = SOpen (n + 1) now \<and>
      count_calls (CounterInc ''circuit_breaker_open_total'' [(''name'', name b)]) (calls p') =
        Suc (count_calls (CounterInc ''circuit_breaker_open_total'' [(''name'', name b)]) (calls p))
    else phase_of b' = SOpen (n + 1) t \<and> p' = p"
proof -
  have "phase_of b' = (if failure_threshold (config b) \<le> n + 1 then SOpen (n + 1) now else SOpen (n + 1) t)"
    using in_memory.step_refines [of b "Failure now" p] assms by simp
  moreover have "state (load_rec b) = OPEN" "failure_count (load_rec b) = n"
    using assms(2) by (auto simp: phase_of_def rec_phase_def split: breaker_state.splits)
  ultimately show ?thesis using assms(3) by (auto simp: record_failure_def Let_def set_state_def opened_event_def)
qed

theorem late_failure_restarts_timer_witness:
  "phase_of (fst (record_failure (Fin 25)
     (fst (run_ops (replicate 5 (Failure (Fin 10))) (demo_breaker, boot new_year))) (boot new_year))) = SOpen 6 (Fin 25) \<and>
   phase_of (fst (record_failure (Fin 25)
     (fst (run_ops (replicate 5 (Failure (Fin 10)) @ [Success]) (demo_breaker, boot new_year))) (boot new_year))) = SOpen 1 (Fin 10)"
proof -
  let ?b = "\<lambda>xs. fst (run_ops (replicate 5 (Failure (Fin 10)) @ xs) (demo_breaker, boot new_year))"
  have ph: "phase_of (?b []) = SOpen 5 (Fin 10)" "phase_of (?b [Success]) = SOpen 0 (Fin 10)"
    using in_memory.steps_refine [of "(demo_breaker, boot new_year)" "replicate 5 (Failure (Fin 10))"]
      in_memory.steps_refine [of "(demo_breaker, boot new_year)" "replicate 5 (Failure (Fin 10)) @ [Success]"]
    by (simp_all add: numeral_eq_Suc)
  have "phase_of (fst (record_failure (Fin 25) (?b []) (boot new_year))) = SOpen 6 (Fin 25)"
    using late_failure_restarts_timer [OF _ ph(1) prod.collapse [symmetric], of "Fin 25" "boot new_year"] by simp
  moreover have "phase_of (fst (record_failure (Fin 25) (?b [Success]) (boot new_year))) = SOpen 1 (Fin 10)"
    using late_failure_restarts_timer [OF _ ph(2) prod.collapse [symmetric], of "Fin 25" "boot new_year"] by simp
  ultimately show ?thesis by simp
qed

section \<open>Registry\<close>

text \<open>A breaker object is mutated in place: its new state is seen through the registry.\<close>

definition put_breaker :: "breaker \<Rightarrow> registry \<Rightarrow> registry" where
  "put_breaker b reg = dict_set reg (name b) b"

definition registry_ok :: "registry \<Rightarrow> bool" where
  "registry_ok reg \<longleftrightarrow> dict_ok reg \<and> (\<forall>(n, b) \<in> set reg. name b = n \<and> ops b = in_memory_ops)"

lemma registry_ok_lookup: "registry_ok reg \<Longrightarrow> map_of reg n = Some b \<Longrightarrow> name b = n \<and> ops b = in_memory_ops"
  by (auto simp: registry_ok_def dest!: map_of_SomeD)

lemma registry_ok_put [inv_intros]:
  assumes "registry_ok reg" "ops b = in_memory_ops"
  shows "registry_ok (put_breaker b reg)"
proof -
  have "name v = k \<and> ops v = in_memory_ops" if "(k, v) \<in> set (put_breaker b reg)" for k v
    using that dict_set_ball [of reg "\<lambda>k v. name v = k \<and> ops v = in_memory_ops" "name b" b k v] assms
    unfolding put_breaker_def registry_ok_def by fastforce
  then show ?thesis using assms dict_set_ok by (auto simp: registry_ok_def put_breaker_def)
qed

lemma get_or_create_ok [inv_intros]:
  "registry_ok reg \<Longrightarrow> get_or_create n c reg p = (b, reg', p') \<Longrightarrow>
   registry_ok reg' \<and> map_of reg' n = Some b \<and> name b = n \<and> ops b = in_memory_ops"
  using registry_ok_put [of reg b] registry_ok_lookup [of reg n b]
  by (auto simp: get_or_create_def put_breaker_def new_breaker_def Let_def split: option.splits)

text \<open>
  The registry keeps one breaker per name. The first \<open>get_or_create\<close> makes a closed breaker with
  the given configuration; every later one, under any configuration, answers that same object in its
  current state and touches nothing; breakers of other names are unaffected by creation and by
  each other's steps.
\<close>

lemma registry_one_breaker_per_name:
  assumes "registry_ok reg" "get_or_create n c reg p = (b, reg1, p1)" "run_op x (b, p1) = (b2, p2)"
  shows "registry_ok (put_breaker b2 reg1) \<and>
    get_or_create n c' (put_breaker b2 reg1) p3 = (b2, put_breaker b2 reg1, p3) \<and>
    (m \<noteq> n \<longrightarrow> map_of (put_breaker b2 reg1) m = map_of reg m) \<and>
    (map_of reg n = None \<longrightarrow> config b2 = c \<and> phase_of b = SClosed 0)"
proof -
  have ok: "registry_ok reg1" "name b = n" "ops b = in_memory_ops" using get_or_create_ok [OF assms(1,2)] by auto
  have b2: "name b2 = n" "ops b2 = in_memory_ops" "config b2 = config b"
    using run_op_frame [of x "(b, p1)"] assms(3) ok by simp_all
  have new: "map_of reg n = None \<Longrightarrow> config b = c \<and> phase_of b = SClosed 0"
    using assms(2) new_breaker_load [of n c p]
    by (auto simp: get_or_create_def phase_of_def rec_phase_def new_record_def new_breaker_def Let_def)
  have "m \<noteq> n \<Longrightarrow> map_of reg1 m = map_of reg m"
    using assms(2) by (auto simp: get_or_create_def split: option.splits prod.splits)
  then show ?thesis
    using b2 registry_ok_put [OF ok(1) b2(2)] new by (auto simp: get_or_create_def put_breaker_def)
qed


end
