(* ===== verification/RateLimiter.thy ===== *)
theory RateLimiter
  imports Http
begin

text \<open>
  \<open>shared/autosre_shared/resilience/rate_limiter.py\<close>: the token bucket store, the limiter over a
  \<open>BucketStore\<close>, the default limiter built from the environment, the client key and the excluded
  paths, and the \<open>/rate-limit/status\<close> endpoint; the middleware is in the theory \<open>Middleware\<close>.
  The store interface is the locale \<open>bucket_store\<close>, interpreted by \<open>InMemoryBucketStore\<close>. Token
  counts and clock readings are IEEE doubles; a reading of the clock is an argument.
\<close>

section \<open>Bucket store\<close>

record rate_limit_result =
  allowed :: bool
  remaining :: pyfloat
  retry_after :: pyfloat

text \<open>The interface \<open>BucketStore\<close>, and \<open>InMemoryBucketStore\<close>: per key the tokens left and the
  time of the last refill.\<close>

record 's bucket_ops =
  op_consume :: "string \<Rightarrow> pyfloat \<Rightarrow> pyfloat \<Rightarrow> 's \<Rightarrow> rate_limit_result result \<times> 's"
  op_active_keys :: "'s \<Rightarrow> int"
  op_sample :: "nat \<Rightarrow> 's \<Rightarrow> pyfloat dict"

record bucket_mem =
  bk_rps :: pyfloat
  bk_burst :: pyfloat
  buckets :: "(pyfloat \<times> pyfloat) dict"

definition bucket_mem_new :: "pyfloat \<Rightarrow> pyfloat \<Rightarrow> bucket_mem" where
  "bucket_mem_new r b = \<lparr>bk_rps = r, bk_burst = b, buckets = []\<rparr>"

definition consume ::
  "string \<Rightarrow> pyfloat \<Rightarrow> pyfloat \<Rightarrow> bucket_mem \<Rightarrow> rate_limit_result result \<times> bucket_mem" where
  "consume key tokens now s =
     (let (cur0, last) = dict_get (buckets s) key (bk_burst s, now);
          cur = pymin (bk_burst s) (cur0 + (now - last) * bk_rps s)
      in if tokens \<le> cur then
           let cur' = cur - tokens
           in (Inr \<lparr>allowed = True, remaining = cur', retry_after = 0\<rparr>,
               s\<lparr>buckets := dict_set (buckets s) key (cur', now)\<rparr>)
         else
           (case (if 0 < bk_rps s then pydiv (tokens - cur) (bk_rps s) else Inr PInf) of
              Inl x \<Rightarrow> (Inl x, s)
            | Inr retry \<Rightarrow>
                (Inr \<lparr>allowed = False, remaining = cur, retry_after = retry\<rparr>,
                 s\<lparr>buckets := dict_set (buckets s) key (cur, now)\<rparr>)))"

definition active_keys :: "bucket_mem \<Rightarrow> int" where
  "active_keys s = int (length (buckets s))"

definition sample :: "nat \<Rightarrow> bucket_mem \<Rightarrow> pyfloat dict" where
  "sample limit s = map (\<lambda>(k, v). (k, pyround (fst v) 2)) (take limit (buckets s))"

definition bucket_mem_ops :: "bucket_mem bucket_ops" where
  "bucket_mem_ops = \<lparr>op_consume = consume, op_active_keys = active_keys, op_sample = sample\<rparr>"

section \<open>Limiter\<close>

record 's rate_limiter =
  rps :: pyfloat
  burst :: pyfloat
  bops :: "'s bucket_ops"
  bstore :: 's

definition new_limiter :: "pyfloat \<Rightarrow> pyfloat \<Rightarrow> bucket_mem rate_limiter" where
  "new_limiter r b = \<lparr>rps = r, burst = b, bops = bucket_mem_ops, bstore = bucket_mem_new r b\<rparr>"

definition check ::
  "string \<Rightarrow> pyfloat \<Rightarrow> 's rate_limiter \<Rightarrow> platform \<Rightarrow>
   rate_limit_result result \<times> 's rate_limiter \<times> platform" where
  "check key now l p =
     (let p1 = emit [CounterInc ''rate_limit_requests_total'' []] p;
          (r, s') = op_consume (bops l) key 1 now (bstore l);
          l' = l\<lparr>bstore := s'\<rparr>
      in case r of
           Inl x \<Rightarrow> (Inl x, l', p1)
         | Inr res \<Rightarrow>
             (Inr res, l',
              if allowed res then p1 else emit [CounterInc ''rate_limit_rejections_total'' []] p1))"

definition limiter_snapshot :: "'s rate_limiter \<Rightarrow> json" where
  "limiter_snapshot l =
     JObj [(''config'', JObj [(''requests_per_second'', JFloat (rps l)), (''burst_capacity'', JFloat (burst l))]),
           (''active_clients'', JInt (op_active_keys (bops l) (bstore l))),
           (''sample'', JObj (map (\<lambda>(k, v). (k, JFloat v)) (op_sample (bops l) 20 (bstore l))))]"

section \<open>The default limiter\<close>

type_synonym limiter = "bucket_mem rate_limiter"

definition float_of_env :: "string \<Rightarrow> pyfloat result" where
  "float_of_env s =
     (case float_of_str s of
        Some f \<Rightarrow> Inr f
      | None \<Rightarrow> Inl (PyException ''ValueError'' (''could not convert string to float: '' @ str_repr s)))"

definition get_limiter :: "limiter option \<Rightarrow> platform \<Rightarrow> limiter result \<times> limiter option" where
  "get_limiter dflt p =
     (case dflt of
        Some l \<Rightarrow> (Inr l, dflt)
      | None \<Rightarrow>
          (case float_of_env (getenv ''RATE_LIMIT_RPS'' ''10'' p) of
             Inl x \<Rightarrow> (Inl x, None)
           | Inr r \<Rightarrow>
               (case float_of_env (getenv ''RATE_LIMIT_BURST'' ''20'' p) of
                  Inl x \<Rightarrow> (Inl x, None)
                | Inr b \<Rightarrow> (let l = new_limiter r b in (Inr l, Some l)))))"

definition set_limiter :: "limiter \<Rightarrow> limiter option \<Rightarrow> limiter option" where
  "set_limiter l dflt = Some l"

definition rate_limit_status :: "limiter option \<Rightarrow> platform \<Rightarrow> json result \<times> limiter option" where
  "rate_limit_status dflt p =
     (case get_limiter dflt p of
        (Inl x, d) \<Rightarrow> (Inl x, d)
      | (Inr l, d) \<Rightarrow> (Inr (limiter_snapshot l), d))"

section \<open>Clients and paths\<close>

definition header_get :: "request \<Rightarrow> string \<Rightarrow> string option" where
  "header_get req n = map_of (req_headers req) n"

definition client_key :: "request \<Rightarrow> string" where
  "client_key req =
     (let fallback = (case client_host req of Some h \<Rightarrow> h | None \<Rightarrow> ''unknown'')
      in case header_get req ''x-forwarded-for'' of
           None \<Rightarrow> fallback
         | Some xff \<Rightarrow> if xff = [] then fallback else strip (split_first CHR '','' xff))"

definition EXCLUDE_EXACT :: "string list" where
  "EXCLUDE_EXACT = [''/'', ''/health'', ''/ready'', ''/metrics'', ''/docs'', ''/redoc'', ''/openapi.json'']"

definition EXCLUDE_PREFIXES :: "string list" where
  "EXCLUDE_PREFIXES = [''/chaos'', ''/breaker'', ''/rate-limit'', ''/failures'']"

definition excluded :: "string \<Rightarrow> bool" where
  "excluded path \<longleftrightarrow> path \<in> set EXCLUDE_EXACT \<or> list_ex (\<lambda>p. startswith path p) EXCLUDE_PREFIXES"

section \<open>Refill and consumption\<close>

text \<open>The tokens a client has at \<open>now\<close>, after the refill.\<close>

definition available :: "string \<Rightarrow> pyfloat \<Rightarrow> bucket_mem \<Rightarrow> pyfloat" where
  "available key now s =
     (let (cur0, last) = dict_get (buckets s) key (bk_burst s, now)
      in pymin (bk_burst s) (cur0 + (now - last) * bk_rps s))"

lemma pydiv_pos: "Fin 0 < r \<Longrightarrow> \<exists>q. pydiv a r = Inr q"
  by (cases a; cases r) auto

lemma consume_available:
  "consume key (Fin 1) now s =
     (let a = available key now s
      in if Fin 1 \<le> a then
           (Inr \<lparr>allowed = True, remaining = a - Fin 1, retry_after = Fin 0\<rparr>,
            s\<lparr>buckets := dict_set (buckets s) key (a - Fin 1, now)\<rparr>)
         else
           (case (if Fin 0 < bk_rps s then pydiv (Fin 1 - a) (bk_rps s) else Inr PInf) of
              Inl x \<Rightarrow> (Inl x, s)
            | Inr retry \<Rightarrow>
                (Inr \<lparr>allowed = False, remaining = a, retry_after = retry\<rparr>,
                 s\<lparr>buckets := dict_set (buckets s) key (a, now)\<rparr>)))"
  by (cases "dict_get (buckets s) key (bk_burst s, now)") (simp only: consume_def available_def Let_def prod.case one_Fin zero_Fin)

lemma consume_cases:
  fixes key now s
  defines "a \<equiv> available key now s"
  obtains (allow) "Fin 1 \<le> a"
      "consume key (Fin 1) now s = (Inr \<lparr>allowed = True, remaining = a - Fin 1, retry_after = Fin 0\<rparr>,
         s\<lparr>buckets := dict_set (buckets s) key (a - Fin 1, now)\<rparr>)"
  | (deny) retry where "\<not> Fin 1 \<le> a" "Fin 0 < bk_rps s \<Longrightarrow> pydiv (Fin 1 - a) (bk_rps s) = Inr retry"
      "\<not> Fin 0 < bk_rps s \<Longrightarrow> retry = PInf"
      "consume key (Fin 1) now s = (Inr \<lparr>allowed = False, remaining = a, retry_after = retry\<rparr>,
         s\<lparr>buckets := dict_set (buckets s) key (a, now)\<rparr>)"
proof (cases "Fin 1 \<le> a")
  case True
  then show thesis by (intro allow) (simp_all only: consume_available a_def Let_def if_True)
next
  case False
  obtain retry where r: "(if Fin 0 < bk_rps s then pydiv (Fin 1 - a) (bk_rps s) else Inr PInf) = Inr retry"
    using pydiv_pos by (metis (full_types))
  have "Fin 0 < bk_rps s \<Longrightarrow> pydiv (Fin 1 - a) (bk_rps s) = Inr retry" "\<not> Fin 0 < bk_rps s \<Longrightarrow> retry = PInf"
    using r by (auto split: if_splits)
  moreover have "consume key (Fin 1) now s = (Inr \<lparr>allowed = False, remaining = a, retry_after = retry\<rparr>,
         s\<lparr>buckets := dict_set (buckets s) key (a, now)\<rparr>)"
    using False r unfolding consume_available a_def Let_def by (simp only: if_False sum.case)
  ultimately show thesis using False deny by blast
qed

lemma consume_local:
  assumes "bk_rps s = bk_rps s'" "bk_burst s = bk_burst s'"
    "map_of (buckets s) key = map_of (buckets s') key"
  shows "fst (consume key (Fin 1) now s) = fst (consume key (Fin 1) now s')"
    "map_of (buckets (snd (consume key (Fin 1) now s))) key = map_of (buckets (snd (consume key (Fin 1) now s'))) key"
proof -
  have a: "available key now s = available key now s'"
    using assms by (simp add: available_def dict_get_def)
  show "fst (consume key (Fin 1) now s) = fst (consume key (Fin 1) now s')"
    using a assms(1)
    by (cases key now s rule: consume_cases; cases key now s' rule: consume_cases)
      auto
  show "map_of (buckets (snd (consume key (Fin 1) now s))) key = map_of (buckets (snd (consume key (Fin 1) now s'))) key"
    using a
    by (cases key now s rule: consume_cases; cases key now s' rule: consume_cases)
      simp_all
qed

lemma consume_frame [simp, frame_simps]:
  "bk_rps (snd (consume key (Fin 1) now s)) = bk_rps s" "bk_burst (snd (consume key (Fin 1) now s)) = bk_burst s"
  "key' \<noteq> key \<Longrightarrow> map_of (buckets (snd (consume key (Fin 1) now s))) key' = map_of (buckets s) key'"
  by (cases key now s rule: consume_cases; simp)+

lemma consume_keys:
  "fst ` set (buckets (snd (consume key (Fin 1) now s))) = insert key (fst ` set (buckets s))"
proof -
  have "fst ` set (dict_set d key v) = insert key (fst ` set d)" for d :: "(pyfloat \<times> pyfloat) dict" and v
    using dict_set_keys [of key v d] by (metis image_set insert_absorb list.set(2) rotate1.simps(2) set_rotate1)
  then show ?thesis by (cases key now s rule: consume_cases) simp_all
qed

lemma consume_dict_ok [inv_intros]: "dict_ok (buckets s) \<Longrightarrow> dict_ok (buckets (snd (consume key (Fin 1) now s)))"
  by (cases key now s rule: consume_cases) (simp_all add: dict_set_ok)

section \<open>The store interface\<close>

text \<open>The answers a sequence of requests gets, each with its key.\<close>

fun serve ::
  "(string \<Rightarrow> pyfloat \<Rightarrow> 's \<Rightarrow> 'r \<times> 's) \<Rightarrow> (string \<times> pyfloat) list \<Rightarrow> 's \<Rightarrow> (string \<times> 'r) list" where
  "serve f [] s = []"
| "serve f ((k, now) # qs) s = (k, fst (f k now s)) # serve f qs (snd (f k now s))"

text \<open>
  What the limiter relies on of a \<open>BucketStore\<close>: \<open>take\<close> (\<open>consume\<close> of one token) always answers,
  keeps the store usable, and both reads and writes only the account of its own key.
\<close>

locale bucket_store =
  fixes usable :: "'s \<Rightarrow> bool" and account :: "'s \<Rightarrow> string \<Rightarrow> 'a"
    and take_one :: "string \<Rightarrow> pyfloat \<Rightarrow> 's \<Rightarrow> rate_limit_result result \<times> 's"
  assumes take_answers: "usable s \<Longrightarrow> \<exists>r. fst (take_one k now s) = Inr r"
    and take_usable: "usable s \<Longrightarrow> usable (snd (take_one k now s))"
    and take_isolated: "usable s \<Longrightarrow> k' \<noteq> k \<Longrightarrow> account (snd (take_one k now s)) k' = account s k'"
    and take_local: "usable s \<Longrightarrow> usable s' \<Longrightarrow> account s k = account s' k \<Longrightarrow>
      fst (take_one k now s) = fst (take_one k now s') \<and>
      account (snd (take_one k now s)) k = account (snd (take_one k now s')) k"
begin

lemma serve_noninterference:
  assumes "usable s" "usable s'" "account s k = account s' k"
  shows "filter (\<lambda>(k', r). k' = k) (serve take_one qs s) = serve take_one (filter (\<lambda>(k', now). k' = k) qs) s'"
  using assms
proof (induction qs arbitrary: s s')
  case (Cons q qs)
  obtain k' now where q: "q = (k', now)" by force
  show ?case
  proof (cases "k' = k")
    case True
    then show ?thesis using Cons q take_local [OF Cons.prems, of now] by (simp add: take_usable)
  next
    case False
    have "account (snd (take_one k' now s)) k = account s' k"
      using take_isolated [OF Cons.prems(1)] False Cons.prems(3) by metis
    from Cons.IH [OF take_usable [OF Cons.prems(1)] Cons.prems(2) this] show ?thesis using q False by simp
  qed
qed simp

end

interpretation mem_buckets: bucket_store "\<lambda>s. bk_rps s = r \<and> bk_burst s = b" "\<lambda>s. map_of (buckets s)"
    "\<lambda>k now s. consume k (Fin 1) now s" for r b
proof
  fix s k now
  show "\<exists>r. fst (consume k (Fin 1) now s) = Inr r"
    by (cases k now s rule: consume_cases) simp_all
next
  fix s s' :: bucket_mem and k now
  assume "bk_rps s = r \<and> bk_burst s = b" "bk_rps s' = r \<and> bk_burst s' = b" "map_of (buckets s) k = map_of (buckets s') k"
  then show "fst (consume k (Fin 1) now s) = fst (consume k (Fin 1) now s') \<and>
      map_of (buckets (snd (consume k (Fin 1) now s))) k = map_of (buckets (snd (consume k (Fin 1) now s'))) k"
    using consume_local by simp
qed simp_all

section \<open>Token counts stay within the burst\<close>

definition limits_ok :: "rat \<Rightarrow> rat \<Rightarrow> bucket_mem \<Rightarrow> bool" where
  "limits_ok r b s \<longleftrightarrow>
     bk_rps s = Fin r \<and> bk_burst s = Fin b \<and> 0 \<le> r \<and> 0 \<le> b \<and> rep64 b \<and> b < f64_lim"

definition bucket_ok :: "rat \<Rightarrow> rat \<Rightarrow> pyfloat \<times> pyfloat \<Rightarrow> bool" where
  "bucket_ok b t v \<longleftrightarrow>
     (\<exists>x u. v = (Fin x, Fin u) \<and> 0 \<le> x \<and> x \<le> b \<and> rep64 x \<and> u \<le> t)"

definition store_ok :: "rat \<Rightarrow> rat \<Rightarrow> rat \<Rightarrow> bucket_mem \<Rightarrow> bool" where
  "store_ok r b t s \<longleftrightarrow> limits_ok r b s \<and> dict_ok (buckets s) \<and>
     (\<forall>(k, v) \<in> set (buckets s). bucket_ok b t v)"

lemma refill_cases:
  assumes "0 \<le> r" "u \<le> t"
  obtains m where "(Fin t - Fin u) * Fin r = Fin m" "0 \<le> m" "rep64 m" | "(Fin t - Fin u) * Fin r = PInf"
  | "(Fin t - Fin u) * Fin r = NaN"
proof -
  have d: "Fin 0 \<le> round64 (t - u)" using round64_ge_Fin [of 0] assms(2) by simp
  show thesis
  proof (cases "t - u" rule: round64_cases)
    case 1
    then show thesis using that(2,3) assms(1) by (cases "r = 0") auto
  next
    case 2
    then show thesis using d by simp
  next
    case 3
    let ?d = "round_rat (t - u)"
    have "0 \<le> ?d" using d 3 by simp
    then have m: "0 \<le> ?d * r" using assms(1) by simp
    show thesis
    proof (cases "?d * r" rule: round64_cases)
      case 1 then show thesis using that(2) 3 by simp
    next
      case 2 then show thesis using round_rat_nonneg [OF m] by (simp add: f64_lim_def)
    next
      case inner: 3 then show thesis using that(1) 3 round_rat_nonneg [OF m] by simp
    qed
  qed
qed

lemma add_refill:
  assumes "Fin x \<le> m \<or> m = NaN" "rep64 x" "0 \<le> x" "x \<le> b" "rep64 b" "b < f64_lim"
    "m \<noteq> NaN \<Longrightarrow> m = PInf \<or> (\<exists>y. m = Fin y \<and> rep64 y)"
  obtains a where "pymin (Fin b) m = Fin a" "x \<le> a" "a \<le> b" "rep64 a"
  using assms by (cases m; cases "m < Fin b") (auto simp: pymin_def)

lemma available_range:
  assumes "store_ok r b t s" "t \<le> t'"
  obtains a where "available k (Fin t') s = Fin a" "0 \<le> a" "a \<le> b" "rep64 a"
    "\<And>x u. map_of (buckets s) k = Some (Fin x, Fin u) \<Longrightarrow> x \<le> a"
proof -
  have lim: "bk_rps s = Fin r" "bk_burst s = Fin b" "0 \<le> r" "0 \<le> b" "rep64 b" "b < f64_lim"
    using assms(1) by (auto simp: store_ok_def limits_ok_def)
  define v where "v = dict_get (buckets s) k (bk_burst s, Fin t')"
  have "bucket_ok b t' v"
  proof (cases "map_of (buckets s) k")
    case None
    then show ?thesis using lim by (simp add: v_def dict_get_def bucket_ok_def)
  next
    case (Some w)
    then have "bucket_ok b t w" using assms(1) by (auto simp: store_ok_def dest: map_of_SomeD)
    then show ?thesis using Some assms(2) by (auto simp: v_def dict_get_def bucket_ok_def)
  qed
  then obtain x u where v: "v = (Fin x, Fin u)" "0 \<le> x" "x \<le> b" "rep64 x" "u \<le> t'"
    by (auto simp: bucket_ok_def)
  define m where "m = Fin x + (Fin t' - Fin u) * Fin r"
  have m: "Fin x \<le> m \<or> m = NaN" "m \<noteq> NaN \<Longrightarrow> m = PInf \<or> (\<exists>y. m = Fin y \<and> rep64 y)"
  proof -
    have "(Fin x \<le> m \<or> m = NaN) \<and> (m \<noteq> NaN \<longrightarrow> m = PInf \<or> (\<exists>y. m = Fin y \<and> rep64 y))"
    proof (cases rule: refill_cases [OF lim(3) v(5)])
      case (1 y)
      then have "Fin x \<le> round64 (x + y)" using v(2-4) lim by (intro round64_ge_Fin) auto
      moreover from this have "round64 (x + y) = PInf \<or> round64 (x + y) = Fin (round_rat (x + y))"
        by (cases "x + y" rule: round64_cases) auto
      moreover have "m = round64 (x + y)" by (simp only: m_def 1(1) plus_pyfloat.simps)
      ultimately show ?thesis by auto
    next
      case 2
      then have "m = PInf" by (simp only: m_def plus_pyfloat.simps)
      then show ?thesis by simp
    next
      case 3
      then have "m = NaN" by (simp only: m_def plus_pyfloat.simps)
      then show ?thesis by simp
    qed
    then show "Fin x \<le> m \<or> m = NaN" "m \<noteq> NaN \<Longrightarrow> m = PInf \<or> (\<exists>y. m = Fin y \<and> rep64 y)" by blast+
  qed
  obtain a where a: "pymin (Fin b) m = Fin a" "x \<le> a" "a \<le> b" "rep64 a"
    using add_refill [OF m(1) v(4,2,3) lim(5,6) m(2)] by blast
  moreover have "dict_get (buckets s) k (Fin b, Fin t') = (Fin x, Fin u)"
    using v(1) lim by (simp add: v_def)
  then have "available k (Fin t') s = pymin (Fin b) m"
    by (simp add: available_def lim m_def)
  moreover have "y \<le> a" if "map_of (buckets s) k = Some (Fin y, Fin w)" for y w
    using that v(1) a(2) by (simp add: v_def dict_get_def)
  ultimately show thesis using that v(2) by simp
qed

lemma minus_one_range:
  assumes "rep64 a" "1 \<le> a" "a \<le> b" "b < f64_lim" "rep64 b"
  obtains y where "Fin a - Fin 1 = Fin y" "0 \<le> y" "y \<le> b" "rep64 y"
proof -
  have lo: "Fin 0 \<le> round64 (a - 1)" and hi: "round64 (a - 1) \<le> Fin b"
    using assms by (auto intro!: round64_ge_Fin round64_le_Fin)
  show thesis
  proof (cases "a - 1" rule: round64_cases)
    case 3
    then show thesis using that lo hi by simp
  qed (use lo hi in auto)
qed

lemma store_ok_set:
  assumes "store_ok r b t s" "t \<le> t'" "bucket_ok b t' v"
  shows "store_ok r b t' (s\<lparr>buckets := dict_set (buckets s) k v\<rparr>)"
proof -
  have "bucket_ok b t' w" if "(k', w) \<in> set (buckets s)" for k' w
    using assms(1,2) that by (fastforce simp: store_ok_def bucket_ok_def)
  then have "bucket_ok b t' w" if "(k', w) \<in> set (dict_set (buckets s) k v)" for k' w
    using dict_set_ball [of "buckets s" "\<lambda>_. bucket_ok b t'"] assms(3) that by blast
  then show ?thesis using assms(1) by (auto simp: store_ok_def limits_ok_def dict_set_ok)
qed

lemma consume_store_ok [inv_intros]:
  assumes "store_ok r b t s" "t \<le> t'"
  shows "store_ok r b t' (snd (consume k (Fin 1) (Fin t') s)) \<and>
    (\<exists>res y. fst (consume k (Fin 1) (Fin t') s) = Inr res \<and> remaining res = Fin y \<and> 0 \<le> y \<and> y \<le> b)"
proof -
  obtain a where a: "available k (Fin t') s = Fin a" "0 \<le> a" "a \<le> b" "rep64 a"
    using available_range [OF assms] by metis
  have lim: "rep64 b" "b < f64_lim" using assms(1) by (auto simp: store_ok_def limits_ok_def)
  show ?thesis
  proof (cases k "Fin t'" s rule: consume_cases)
    case allow
    then obtain y where "Fin a - Fin 1 = Fin y" "0 \<le> y" "y \<le> b" "rep64 y"
      using minus_one_range [of a b] a lim by auto
    then show ?thesis using allow a store_ok_set [OF assms, of "(Fin y, Fin t')"]
      by (simp add: bucket_ok_def)
  next
    case (deny retry)
    then show ?thesis using a store_ok_set [OF assms, of "(Fin a, Fin t')"] by (simp add: bucket_ok_def)
  qed
qed

section \<open>Runs of requests\<close>

abbreviation take_token :: "string \<Rightarrow> pyfloat \<Rightarrow> bucket_mem \<Rightarrow> rate_limit_result result \<times> bucket_mem" where
  "take_token k now s \<equiv> consume k (Fin 1) now s"

definition after_requests :: "(string \<times> pyfloat) list \<Rightarrow> bucket_mem \<Rightarrow> bucket_mem" where
  "after_requests qs s = fold (\<lambda>(k, now) s. snd (take_token k now s)) qs s"

definition is_allowed :: "rate_limit_result result \<Rightarrow> bool" where
  "is_allowed r \<longleftrightarrow> (case r of Inr x \<Rightarrow> allowed x | Inl _ \<Rightarrow> False)"

definition admitted :: "string \<Rightarrow> (string \<times> pyfloat) list \<Rightarrow> bucket_mem \<Rightarrow> nat" where
  "admitted k qs s = length (filter (\<lambda>(k', r). k' = k \<and> is_allowed r) (serve take_token qs s))"

text \<open>Requests at the times \<open>ts\<close>, one after the other.\<close>

definition stamped :: "(string \<times> rat) list \<Rightarrow> (string \<times> pyfloat) list" where
  "stamped qs = map (\<lambda>(k, t). (k, Fin t)) qs"

lemma stamped_simps [simp]: "stamped [] = []" "stamped ((k, t) # qs) = (k, Fin t) # stamped qs"
  "stamped (map (Pair k) ts) = map (\<lambda>t. (k, Fin t)) ts"
  by (simp_all add: stamped_def)

lemma after_requests_simps [simp]:
  "after_requests [] s = s"
  "after_requests ((k, now) # qs) s = after_requests qs (snd (take_token k now s))"
  by (simp_all add: after_requests_def)

lemma requests_store_ok:
  assumes "store_ok r b t s" "sorted (t # map snd qs)"
  shows "store_ok r b (last (t # map snd qs)) (after_requests (stamped qs) s) \<and>
    list_all (\<lambda>(k, res). \<exists>x y. res = Inr x \<and> remaining x = Fin y \<and> 0 \<le> y \<and> y \<le> b)
      (serve take_token (stamped qs) s)"
  using assms
proof (induction qs arbitrary: s t)
  case (Cons q qs)
  obtain k u where q: "q = (k, u)" by force
  have "store_ok r b u (snd (take_token k (Fin u) s))"
    "\<exists>x y. fst (take_token k (Fin u) s) = Inr x \<and> remaining x = Fin y \<and> 0 \<le> y \<and> y \<le> b"
    using consume_store_ok [OF Cons.prems(1), of u k] Cons.prems(2) q by auto
  with Cons.IH [of u] Cons.prems(2) q show ?case by auto
qed simp

lemma admitted_filter: "admitted k qs s = admitted k (filter (\<lambda>(k', t). k' = k) qs) s"
proof -
  let ?f = "\<lambda>(k', r :: rate_limit_result result). k' = k"
  have 1: "filter ?f (serve take_token qs s) = serve take_token (filter (\<lambda>(k', t). k' = k) qs) s"
    using mem_buckets.serve_noninterference [of s "bk_rps s" "bk_burst s" s k qs] by simp
  have 2: "filter (\<lambda>(k', r). k' = k \<and> is_allowed r) xs = filter (\<lambda>(k', r). k' = k \<and> is_allowed r) (filter ?f xs)" for xs
    by (induction xs) auto
  show ?thesis unfolding admitted_def by (subst 2) (simp only: 1)
qed

lemma admitted_own:
  "admitted k (stamped qs) s = admitted k (stamped (filter (\<lambda>(k', t). k' = k) qs)) s"
proof -
  have "filter (\<lambda>(k', t). k' = k) (stamped qs) = stamped (filter (\<lambda>(k', t). k' = k) qs)"
    by (induction qs) auto
  then show ?thesis using admitted_filter [of k "stamped qs" s] by simp
qed

lemma own_requests: "map (Pair k) (map snd (filter (\<lambda>(k', t). k' = k) qs)) = filter (\<lambda>(k', t). k' = k) qs"
  by (induction qs) auto

lemma admitted_Cons:
  "admitted k ((k, now) # qs) s =
     (if is_allowed (fst (take_token k now s)) then 1 else 0) + admitted k qs (snd (take_token k now s))"
  by (simp add: admitted_def)

lemma admitted_Nil [simp]: "admitted k [] s = 0"
  by (simp add: admitted_def)

section \<open>Exact arithmetic on a clock grid\<close>

lemma available_grid:
  assumes lim: "bk_rps s = Fin (of_int r)" "bk_burst s = Fin b" "0 \<le> r" "q \<le> 1074"
    and b: "on_grid q (2 * b)" "on_grid q b"
    and acc: "map_of (buckets s) k = Some (Fin x, Fin u)" "on_grid q x" "x \<le> b" "on_grid q u"
    and t: "on_grid q t" "u \<le> t"
  shows "available k (Fin t) s = Fin (min b (x + (t - u) * of_int r))"
    and "on_grid q (min b (x + (t - u) * of_int r))"
proof -
  let ?d = "t - u" and ?m = "(t - u) * of_int r"
  have int: "?d * 2 ^ q \<in> \<int>" "?m * 2 ^ q \<in> \<int>" "(x + ?m) * 2 ^ q \<in> \<int>"
  proof -
    show d: "?d * 2 ^ q \<in> \<int>" using t(1) acc(4) by (simp add: on_grid_def left_diff_distrib)
    have "?m * 2 ^ q = ?d * 2 ^ q * of_int r" by simp
    also have "\<dots> \<in> \<int>" by (rule Ints_mult [OF d]) simp
    finally show "?m * 2 ^ q \<in> \<int>" .
    then show "(x + ?m) * 2 ^ q \<in> \<int>" using acc(2) by (simp add: on_grid_def distrib_right)
  qed
  have nn: "0 \<le> x" "0 \<le> ?m" "0 \<le> b" using acc(2) b(2) lim(3) t(2) by (auto simp: on_grid_def)
  have d: "round64 ?d = Fin ?d"
    using on_grid_intro [OF int(1) _ _ t(1)] acc(4) t(2) lim(4) by (intro on_grid_exact) (auto simp: on_grid_def)
  have avail: "available k (Fin t) s = pymin (Fin b) (Fin x + round64 ?m)"
    using acc(1) d by (simp add: available_def lim dict_get_def)
  show "available k (Fin t) s = Fin (min b (x + ?m))"
  proof (cases "x + ?m \<le> 2 * b")
    case True
    then have g: "on_grid q (x + ?m)" using on_grid_intro [OF int(3) _ _ b(1)] nn by simp
    then have "on_grid q ?m" using on_grid_intro [OF int(2) _ _ g] nn by simp
    then show ?thesis using on_grid_exact g lim(4) by (simp add: avail pymin_def min_def)
  next
    case False
    then have "b \<le> ?m" using acc(3) by linarith
    have rb: "rep64 b" "\<bar>b\<bar> < f64_lim"
      using on_grid_exact [OF b(2) lim(4)] is_f64_round64 [of b] by (simp_all add: is_f64_def)
    then have ge: "Fin b \<le> round64 ?m" using \<open>b \<le> ?m\<close> by (intro round64_ge_Fin) auto
    have "Fin b \<le> Fin x + round64 ?m"
    proof (cases "?m" rule: round64_cases)
      case 3
      then have "b \<le> x + round_rat ?m" using ge nn(1) by simp
      then show ?thesis using 3 rb by (simp add: round64_ge_Fin)
    qed (use ge in auto)
    then have "\<not> Fin x + round64 ?m < Fin b"
      by (cases "Fin x + round64 ?m") auto
    then show ?thesis using \<open>b \<le> ?m\<close> nn(1) by (simp add: avail pymin_def)
  qed
  show "on_grid q (min b (x + ?m))"
    using on_grid_intro [OF int(3) _ _ b(2)] b(2) nn by (auto simp: min_def)
qed


lemma take_token_grid:
  assumes "available k (Fin t) s = Fin a" "on_grid q a" "q \<le> 1074" "a \<le> b"
  obtains (allow) "1 \<le> a" "is_allowed (fst (take_token k (Fin t) s))"
      "map_of (buckets (snd (take_token k (Fin t) s))) k = Some (Fin (a - 1), Fin t)" "on_grid q (a - 1)"
  | (deny) "\<not> is_allowed (fst (take_token k (Fin t) s))"
      "map_of (buckets (snd (take_token k (Fin t) s))) k = Some (Fin a, Fin t)"
proof (cases k "Fin t" s rule: consume_cases)
  case c: allow
  then have "1 \<le> a" using assms(1) by simp
  moreover have "(a - 1) * 2 ^ q \<in> \<int>" using assms(2) by (simp add: on_grid_def left_diff_distrib Ints_diff)
  ultimately have g: "on_grid q (a - 1)" using on_grid_intro [OF _ _ _ assms(2)] by simp
  then have "Fin a - Fin 1 = Fin (a - 1)" using on_grid_exact [OF _ assms(3)] by simp
  then show thesis using allow \<open>1 \<le> a\<close> g c(2) assms(1) by (simp add: is_allowed_def)
next
  case c: (deny retry)
  then show thesis using deny assms(1) by (simp add: is_allowed_def)
qed

lemma admitted_bound_known:
  assumes "bk_rps s = Fin (of_int r)" "bk_burst s = Fin b" "0 \<le> r" "q \<le> 1074" "on_grid q (2 * b)" "on_grid q b"
    and "map_of (buckets s) k = Some (Fin x, Fin u)" "on_grid q x" "x \<le> b" "on_grid q u"
    and "list_all (on_grid q) ts" "sorted (u # ts)" "\<forall>t \<in> set ts. t \<le> T" "u \<le> T"
  shows "of_nat (admitted k (map (\<lambda>t. (k, Fin t)) ts) s) \<le> x + of_int r * (T - u)"
  using assms(1,2,7-)
proof (induction ts arbitrary: s x u)
  case Nil
  then show ?case using assms(3) by (simp add: on_grid_def)
next
  case (Cons t ts)
  let ?s = "snd (take_token k (Fin t) s)" and ?a = "min b (x + (t - u) * of_int r)"
  have g: "on_grid q t" "u \<le> t" "t \<le> T" "sorted (t # ts)" "\<forall>t \<in> set ts. t \<le> T" "list_all (on_grid q) ts"
    using Cons.prems by auto
  have av: "available k (Fin t) s = Fin ?a" and ag: "on_grid q ?a"
    using available_grid [OF Cons.prems(1,2) assms(3-6) Cons.prems(3-6) g(1,2)] by auto
  have fr: "bk_rps ?s = Fin (of_int r)" "bk_burst ?s = Fin b" using Cons.prems(1,2) by simp_all
  have le: "?a + of_int r * (T - t) \<le> x + of_int r * (T - u)" by (simp add: algebra_simps min_le_iff_disj)
  show ?case
  proof (cases rule: take_token_grid [OF av ag assms(4), of b, simplified])
    case 1
    then have "of_nat (admitted k (map (\<lambda>t. (k, Fin t)) ts) ?s) \<le> (?a - 1) + of_int r * (T - t)"
      using Cons.IH [OF fr 1(3) 1(4) _ g(1,6,4,5,3)] by (auto simp: min_le_iff_disj)
    then show ?thesis using 1(2) le by (simp add: admitted_Cons)
  next
    case 2
    then have "of_nat (admitted k (map (\<lambda>t. (k, Fin t)) ts) ?s) \<le> ?a + of_int r * (T - t)"
      using Cons.IH [OF fr 2(2) ag _ g(1,6,4,5,3)] by simp
    then show ?thesis using 2(1) le by (simp add: admitted_Cons)
  qed
qed

text \<open>The account of a client on the grid: fresh, or within the burst and refilled before \<open>t\<close>.\<close>

definition grid_account :: "nat \<Rightarrow> rat \<Rightarrow> rat \<Rightarrow> (pyfloat \<times> pyfloat) option \<Rightarrow> bool" where
  "grid_account q b t v \<longleftrightarrow>
     (case v of None \<Rightarrow> True
      | Some (c, l) \<Rightarrow> (\<exists>x u. c = Fin x \<and> l = Fin u \<and> on_grid q x \<and> x \<le> b \<and> on_grid q u \<and> u \<le> t))"

lemma available_fresh:
  assumes "map_of (buckets s) k = None" "bk_rps s = Fin r" "bk_burst s = Fin b" "rep64 b" "\<bar>b\<bar> < f64_lim"
  shows "available k (Fin t) s = Fin b"
  using assms by (simp add: available_def dict_get_def round64_exact pymin_def)

lemma admitted_bound:
  assumes "bk_rps s = Fin (of_int r)" "bk_burst s = Fin b" "0 \<le> r" "q \<le> 1074" "on_grid q (2 * b)" "on_grid q b"
    and "grid_account q b t (map_of (buckets s) k)"
    and "list_all (on_grid q) (t # ts)" "sorted (t # ts)" "\<forall>u \<in> set (t # ts). u \<le> T"
  shows "of_nat (admitted k (map (\<lambda>t. (k, Fin t)) (t # ts)) s) \<le> b + of_int r * (T - t)"
proof -
  let ?s = "snd (take_token k (Fin t) s)"
  have rb: "rep64 b" "\<bar>b\<bar> < f64_lim"
    using on_grid_exact [OF assms(6,4)] is_f64_round64 [of b] by (simp_all add: is_f64_def)
  obtain a where a: "available k (Fin t) s = Fin a" "on_grid q a" "a \<le> b"
  proof (cases "map_of (buckets s) k")
    case None
    then show thesis using that available_fresh [OF None assms(1,2) rb] assms(6) by simp
  next
    case (Some v)
    then obtain x u where v: "map_of (buckets s) k = Some (Fin x, Fin u)" "on_grid q x" "x \<le> b" "on_grid q u" "u \<le> t"
      using assms(7) by (cases v) (auto simp: grid_account_def)
    show thesis
      using that [OF available_grid [OF assms(1-6) v(1-4) _ v(5)]] assms(8) by simp
  qed
  have fr: "bk_rps ?s = Fin (of_int r)" "bk_burst ?s = Fin b" using assms(1,2) by simp_all
  have g: "on_grid q t" "list_all (on_grid q) ts" "sorted (t # ts)" "\<forall>u \<in> set ts. u \<le> T" "t \<le> T"
    using assms(8-10) by auto
  show ?thesis
  proof (cases rule: take_token_grid [OF a(1,2) assms(4) a(3)])
    case 1
    have "of_nat (admitted k (map (\<lambda>t. (k, Fin t)) ts) ?s) \<le> (a - 1) + of_int r * (T - t)"
      by (rule admitted_bound_known [OF fr assms(3-6) 1(3,4) _ g]) (use a(3) in simp)
    then show ?thesis using 1(2) a(3) by (simp add: admitted_Cons)
  next
    case 2
    have "of_nat (admitted k (map (\<lambda>t. (k, Fin t)) ts) ?s) \<le> a + of_int r * (T - t)"
      by (rule admitted_bound_known [OF fr assms(3-6) 2(2) a(2,3) g])
    then show ?thesis using 2(1) a(3) by (simp add: admitted_Cons)
  qed
qed

section \<open>Instants, pauses and fresh clients\<close>

lemma available_same_instant:
  assumes "map_of (buckets s) k = Some (Fin x, Fin t)" "bk_rps s = Fin r" "bk_burst s = Fin b"
    and "rep64 x" "0 \<le> x" "x \<le> b" "b < f64_lim"
  shows "available k (Fin t) s = Fin x"
  using assms by (simp add: available_def dict_get_def round64_exact pymin_def)

lemma nat_floor_minus_1: "1 \<le> x \<Longrightarrow> nat \<lfloor>x :: rat\<rfloor> = Suc (nat \<lfloor>x - 1\<rfloor>)"
proof -
  assume "1 \<le> x"
  then have "1 \<le> \<lfloor>x\<rfloor>" by (simp add: le_floor_iff)
  then show ?thesis by (simp add: floor_diff_one nat_diff_distrib)
qed

lemma take_token_exact:
  assumes "available k now s = Fin x" "rep64 x" "0 \<le> x" "x \<le> 2 ^ 53"
  shows "is_allowed (fst (take_token k now s)) \<longleftrightarrow> 1 \<le> x"
    "map_of (buckets (snd (take_token k now s))) k = Some (Fin (if 1 \<le> x then x - 1 else x), now)"
proof -
  have ex: "Fin x - Fin 1 = Fin (x - 1)" if "1 \<le> x"
    using rep64_minus_1 [OF assms(2) that assms(4)] f64_lim_gt [of "x - 1"] assms(4) that
    by (simp add: round64_exact)
  show "is_allowed (fst (take_token k now s)) \<longleftrightarrow> 1 \<le> x"
    "map_of (buckets (snd (take_token k now s))) k = Some (Fin (if 1 \<le> x then x - 1 else x), now)"
    by (cases k now s rule: consume_cases; use assms(1) ex in \<open>auto simp: is_allowed_def\<close>)+
qed

lemma admitted_instant_known:
  assumes "map_of (buckets s) k = Some (Fin x, Fin t)" "bk_rps s = Fin r" "bk_burst s = Fin b"
    and "rep64 x" "0 \<le> x" "x \<le> b" "b \<le> 2 ^ 53"
  shows "admitted k (replicate n (k, Fin t)) s = min n (nat \<lfloor>x\<rfloor>)"
  using assms(1-6)
proof (induction n arbitrary: s x)
  case (Suc n)
  let ?s = "snd (take_token k (Fin t) s)" and ?y = "if 1 \<le> x then x - 1 else x"
  have av: "available k (Fin t) s = Fin x"
    using available_same_instant [OF Suc.prems] assms(7) f64_lim_gt [of b] by simp
  note tk = take_token_exact [OF av Suc.prems(4,5)]
  have "rep64 ?y" using Suc.prems(4,6) rep64_minus_1 [of x] assms(7) by simp
  then have "admitted k (replicate n (k, Fin t)) ?s = min n (nat \<lfloor>?y\<rfloor>)"
    using Suc.IH [of ?s ?y] tk(2) Suc.prems assms(7) by auto
  then show ?case
    using tk(1) Suc.prems(5,6) assms(7) nat_floor_minus_1 [of x]
    by (auto simp: admitted_Cons floor_eq_iff)
qed simp

lemma pause_refills:
  assumes "1 \<le> r" "t + 1 \<le> u" shows "Fin 1 \<le> (Fin u - Fin t) * Fin r"
proof -
  have d: "Fin 1 \<le> round64 (u - t)" using assms(2) by (intro round64_ge_Fin) auto
  show ?thesis
  proof (cases "u - t" rule: round64_cases)
    case 3
    then have "1 \<le> round_rat (u - t) * r" using d assms(1) mult_mono [of 1 "round_rat (u - t)" 1 r] by simp
    then show ?thesis using 3 round64_ge_Fin [of 1] by simp
  qed (use d assms(1) in auto)
qed

lemma enough_refill:
  assumes "map_of (buckets s) k = Some (Fin x, Fin t)" "bk_rps s = Fin r" "bk_burst s = Fin b" "0 \<le> x" "1 \<le> b"
    and "Fin 1 \<le> (Fin u - Fin t) * Fin r"
  shows "Fin 1 \<le> available k (Fin u) s"
proof -
  let ?m = "(Fin u - Fin t) * Fin r"
  have "Fin 1 \<le> Fin x + ?m"
  proof (cases ?m)
    case (Fin m)
    then have "1 \<le> x + m" using assms(4,6) by simp
    then show ?thesis using round64_ge_Fin [of 1 "x + m"] Fin by simp
  qed (use assms(6) in auto)
  moreover have "available k (Fin u) s = pymin (Fin b) (Fin x + ?m)"
    using assms(1-3) by (simp add: available_def dict_get_def)
  ultimately show ?thesis using assms(5) by (simp only: pymin_def less_eq_Fin split: if_split) simp
qed

lemma after_others:
  "k \<notin> fst ` set qs \<Longrightarrow> map_of (buckets (after_requests qs s)) k = map_of (buckets s) k"
  "bk_rps (after_requests qs s) = bk_rps s" "bk_burst (after_requests qs s) = bk_burst s"
  by (induction qs arbitrary: s) auto

lemma after_keys:
  "fst ` set (buckets (after_requests qs s)) = fst ` set qs \<union> fst ` set (buckets s)"
proof (induction qs arbitrary: s)
  case (Cons q qs)
  then show ?case by (cases q) (simp add: consume_keys)
qed simp

lemma after_dict_ok: "dict_ok (buckets s) \<Longrightarrow> dict_ok (buckets (after_requests qs s))"
  by (induction qs arbitrary: s) (auto simp: consume_dict_ok)

lemma new_store_ok:
  "0 \<le> r \<Longrightarrow> 0 \<le> b \<Longrightarrow> rep64 b \<Longrightarrow> b < f64_lim \<Longrightarrow> store_ok r b t (bucket_mem_new (Fin r) (Fin b))"
  by (simp add: store_ok_def limits_ok_def bucket_mem_new_def dict_ok_def)

lemma admitted_burst:
  assumes "map_of (buckets s) k = None" "bk_rps s = Fin r" "bk_burst s = Fin b" "0 \<le> b" "b \<le> 2 ^ 53" "rep64 b"
  shows "admitted k (replicate n (k, Fin t)) s = min n (nat \<lfloor>b\<rfloor>)"
proof (cases n)
  case (Suc m)
  let ?s = "snd (take_token k (Fin t) s)" and ?y = "if 1 \<le> b then b - 1 else b"
  have av: "available k (Fin t) s = Fin b"
    using available_fresh [OF assms(1-3,6)] assms(4,5) f64_lim_gt [of b] by simp
  note tk = take_token_exact [OF av assms(6,4,5)]
  have "admitted k (replicate m (k, Fin t)) ?s = min m (nat \<lfloor>?y\<rfloor>)"
    by (rule admitted_instant_known [of _ _ _ _ r b]) (use tk(2) assms rep64_minus_1 [of b] in auto)
  then show ?thesis using Suc tk(1) assms(4) nat_floor_minus_1 [of b] by (auto simp: admitted_Cons floor_eq_iff)
qed simp

section \<open>Properties\<close>

text \<open>
  Under a clock that does not run backwards, every request of every client is answered, and the
  token count of every bucket and the \<open>remaining\<close> of every answer stay between zero and the burst,
  rounding included.
\<close>

lemma tokens_within_burst:
  assumes "0 \<le> r" "0 \<le> b" "rep64 b" "b < f64_lim" "sorted (map snd qs)"
  defines "s \<equiv> bucket_mem_new (Fin r) (Fin b)"
  shows "(\<forall>(k, v) \<in> set (buckets (after_requests (stamped qs) s)). \<exists>x u. v = (Fin x, Fin u) \<and> 0 \<le> x \<and> x \<le> b) \<and>
    list_all (\<lambda>(k, res). \<exists>x y. res = Inr x \<and> remaining x = Fin y \<and> 0 \<le> y \<and> y \<le> b)
      (serve take_token (stamped qs) s)"
proof (cases qs)
  case Nil
  then show ?thesis by (simp add: s_def bucket_mem_new_def)
next
  case (Cons q qs')
  let ?t = "snd q"
  have "sorted (?t # map snd qs)" using assms(5) Cons by simp
  from requests_store_ok [OF new_store_ok [OF assms(1-4)] this] show ?thesis
    unfolding s_def store_ok_def bucket_ok_def by fastforce
qed

text \<open>
  Clients do not interfere: whatever the mix of requests, the answers one client gets are those
  it would get if it were alone, from the same account.
\<close>

lemma clients_do_not_interfere:
  "filter (\<lambda>(k', res). k' = k) (serve take_token qs s) =
   serve take_token (filter (\<lambda>(k', now). k' = k) qs) s"
  using mem_buckets.serve_noninterference [of s "bk_rps s" "bk_burst s" s k qs] by simp

text \<open>
  C15. The admission bound of a token bucket: in any window that starts with a request of the client
  at \<open>t\<close> and ends by \<open>T\<close>, whatever other clients do, at most \<open>burst + rps * (T - t)\<close> of its requests
  are admitted. Exact where the clock is a multiple of \<open>2^-q\<close> seconds below \<open>2^(53-q)\<close>, the rate is an
  integer and the burst lies on that grid, so that no operation rounds.
\<close>

theorem admission_bound:
  assumes "bk_rps s = Fin (of_int r)" "bk_burst s = Fin b" "0 \<le> r" "q \<le> 1074" "on_grid q (2 * b)" "on_grid q b"
    and "grid_account q b t (map_of (buckets s) k)"
    and "list_all (on_grid q) (map snd qs)" "sorted (map snd qs)" "\<forall>u \<in> set (map snd qs). t \<le> u \<and> u \<le> T"
    and "on_grid q t" "t \<le> T"
  shows "of_nat (admitted k (stamped ((k, t) # qs)) s) \<le> b + of_int r * (T - t)"
proof -
  let ?own = "filter (\<lambda>(k', t). k' = k) qs"
  let ?ts = "map snd ?own"
  have sub: "set ?ts \<subseteq> set (map snd qs)" by auto
  have "admitted k (stamped ((k, t) # qs)) s = admitted k (stamped ((k, t) # ?own)) s"
    using admitted_own [of k "(k, t) # qs" s] by simp
  also have "stamped ((k, t) # ?own) = map (\<lambda>t. (k, Fin t)) (t # ?ts)"
    using stamped_simps(3) [of k ?ts] own_requests [of k qs] by simp
  finally show ?thesis
    using admitted_bound [OF assms(1-7), of ?ts T] assms(8-12) sub
    by (simp add: list_all_iff sorted_filter subset_iff del: set_map)
qed

theorem admission_bound_witness:
  "of_nat (admitted ''a'' (stamped [(''a'', 100), (''b'', 100), (''a'', 101), (''a'', 103)])
      (bucket_mem_new (Fin 10) (Fin 20))) \<le> (50 :: rat)"
  using admission_bound [of "bucket_mem_new (Fin 10) (Fin 20)" 10 20 0 100 "''a''"
      "[(''b'', 100), (''a'', 101), (''a'', 103)]" 103]
  by (simp add: on_grid_0 bucket_mem_new_def grid_account_def)

text \<open>
  The burst is exact: of any number of simultaneous requests of a new client exactly
  \<open>min n (floor burst)\<close> are admitted, for every burst up to \<open>2^53\<close> and every finite rate.
\<close>

lemma burst_exact:
  assumes "map_of (buckets s) k = None" "bk_rps s = Fin r" "bk_burst s = Fin b" "0 \<le> b" "b \<le> 2 ^ 53" "rep64 b"
  shows "admitted k (replicate n (k, Fin t)) s = min n (nat \<lfloor>b\<rfloor>)"
  using assms by (rule admitted_burst)

text \<open>
  C31. \<open>Retry-After\<close> is honoured. With a rate of at least one request per second (and a burst of at
  least one), a rejected client is told to wait at most one second, and its first request a second
  or more later is admitted, whatever other clients do meanwhile, rounding included.
\<close>

theorem retry_after_honoured:
  assumes "store_ok r b t s" "1 \<le> r" "1 \<le> b" "t \<le> now"
    and "take_token k (Fin now) s = (Inr res, s1)" "\<not> allowed res"
    and "k \<notin> fst ` set qs" "now + 1 \<le> u"
  shows "(\<exists>c. pyceil (retry_after res) = Inr c \<and> c \<le> 1) \<and>
    is_allowed (fst (take_token k (Fin u) (after_requests qs s1)))"
proof -
  have lim: "bk_rps s = Fin r" "bk_burst s = Fin b" using assms(1) by (auto simp: store_ok_def limits_ok_def)
  obtain a where a: "available k (Fin now) s = Fin a" "0 \<le> a" using available_range [OF assms(1,4)] by metis
  from assms(5,6) have deny: "\<not> 1 \<le> a" "pydiv (Fin 1 - Fin a) (Fin r) = Inr (retry_after res)"
    "s1 = s\<lparr>buckets := dict_set (buckets s) k (Fin a, Fin now)\<rparr>"
    using a lim assms(2) by (cases k "Fin now" s rule: consume_cases; auto)+
  have one: "Fin 0 \<le> round64 (1 - a)" "round64 (1 - a) \<le> Fin 1"
    using deny(1) a(2) by (auto intro!: round64_ge_Fin round64_le_Fin)
  then obtain y where y: "round64 (1 - a) = Fin y" "0 \<le> y" "y \<le> 1" by (cases "round64 (1 - a)") auto
  have "y / r \<le> 1" using y assms(2) by (simp add: divide_le_eq)
  then have "Fin 0 \<le> round64 (y / r)" "round64 (y / r) \<le> Fin 1"
    using y assms(2) by (auto intro!: round64_ge_Fin round64_le_Fin)
  moreover have "retry_after res = round64 (y / r)" using deny(2) y assms(2) by auto
  ultimately obtain z where "retry_after res = Fin z" "z \<le> 1" by (cases "round64 (y / r)") auto
  then have c: "\<exists>c. pyceil (retry_after res) = Inr c \<and> c \<le> 1" by (simp add: ceiling_le_iff)
  have acc: "map_of (buckets (after_requests qs s1)) k = Some (Fin a, Fin now)"
    "bk_rps (after_requests qs s1) = Fin r" "bk_burst (after_requests qs s1) = Fin b"
    using after_others(1) [of k qs s1] after_others(2,3) [of qs s1] assms(7) deny(3) lim by simp_all
  have "Fin 1 \<le> available k (Fin u) (after_requests qs s1)"
    by (rule enough_refill [OF acc a(2) assms(3) pause_refills [OF assms(2,8)]])
  then have "is_allowed (fst (take_token k (Fin u) (after_requests qs s1)))"
    by (cases k "Fin u" "after_requests qs s1" rule: consume_cases) (auto simp: is_allowed_def)
  with c show ?thesis by simp
qed


lemma take_token_denied:
  assumes "available k now s = Fin a" "a < 1" "0 < r" "bk_rps s = Fin r"
  shows "take_token k now s =
    (Inr \<lparr>allowed = False, remaining = Fin a, retry_after = projr (pydiv (Fin 1 - Fin a) (Fin r))\<rparr>,
     s\<lparr>buckets := dict_set (buckets s) k (Fin a, now)\<rparr>)"
  using assms by (cases k now s rule: consume_cases) auto

theorem retry_after_honoured_witness:
  "(let s = after_requests (stamped [(''a'', 5)]) (bucket_mem_new (Fin 1) (Fin 1))
    in \<not> is_allowed (fst (take_token ''a'' (Fin 5) s)) \<and>
       is_allowed (fst (take_token ''a'' (Fin 6)
         (after_requests (stamped [(''b'', 5)]) (snd (take_token ''a'' (Fin 5) s))))))"
proof -
  let ?new = "bucket_mem_new (Fin 1) (Fin 1)"
  let ?s = "after_requests (stamped [(''a'', 5)]) ?new"
  have ok: "store_ok 1 1 5 ?s"
    using requests_store_ok [OF new_store_ok [of 1 1 5], of "[(''a'', 5)]"] by simp
  have b: "bk_rps ?s = Fin 1" "bk_burst ?s = Fin 1" by (simp_all add: bucket_mem_new_def)
  have "available ''a'' (Fin 5) ?new = Fin 1"
    by (simp add: available_def bucket_mem_new_def dict_get_def pymin_def round64_exact)
  then have "map_of (buckets ?s) ''a'' = Some (Fin 0, Fin 5)" using take_token_exact(2) [of "''a''" "Fin 5" ?new 1] by simp
  then have "available ''a'' (Fin 5) ?s = Fin 0" using available_same_instant [OF _ b] by simp
  note den = take_token_denied [OF this zero_less_one zero_less_one b(1)]
  show ?thesis
    using retry_after_honoured [OF ok _ _ _ den, of "stamped [(''b'', 5)]" 6] den
    by (simp add: Let_def is_allowed_def)
qed

text \<open>
  A client that paces itself is never rejected: if the refill between two consecutive requests,
  as the code computes it, is at least one token, every request is admitted.
\<close>

lemma paced_client_never_rejected:
  assumes "1 \<le> b" "rep64 b" "b < f64_lim" "0 \<le> r"
    and "successively (\<lambda>t u. t \<le> u \<and> Fin 1 \<le> (Fin u - Fin t) * Fin r) ts"
  shows "admitted k (stamped (map (Pair k) ts)) (bucket_mem_new (Fin r) (Fin b)) = length ts"
proof -
  have step: "admitted k (map (\<lambda>t. (k, Fin t)) (t # ts)) s = length (t # ts)"
    if "store_ok r b t0 s" "t0 \<le> t" "Fin 1 \<le> available k (Fin t) s"
      "successively (\<lambda>t u. t \<le> u \<and> Fin 1 \<le> (Fin u - Fin t) * Fin r) (t # ts)" for t0 t ts s
    using that
  proof (induction ts arbitrary: t t0 s)
    case Nil
    then show ?case
      by (cases k "Fin t" s rule: consume_cases) (auto simp: admitted_Cons is_allowed_def)
  next
    case (Cons u ts)
    let ?s = "snd (take_token k (Fin t) s)"
    have ok: "store_ok r b t ?s" using consume_store_ok [OF Cons.prems(1,2)] by simp
    have al: "is_allowed (fst (take_token k (Fin t) s))"
      and "\<exists>c. map_of (buckets ?s) k = Some (c, Fin t)"
      using Cons.prems(3) by (cases k "Fin t" s rule: consume_cases; auto simp: is_allowed_def)+
    then obtain c where c: "map_of (buckets ?s) k = Some (c, Fin t)" by blast
    then have "bucket_ok b t (c, Fin t)" using ok by (auto simp: store_ok_def dest: map_of_SomeD)
    then obtain x where x: "c = Fin x" "0 \<le> x" by (auto simp: bucket_ok_def)
    have "Fin 1 \<le> available k (Fin u) ?s"
      using enough_refill [of ?s k x t r b u] c x ok assms(1) Cons.prems(4) by (simp add: store_ok_def limits_ok_def)
    then have "admitted k (map (\<lambda>t. (k, Fin t)) (u # ts)) ?s = length (u # ts)"
      using Cons.IH [OF ok] Cons.prems(4) by simp
    then show ?case using al by (simp add: admitted_Cons)
  qed
  show ?thesis
  proof (cases ts)
    case (Cons t ts')
    let ?s = "bucket_mem_new (Fin r) (Fin b)"
    have "available k (Fin t) ?s = Fin b"
      using available_fresh [of ?s k r b t] assms(1-3) by (simp add: bucket_mem_new_def)
    then show ?thesis
      using step [OF new_store_ok [of r b t], of t ts'] assms Cons by simp
  qed simp
qed

text \<open>
  A burst below one token admits nobody, ever: the service then answers 429 to every limited
  request.
\<close>

lemma small_burst_rejects_all:
  assumes "0 \<le> r" "0 \<le> b" "b < 1" "rep64 b" "sorted (map snd qs)"
  shows "list_all (\<lambda>(k, res). \<not> is_allowed res) (serve take_token (stamped qs) (bucket_mem_new (Fin r) (Fin b)))"
proof -
  have step: "list_all (\<lambda>(k, res). \<not> is_allowed res) (serve take_token (stamped qs) s)"
    if "store_ok r b t s" "sorted (t # map snd qs)" for t s qs
    using that
  proof (induction qs arbitrary: s t)
    case (Cons q qs)
    obtain k u where q: "q = (k, u)" by force
    have "t \<le> u" using Cons.prems(2) q by simp
    then obtain a where "available k (Fin u) s = Fin a" "a \<le> b"
      using available_range [OF Cons.prems(1)] by metis
    then have "\<not> is_allowed (fst (take_token k (Fin u) s))"
      using assms(3) by (cases k "Fin u" s rule: consume_cases) (auto simp: is_allowed_def)
    then show ?case
      using Cons.IH [of u "snd (take_token k (Fin u) s)"] consume_store_ok [OF Cons.prems(1), of u k] Cons.prems(2) q
      by auto
  qed simp
  show ?thesis
  proof (cases qs)
    case (Cons q qs')
    then show ?thesis
      using step [OF new_store_ok [of r b "snd q"], of qs] assms f64_lim_gt [of b] by auto
  qed simp
qed

text \<open>
  The store keeps one bucket per key ever seen and the key is client-chosen: from an empty store
  the number of buckets is the number of distinct keys in the whole history, and a sender that uses
  a new key (a new \<open>X-Forwarded-For\<close> value) for every request is never limited.
\<close>

lemma fresh_keys_bypass_and_accumulate:
  fixes r :: rat
  assumes "1 \<le> b" "rep64 b" "b < f64_lim"
  defines "s \<equiv> bucket_mem_new (Fin r) (Fin b)"
  shows "active_keys (after_requests (stamped qs) s) = int (card (set (map fst qs))) \<and>
    (distinct (map fst qs) \<longrightarrow> list_all (\<lambda>(k, res). is_allowed res) (serve take_token (stamped qs) s))"
proof -
  have keys: "fst ` set (stamped qs) = set (map fst qs)" by (force simp: stamped_def)
  have "dict_ok (buckets (after_requests (stamped qs) s))"
    by (rule after_dict_ok) (simp add: s_def bucket_mem_new_def dict_ok_def)
  then have "length (buckets (after_requests (stamped qs) s)) = card (set (map fst qs))"
    using after_keys [of "stamped qs" s] keys
    by (metis (no_types, lifting) bucket_mem.select_convs(3) bucket_mem_new_def dict_ok_def distinct_card
        empty_set image_empty length_map list.set_map s_def sup_bot.right_neutral)
  moreover have "list_all (\<lambda>(k, res). is_allowed res) (serve take_token (stamped qs) s')"
    if "distinct (map fst qs)" "\<forall>k \<in> set (map fst qs). map_of (buckets s') k = None" "bk_rps s' = Fin r" "bk_burst s' = Fin b" for s'
    using that
  proof (induction qs arbitrary: s')
    case (Cons q qs)
    obtain k t where q: "q = (k, t)" by force
    have "available k (Fin t) s' = Fin b" using available_fresh [of s' k r b t] Cons.prems assms(1-3) q by simp
    then have "is_allowed (fst (take_token k (Fin t) s'))"
      using assms(1) by (cases k "Fin t" s' rule: consume_cases) (auto simp: is_allowed_def)
    moreover have "\<forall>k' \<in> set (map fst qs). map_of (buckets (snd (take_token k (Fin t) s'))) k' = None"
      using Cons.prems(1,2) q by (metis consume_frame(3) distinct.simps(2) fst_conv list.set_intros(2) list.simps(9))
    ultimately show ?case using Cons.IH [of "snd (take_token k (Fin t) s')"] Cons.prems q by simp
  qed simp
  ultimately show ?thesis by (simp add: active_keys_def s_def bucket_mem_new_def)
qed

end
