(* ===== verification/Chaos.thy ===== *)
theory Chaos
  imports Http "HOL-Library.Multiset"
begin

text \<open>
  \<open>shared/autosre_shared/chaos.py\<close>: the chaos state, the deterministic error decision, the request
  hook, the control-plane handlers and the background workloads. The event loop runs one coroutine
  at a time and switches only at an \<open>await\<close>, so a handler (none of which awaits) is one step, and a
  workload is two steps, its start and its finish, with anything in between.
\<close>

section \<open>Constants and state\<close>

definition LATENCY_MAX_SECONDS :: pyfloat where "LATENCY_MAX_SECONDS = Fin 10"

definition CPU_MAX_SECONDS :: pyfloat where "CPU_MAX_SECONDS = Fin 30"

definition MEMORY_MAX_MB :: pyfloat where "MEMORY_MAX_MB = Fin 256"

definition MEMORY_HOLD_MAX_SECONDS :: pyfloat where "MEMORY_HOLD_MAX_SECONDS = Fin 60"

text \<open>\<open>int(MEMORY_MAX_MB * 1024 * 1024)\<close>\<close>

definition MEMORY_MAX_BYTES :: int where "MEMORY_MAX_BYTES = 256 * 1024 * 1024"

definition CONTROL_PATHS :: "string list" where
  "CONTROL_PATHS = [''/health'', ''/ready'', ''/metrics'', ''/docs'', ''/redoc'', ''/openapi.json'']"

definition CONTROL_PREFIXES :: "string list" where
  "CONTROL_PREFIXES = [''/chaos'', ''/breaker'', ''/rate-limit'', ''/failures'']"

text \<open>
  A background task: scheduled and not yet started, or running. A memory block is a \<open>bytearray\<close>
  whose contents are determined by its length (a one at every multiple of 4096), and \<open>list.remove\<close>
  compares contents, so the model keeps the length.
\<close>

datatype chaos_task =
    CpuScheduled pyfloat
  | CpuRunning pyfloat
  | MemScheduled int pyfloat
  | MemHeld int

record chaos_state =
  latency_enabled :: bool
  latency_seconds :: pyfloat
  error_enabled :: bool
  error_rate :: pyfloat
  error_accumulator :: pyfloat
  cpu_running :: bool
  memory_bytes :: int
  memory_blocks :: "int list"
  tasks :: "chaos_task list"

definition new_chaos_state :: chaos_state where
  "new_chaos_state = \<lparr>latency_enabled = False, latency_seconds = 0, error_enabled = False, error_rate = 0,
     error_accumulator = 0, cpu_running = False, memory_bytes = 0, memory_blocks = [], tasks = []\<rparr>"

definition is_active :: "chaos_state \<Rightarrow> bool" where
  "is_active s \<longleftrightarrow> latency_enabled s \<or> error_enabled s \<or> cpu_running s \<or> 0 < memory_bytes s"

definition should_inject_error :: "chaos_state \<Rightarrow> bool \<times> chaos_state" where
  "should_inject_error s =
     (if \<not> (error_enabled s \<and> 0 < error_rate s) then (False, s)
      else let s1 = s\<lparr>error_accumulator := error_accumulator s + error_rate s\<rparr>
           in if 1 \<le> error_accumulator s1
              then (True, s1\<lparr>error_accumulator := error_accumulator s1 - 1\<rparr>)
              else (False, s1))"

text \<open>\<open>n / 1024 / 1024\<close>; a count of bytes that a process can hold divides without overflow.\<close>

definition megabytes :: "int \<Rightarrow> pyfloat" where
  "megabytes n = (case round64 (of_int n / 1024) of Fin x \<Rightarrow> round64 (x / 1024) | f \<Rightarrow> f)"

definition chaos_snapshot :: "chaos_state \<Rightarrow> json" where
  "chaos_snapshot s =
     JObj [(''active'', JBool (is_active s)),
           (''latency'', JObj [(''enabled'', JBool (latency_enabled s)),
                               (''seconds'', JFloat (pyround (latency_seconds s) 3))]),
           (''errors'', JObj [(''enabled'', JBool (error_enabled s)),
                              (''rate_percent'', JFloat (pyround (error_rate s * Fin 100) 2))]),
           (''cpu'', JObj [(''running'', JBool (cpu_running s))]),
           (''memory'', JObj [(''allocated_mb'', JFloat (pyround (megabytes (memory_bytes s)) 2)),
                              (''blocks'', JInt (int (length (memory_blocks s))))])]"

definition track :: "chaos_task \<Rightarrow> chaos_state \<Rightarrow> chaos_state" where
  "track t s = s\<lparr>tasks := tasks s @ [t]\<rparr>"

section \<open>Payloads\<close>

text \<open>The request models and the bounds their fields declare; a payload outside them never reaches
  the handler.\<close>

record latency_config =
  lat_enable :: bool
  delay_seconds :: pyfloat

definition latency_config_ok :: "latency_config \<Rightarrow> bool" where
  "latency_config_ok c \<longleftrightarrow> 0 \<le> delay_seconds c \<and> delay_seconds c \<le> LATENCY_MAX_SECONDS"

record error_config =
  err_enable :: bool
  rate_percent :: pyfloat

definition error_config_ok :: "error_config \<Rightarrow> bool" where
  "error_config_ok c \<longleftrightarrow> 0 \<le> rate_percent c \<and> rate_percent c \<le> Fin 100"

record cpu_config =
  duration_seconds :: pyfloat

definition cpu_config_ok :: "cpu_config \<Rightarrow> bool" where
  "cpu_config_ok c \<longleftrightarrow> 0 < duration_seconds c \<and> duration_seconds c \<le> CPU_MAX_SECONDS"

record memory_config =
  size_mb :: pyfloat
  hold_seconds :: pyfloat

definition memory_config_ok :: "memory_config \<Rightarrow> bool" where
  "memory_config_ok c \<longleftrightarrow> 0 < size_mb c \<and> size_mb c \<le> MEMORY_MAX_MB \<and>
     0 < hold_seconds c \<and> hold_seconds c \<le> MEMORY_HOLD_MAX_SECONDS"

text \<open>\<open>_cpu_burn\<close>: \<open>clock i\<close> is the \<open>i\<close>-th reading of \<open>time.perf_counter()\<close>; not returning is \<open>None\<close>.\<close>

partial_function (option) cpu_burn_loop ::
  "(nat \<Rightarrow> pyfloat) \<Rightarrow> pyfloat \<Rightarrow> nat \<Rightarrow> int \<Rightarrow> int option" where
  "cpu_burn_loop clock deadline i x =
     (if clock i < deadline then cpu_burn_loop clock deadline (i + 1) (x + 1) else Some x)"

definition cpu_burn :: "(nat \<Rightarrow> pyfloat) \<Rightarrow> pyfloat \<Rightarrow> int option" where
  "cpu_burn clock deadline = cpu_burn_loop clock deadline 0 0"

section \<open>Controller\<close>

record chaos_controller =
  csrv :: string
  cstate :: chaos_state

abbreviation (input) type_label :: "string \<Rightarrow> labels" where
  "type_label t \<equiv> [(''type'', t)]"

abbreviation (input) action_label :: "string \<Rightarrow> string \<Rightarrow> labels" where
  "action_label t a \<equiv> [(''type'', t), (''action'', a)]"

abbreviation (input) set_active :: "string \<Rightarrow> int \<Rightarrow> metric_call" where
  "set_active t v \<equiv> GaugeSet ''chaos_active'' (type_label t) v"

definition new_controller :: "string \<Rightarrow> platform \<Rightarrow> chaos_controller \<times> platform" where
  "new_controller srv p =
     (\<lparr>csrv = srv, cstate = new_chaos_state\<rparr>,
      emit (map (\<lambda>t. set_active t 0) [''latency'', ''errors'', ''cpu'', ''memory'']) p)"

definition is_control :: "string \<Rightarrow> bool" where
  "is_control path \<longleftrightarrow> path \<in> set CONTROL_PATHS \<or> list_ex (\<lambda>p. startswith path p) CONTROL_PREFIXES"

definition injected_error :: response where
  "injected_error =
     JSONResponse 500 (JObj [(''detail'', JStr ''chaos: injected error''), (''injected'', JBool True)]) []"

text \<open>\<open>others\<close> is what other coroutines do while this one sleeps.\<close>

type_synonym chaos_activity = "chaos_controller \<Rightarrow> platform \<Rightarrow> chaos_controller \<times> platform"

definition apply_request_chaos ::
  "chaos_activity \<Rightarrow> string \<Rightarrow> chaos_controller \<Rightarrow> platform \<Rightarrow>
   response option \<times> chaos_controller \<times> platform" where
  "apply_request_chaos others path c p =
     (if is_control path then (None, c, p)
      else
        let (c1, p1) =
              (if latency_enabled (cstate c) \<and> 0 < latency_seconds (cstate c) then
                 let (c', p') = others c p
                 in (c', emit [Observe ''chaos_latency_seconds'' [] (latency_seconds (cstate c'))] p')
               else (c, p));
            (inject, s2) = should_inject_error (cstate c1);
            c2 = c1\<lparr>cstate := s2\<rparr>
        in if inject
           then (Some injected_error, c2, emit [CounterInc ''chaos_error_injections_total'' []] p1)
           else (None, c2, p1))"

section \<open>Background workloads\<close>

definition run_cpu_start :: "chaos_controller \<Rightarrow> platform \<Rightarrow> chaos_controller \<times> platform" where
  "run_cpu_start c p =
     (c\<lparr>cstate := (cstate c)\<lparr>cpu_running := True\<rparr>\<rparr>, emit [set_active ''cpu'' 1] p)"

definition run_cpu_finish :: "chaos_controller \<Rightarrow> platform \<Rightarrow> chaos_controller \<times> platform" where
  "run_cpu_finish c p =
     (c\<lparr>cstate := (cstate c)\<lparr>cpu_running := False\<rparr>\<rparr>, emit [set_active ''cpu'' 0] p)"

definition run_memory_start :: "int \<Rightarrow> chaos_controller \<Rightarrow> platform \<Rightarrow> chaos_controller \<times> platform" where
  "run_memory_start nbytes c p =
     (let s = cstate c
      in (c\<lparr>cstate := s\<lparr>memory_blocks := memory_blocks s @ [nbytes], memory_bytes := memory_bytes s + nbytes\<rparr>\<rparr>,
          emit [set_active ''memory'' 1] p))"

definition run_memory_finish :: "int \<Rightarrow> chaos_controller \<Rightarrow> platform \<Rightarrow> chaos_controller \<times> platform" where
  "run_memory_finish nbytes c p =
     (let s = (cstate c)\<lparr>memory_blocks := remove1 nbytes (memory_blocks (cstate c)),
                         memory_bytes := max 0 (memory_bytes (cstate c) - nbytes)\<rparr>
      in (c\<lparr>cstate := s\<rparr>, if memory_bytes s \<le> 0 then emit [set_active ''memory'' 0] p else p))"

text \<open>The event loop starts the \<open>i\<close>-th task, or resumes it after its \<open>await\<close>; a finished task is
  discarded from \<open>_tasks\<close>.\<close>

definition drop_task :: "nat \<Rightarrow> chaos_controller \<Rightarrow> chaos_controller" where
  "drop_task i c = c\<lparr>cstate := (cstate c)\<lparr>tasks := take i (tasks (cstate c)) @ drop (Suc i) (tasks (cstate c))\<rparr>\<rparr>"

definition put_task :: "nat \<Rightarrow> chaos_task \<Rightarrow> chaos_controller \<Rightarrow> chaos_controller" where
  "put_task i t c = c\<lparr>cstate := (cstate c)\<lparr>tasks := (tasks (cstate c))[i := t]\<rparr>\<rparr>"

definition run_task :: "nat \<Rightarrow> chaos_controller \<Rightarrow> platform \<Rightarrow> chaos_controller \<times> platform" where
  "run_task i c p =
     (if i < length (tasks (cstate c)) then
        (case tasks (cstate c) ! i of
           CpuScheduled d \<Rightarrow> run_cpu_start (put_task i (CpuRunning d) c) p
         | CpuRunning d \<Rightarrow> run_cpu_finish (drop_task i c) p
         | MemScheduled n h \<Rightarrow> run_memory_start n (put_task i (MemHeld n) c) p
         | MemHeld n \<Rightarrow> run_memory_finish n (drop_task i c) p)
      else (c, p))"

section \<open>Control plane\<close>

text \<open>A \<open>float\<close> with one decimal, the format \<open>:.1f\<close>.\<close>

definition fixed_1 :: "pyfloat \<Rightarrow> string" where
  "fixed_1 f =
     (case f of
        Fin x \<Rightarrow>
          (let n = half_even (x * 10); m = nat \<bar>n\<bar>
           in (if n < 0 then ''-'' else '''') @ nat_str (m div 10) @ ''.'' @ nat_str (m mod 10))
      | _ \<Rightarrow> float_repr f)"

definition action_of :: "bool \<Rightarrow> string" where
  "action_of enable = (if enable then ''enable'' else ''disable'')"

definition set_latency ::
  "latency_config \<Rightarrow> chaos_controller \<Rightarrow> platform \<Rightarrow> json \<times> chaos_controller \<times> platform" where
  "set_latency cfg c p =
     (let on = lat_enable cfg;
          s = (cstate c)\<lparr>latency_enabled := on, latency_seconds := (if on then delay_seconds cfg else 0)\<rparr>;
          p1 = emit [set_active ''latency'' (if on then 1 else 0),
                     CounterInc ''chaos_events_total'' (action_label ''latency'' (action_of on))] p;
          p2 = record_event Source_CHAOS (''latency_'' @ action_of on)
                 [(''service'', JStr (csrv c)), (''seconds'', JFloat (latency_seconds s))] p1
      in (JObj [(''status'', JStr ''ok''), (''chaos'', chaos_snapshot s)], c\<lparr>cstate := s\<rparr>, p2))"

definition set_errors ::
  "error_config \<Rightarrow> chaos_controller \<Rightarrow> platform \<Rightarrow> json result \<times> chaos_controller \<times> platform" where
  "set_errors cfg c p =
     (let on = err_enable cfg
      in case (if on then pydiv (rate_percent cfg) (Fin 100) else Inr 0) of
           Inl x \<Rightarrow> (Inl x, c\<lparr>cstate := (cstate c)\<lparr>error_enabled := on\<rparr>\<rparr>, p)
         | Inr r \<Rightarrow>
             (let s = (cstate c)\<lparr>error_enabled := on, error_rate := r, error_accumulator := 0\<rparr>;
                  p1 = emit [set_active ''errors'' (if on then 1 else 0),
                             CounterInc ''chaos_events_total'' (action_label ''errors'' (action_of on))] p;
                  p2 = record_event Source_CHAOS (''errors_'' @ action_of on)
                         [(''service'', JStr (csrv c)),
                          (''rate_percent'', JFloat (if on then rate_percent cfg else 0))] p1
              in (Inr (JObj [(''status'', JStr ''ok''), (''chaos'', chaos_snapshot s)]), c\<lparr>cstate := s\<rparr>, p2)))"

definition trigger_cpu ::
  "cpu_config \<Rightarrow> chaos_controller \<Rightarrow> platform \<Rightarrow> json \<times> chaos_controller \<times> platform" where
  "trigger_cpu cfg c p =
     (let p1 = emit [CounterInc ''chaos_events_total'' (action_label ''cpu'' ''trigger'')] p;
          p2 = record_event Source_CHAOS ''cpu_trigger''
                 [(''service'', JStr (csrv c)), (''duration_seconds'', JFloat (duration_seconds cfg))] p1;
          s = track (CpuScheduled (duration_seconds cfg)) (cstate c)
      in (JObj [(''status'', JStr ''started''),
                (''cpu'', JObj [(''duration_seconds'', JFloat (duration_seconds cfg))]),
                (''chaos'', chaos_snapshot s)], c\<lparr>cstate := s\<rparr>, p2))"

definition trigger_memory ::
  "memory_config \<Rightarrow> chaos_controller \<Rightarrow> platform \<Rightarrow> json result \<times> chaos_controller \<times> platform" where
  "trigger_memory cfg c p =
     (case pytrunc (size_mb cfg * Fin 1024 * Fin 1024) of
        Inl x \<Rightarrow> (Inl x, c, p)
      | Inr nbytes \<Rightarrow>
          if MEMORY_MAX_BYTES < memory_bytes (cstate c) + nbytes then
            (Inl (HTTPException 400
               (''requested '' @ float_repr (size_mb cfg) @ '' MB would exceed the '' @
                float_repr MEMORY_MAX_MB @ '' MB cap (currently held: '' @
                fixed_1 (megabytes (memory_bytes (cstate c))) @ '' MB)'')), c, p)
          else
            (let p1 = emit [CounterInc ''chaos_events_total'' (action_label ''memory'' ''trigger'')] p;
                 p2 = record_event Source_CHAOS ''memory_trigger''
                        [(''service'', JStr (csrv c)), (''size_mb'', JFloat (size_mb cfg)),
                         (''hold_seconds'', JFloat (hold_seconds cfg))] p1;
                 s = track (MemScheduled nbytes (hold_seconds cfg)) (cstate c)
             in (Inr (JObj [(''status'', JStr ''started''),
                            (''memory'', JObj [(''size_mb'', JFloat (size_mb cfg)),
                                               (''hold_seconds'', JFloat (hold_seconds cfg))]),
                            (''chaos'', chaos_snapshot s)]), c\<lparr>cstate := s\<rparr>, p2)))"

definition chaos_reset :: "chaos_controller \<Rightarrow> platform \<Rightarrow> json \<times> chaos_controller \<times> platform" where
  "chaos_reset c p =
     (let s = (cstate c)\<lparr>latency_enabled := False, latency_seconds := 0, error_enabled := False,
                         error_rate := 0, error_accumulator := 0, memory_blocks := [], memory_bytes := 0\<rparr>;
          p1 = emit [set_active ''latency'' 0, set_active ''errors'' 0, set_active ''memory'' 0,
                     CounterInc ''chaos_events_total'' (action_label ''reset'' ''reset'')] p;
          p2 = record_event Source_CHAOS ''reset'' [(''service'', JStr (csrv c))] p1
      in (JObj [(''status'', JStr ''reset''), (''chaos'', chaos_snapshot s)], c\<lparr>cstate := s\<rparr>, p2))"

definition chaos_status :: "chaos_controller \<Rightarrow> json" where
  "chaos_status c = chaos_snapshot (cstate c)"

section \<open>The error decision over many requests\<close>

text \<open>The number of injections among the next \<open>n\<close> decisions, and the state after them.\<close>

primrec inject_run :: "nat \<Rightarrow> chaos_state \<Rightarrow> nat \<times> chaos_state" where
  "inject_run 0 s = (0, s)"
| "inject_run (Suc n) s =
     (let (hit, s1) = should_inject_error s; (k, s2) = inject_run n s1
      in ((if hit then Suc k else k), s2))"

definition injecting :: "rat \<Rightarrow> rat \<Rightarrow> chaos_state \<Rightarrow> bool" where
  "injecting r a s \<longleftrightarrow>
     error_enabled s \<and> error_rate s = Fin r \<and> 0 < r \<and> r \<le> 1 \<and>
     error_accumulator s = Fin a \<and> 0 \<le> a \<and> a \<le> 1"

lemma inject_step:
  assumes "injecting r a s"
  obtains hit a' where "should_inject_error s = (hit, s\<lparr>error_accumulator := Fin a'\<rparr>)"
    "0 \<le> a'" "a' \<le> 1" "rep64 a'" "\<bar>a + r - (a' + of_bool hit)\<bar> \<le> 2 powi (- 53)"
    "round64 (a + r) = Fin (a + r) \<Longrightarrow> hit = (1 \<le> a + r) \<and> a' = a + r - of_bool hit"
proof -
  have a: "0 \<le> a" "a \<le> 1" "0 < r" "r \<le> 1" using assms by (auto simp: injecting_def)
  have lim: "(2 :: rat) < f64_lim" "\<bar>2 :: rat\<bar> < f64_lim" using f64_lim_gt [of 2] by auto
  define z where "z = round_rat (a + r)"
  have b: "Fin 0 \<le> round64 (a + r)" "round64 (a + r) \<le> Fin 2"
    using a lim by (auto intro!: round64_ge_Fin round64_le_Fin)
  then have z: "round64 (a + r) = Fin z" "0 \<le> z" "z \<le> 2"
    by (cases "a + r" rule: round64_cases; simp add: z_def)+
  have err: "\<bar>z - (a + r)\<bar> \<le> 2 powi (- 53)"
  proof (cases "a + r = 2")
    case True
    then show ?thesis by (simp add: z_def round_rat_rep64 power_int_minus)
  next
    case False
    then show ?thesis using round_rat_err_le [of "a + r" 1] a by (simp add: z_def)
  qed
  define a' where "a' = (if 1 \<le> z then z - 1 else z)"
  have rz: "rep64 z" by (simp add: z_def)
  then have ra: "rep64 a'" using rep64_minus_1 [of z] z by (simp add: a'_def)
  have "round64 (z - 1) = Fin (z - 1)" if "1 \<le> z"
    using rep64_minus_1 [OF rz that] z f64_lim_gt [of "z - 1"] that by (intro round64_exact) auto
  then have st: "should_inject_error s = (1 \<le> z, s\<lparr>error_accumulator := Fin a'\<rparr>)"
    using assms z by (simp add: should_inject_error_def injecting_def Let_def a'_def)
  show thesis
    by (rule that [OF st]) (use z ra err in \<open>auto simp: a'_def abs_minus_commute\<close>)
qed

lemma inject_run_bound:
  assumes "injecting r a s"
  shows "\<exists>a'. injecting r a' (snd (inject_run n s)) \<and>
    \<bar>of_nat (fst (inject_run n s)) - (of_nat n * r + a - a')\<bar> \<le> of_nat n * 2 powi (- 53)"
  using assms
proof (induction n arbitrary: s a)
  case (Suc n)
  from Suc.prems show ?case
  proof (rule inject_step)
    fix hit b
    assume st: "should_inject_error s = (hit, s\<lparr>error_accumulator := Fin b\<rparr>)" "0 \<le> b" "b \<le> 1"
      and err: "\<bar>a + r - (b + of_bool hit)\<bar> \<le> 2 powi (- 53)"
    let ?s = "s\<lparr>error_accumulator := Fin b\<rparr>"
    have "injecting r b ?s" using Suc.prems st by (simp add: injecting_def)
    then obtain c where c: "injecting r c (snd (inject_run n ?s))"
      "\<bar>of_nat (fst (inject_run n ?s)) - (of_nat n * r + b - c)\<bar> \<le> of_nat n * 2 powi (- 53)"
      using Suc.IH by blast
    have run: "inject_run (Suc n) s =
        ((if hit then Suc (fst (inject_run n ?s)) else fst (inject_run n ?s)), snd (inject_run n ?s))"
      using st(1) by (simp add: case_prod_beta)
    have "(of_nat (fst (inject_run (Suc n) s)) :: rat) = of_nat (fst (inject_run n ?s)) + of_bool hit"
      unfolding run by simp
    moreover have "(of_nat (Suc n) :: rat) * r = of_nat n * r + r" "(of_nat (Suc n) :: rat) * 2 powi (- 53) = of_nat n * 2 powi (- 53) + 2 powi (- 53)"
      by (simp_all add: algebra_simps)
    ultimately have "\<bar>of_nat (fst (inject_run (Suc n) s)) - (of_nat (Suc n) * r + a - c)\<bar> \<le> of_nat (Suc n) * 2 powi (- 53)"
      using c(2) err by linarith
    then show ?thesis using c(1) run by auto
  qed
qed simp

lemma inject_run_grid:
  assumes "injecting r a s" "a < 1" "on_grid q r" "a * 2 ^ q \<in> \<int>" "q \<le> 52"
  shows "int (fst (inject_run n s)) = \<lfloor>of_nat n * r + a\<rfloor>"
  using assms(1,2,4)
proof (induction n arbitrary: s a)
  case 0
  then show ?case by (simp add: injecting_def floor_eq_iff)
next
  case (Suc n)
  from Suc.prems(1) have a: "0 \<le> a" "0 < r" "r \<le> 1" by (auto simp: injecting_def)
  have int: "(a + r) * 2 ^ q \<in> \<int>" using Suc.prems(3) assms(3) by (simp add: on_grid_def distrib_right)
  have "(2 :: rat) * 2 ^ q \<le> 2 ^ 53"
    using power_increasing [of "Suc q" 53 "2 :: rat"] assms(5) by simp
  then have "on_grid q (a + r)"
    using on_grid_intro [OF int, of 2] a Suc.prems(2) by (simp add: on_grid_def)
  then have ex: "round64 (a + r) = Fin (a + r)" using on_grid_exact assms(5) by simp
  from Suc.prems(1) show ?case
  proof (rule inject_step)
    fix hit b
    assume st: "should_inject_error s = (hit, s\<lparr>error_accumulator := Fin b\<rparr>)" "0 \<le> b" "b \<le> 1"
      and val: "round64 (a + r) = Fin (a + r) \<Longrightarrow> hit = (1 \<le> a + r) \<and> b = a + r - of_bool hit"
    let ?s = "s\<lparr>error_accumulator := Fin b\<rparr>"
    have hit: "hit = (1 \<le> a + r)" "b = a + r - of_bool hit" using val [OF ex] by auto
    have "injecting r b ?s" using Suc.prems(1) st by (simp add: injecting_def)
    moreover have "b < 1" using hit a Suc.prems(2) by auto
    moreover have "b * 2 ^ q \<in> \<int>" using hit(2) int by (simp add: left_diff_distrib)
    ultimately have "int (fst (inject_run n ?s)) = \<lfloor>of_nat n * r + b\<rfloor>" using Suc.IH by blast
    moreover have "\<lfloor>of_nat (Suc n) * r + a\<rfloor> = \<lfloor>of_nat n * r + b\<rfloor> + of_bool hit"
    proof -
      have "of_nat (Suc n) * r + a = (of_nat n * r + b) + of_int (of_bool hit)"
        using hit(2) by (simp add: algebra_simps)
      then show ?thesis by (metis floor_add_int)
    qed
    ultimately show ?thesis using st(1) by (simp add: case_prod_beta)
  qed
qed

section \<open>Runs of the controller\<close>

datatype chaos_op =
    SetLatency latency_config
  | SetErrors error_config
  | TriggerCpu cpu_config
  | TriggerMemory memory_config
  | Reset
  | Decide
  | RunTask nat

fun chaos_exec :: "chaos_op \<Rightarrow> chaos_controller \<Rightarrow> platform \<Rightarrow> chaos_controller \<times> platform" where
  "chaos_exec (SetLatency cfg) c p = snd (set_latency cfg c p)"
| "chaos_exec (SetErrors cfg) c p = snd (set_errors cfg c p)"
| "chaos_exec (TriggerCpu cfg) c p = snd (trigger_cpu cfg c p)"
| "chaos_exec (TriggerMemory cfg) c p = snd (trigger_memory cfg c p)"
| "chaos_exec Reset c p = snd (chaos_reset c p)"
| "chaos_exec Decide c p = (c\<lparr>cstate := snd (should_inject_error (cstate c))\<rparr>, p)"
| "chaos_exec (RunTask i) c p = run_task i c p"

fun payload_ok :: "chaos_op \<Rightarrow> bool" where
  "payload_ok (SetLatency cfg) = latency_config_ok cfg"
| "payload_ok (SetErrors cfg) = error_config_ok cfg"
| "payload_ok (TriggerCpu cfg) = cpu_config_ok cfg"
| "payload_ok (TriggerMemory cfg) = memory_config_ok cfg"
| "payload_ok _ = True"

text \<open>
  The states a controller can reach by steps with valid payloads that \<open>allowed_op\<close> admits; \<open>others\<close> is
  the activity of other components, which do not set this process's \<open>chaos_active\<close> gauges.
\<close>

inductive chaos_reach ::
  "(chaos_op \<Rightarrow> chaos_state \<Rightarrow> bool) \<Rightarrow> string \<Rightarrow> chaos_controller \<Rightarrow> platform \<Rightarrow> bool"
  for allowed_op srv where
  start: "new_controller srv p0 = (c, p) \<Longrightarrow> chaos_reach allowed_op srv c p"
| exec: "chaos_reach allowed_op srv c p \<Longrightarrow> payload_ok x \<Longrightarrow> allowed_op x (cstate c) \<Longrightarrow>
    chaos_exec x c p = (c', p') \<Longrightarrow> chaos_reach allowed_op srv c' p'"
| others: "chaos_reach allowed_op srv c p \<Longrightarrow>
    (\<And>t. last_gauge ''chaos_active'' [(''type'', t)] (calls p') = last_gauge ''chaos_active'' [(''type'', t)] (calls p)) \<Longrightarrow>
    chaos_reach allowed_op srv c p'"

inductive_cases chaos_reachE: "chaos_reach allowed_op srv c p"

section \<open>Effects of the steps\<close>

fun held_of :: "chaos_task \<Rightarrow> int list" where
  "held_of (MemHeld n) = [n]"
| "held_of _ = []"

fun scheduled_of :: "chaos_task \<Rightarrow> int list" where
  "scheduled_of (MemScheduled n h) = [n]"
| "scheduled_of _ = []"

text \<open>The sizes of the blocks that running tasks hold, and of those that scheduled tasks will
  allocate.\<close>

definition held :: "chaos_state \<Rightarrow> int list" where
  "held s = concat (map held_of (tasks s))"

definition scheduled :: "chaos_state \<Rightarrow> int list" where
  "scheduled s = concat (map scheduled_of (tasks s))"

lemma id_split: "i < length xs \<Longrightarrow> xs = take i xs @ xs ! i # drop (Suc i) xs"
  by (rule id_take_nth_drop)

lemma upd_split: "i < length xs \<Longrightarrow> xs[i := x] = take i xs @ x # drop (Suc i) xs"
  by (rule upd_conv_take_nth_drop)

lemma tasks_put:
  assumes "i < length (tasks s)"
  shows "mset (concat (map f ((tasks s)[i := t]))) + mset (f (tasks s ! i)) =
    mset (concat (map f (tasks s))) + mset (f t)"
  using id_split [OF assms] by (simp add: upd_split [OF assms]) (metis (no_types, lifting) add.assoc
      add.commute concat.simps(2) concat_append list.simps(9) map_append mset_append)

lemma tasks_drop:
  assumes "i < length (tasks s)"
  shows "mset (concat (map f (take i (tasks s) @ drop (Suc i) (tasks s)))) + mset (f (tasks s ! i)) =
    mset (concat (map f (tasks s)))"
  by (subst (2) id_split [OF assms]) (simp add: ac_simps)


lemma run_task_frame [simp, frame_simps]:
  "csrv (fst (run_task i c p)) = csrv c"
  "latency_enabled (cstate (fst (run_task i c p))) = latency_enabled (cstate c)"
  "latency_seconds (cstate (fst (run_task i c p))) = latency_seconds (cstate c)"
  "error_enabled (cstate (fst (run_task i c p))) = error_enabled (cstate c)"
  "error_rate (cstate (fst (run_task i c p))) = error_rate (cstate c)"
  "error_accumulator (cstate (fst (run_task i c p))) = error_accumulator (cstate c)"
  by (auto simp: run_task_def run_cpu_start_def run_cpu_finish_def run_memory_start_def
      run_memory_finish_def put_task_def drop_task_def Let_def split: chaos_task.splits)

text \<open>What a step of a task does to the memory that is held, scheduled and accounted for.\<close>

lemma run_task_memory:
  fixes c p i
  defines "s \<equiv> cstate c" and "s' \<equiv> cstate (fst (run_task i c p))"
  obtains (same) "mset (held s') = mset (held s)" "mset (scheduled s') = mset (scheduled s)"
      "memory_bytes s' = memory_bytes s" "memory_blocks s' = memory_blocks s"
  | (alloc) n where "mset (held s') = mset (held s) + {#n#}" "mset (scheduled s) = mset (scheduled s') + {#n#}"
      "memory_bytes s' = memory_bytes s + n" "memory_blocks s' = memory_blocks s @ [n]"
  | (free) n where "mset (held s) = mset (held s') + {#n#}" "mset (scheduled s') = mset (scheduled s)"
      "memory_bytes s' = max 0 (memory_bytes s - n)" "memory_blocks s' = remove1 n (memory_blocks s)"
proof (cases "i < length (tasks s)")
  case True
  note put = tasks_put [OF True] and drp = tasks_drop [OF True]
  show thesis
  proof (cases "tasks s ! i")
    case (CpuScheduled d)
    show thesis
      by (rule same) (use True CpuScheduled put [of held_of "CpuRunning d"] put [of scheduled_of "CpuRunning d"]
        in \<open>simp_all add: s'_def s_def run_task_def run_cpu_start_def put_task_def held_def scheduled_def\<close>)
  next
    case (CpuRunning d)
    show thesis
      by (rule same) (use True CpuRunning drp [of held_of] drp [of scheduled_of]
        in \<open>simp_all add: s'_def s_def run_task_def run_cpu_finish_def drop_task_def held_def scheduled_def\<close>)
  next
    case (MemScheduled n h)
    show thesis
      by (rule alloc [of n]) (use True MemScheduled put [of held_of "MemHeld n"] put [of scheduled_of "MemHeld n"]
        in \<open>simp_all add: s'_def s_def run_task_def run_memory_start_def put_task_def held_def scheduled_def Let_def\<close>)
  next
    case (MemHeld n)
    show thesis
      by (rule free [of n]) (use True MemHeld drp [of held_of] drp [of scheduled_of]
        in \<open>simp_all add: s'_def s_def run_task_def run_memory_finish_def drop_task_def held_def scheduled_def Let_def\<close>)
  qed
qed (rule same; simp add: s'_def s_def run_task_def)

lemma sum_list_mset: "mset xs = mset ys + {#n#} \<Longrightarrow> sum_list xs = sum_list ys + (n :: int)"
  by (metis sum_mset_sum_list sum_mset.union sum_mset.singleton)

lemma sum_list_mset_eq: "mset xs = mset ys \<Longrightarrow> sum_list xs = (sum_list ys :: int)"
  by (metis sum_mset_sum_list)

definition settings_ok :: "chaos_state \<Rightarrow> bool" where
  "settings_ok s \<longleftrightarrow>
     (\<exists>x. latency_seconds s = Fin x \<and> 0 \<le> x \<and> x \<le> 10 \<and> (\<not> latency_enabled s \<longrightarrow> x = 0)) \<and>
     (\<exists>r a. error_rate s = Fin r \<and> 0 \<le> r \<and> r \<le> 1 \<and> (\<not> error_enabled s \<longrightarrow> r = 0) \<and>
        error_accumulator s = Fin a \<and> 0 \<le> a \<and> a \<le> 1)"

definition memory_ok :: "chaos_state \<Rightarrow> bool" where
  "memory_ok s \<longleftrightarrow>
     0 \<le> memory_bytes s \<and> memory_bytes s \<le> sum_list (held s) \<and>
     mset (memory_blocks s) \<subseteq># mset (held s) \<and>
     (\<forall>n \<in># mset (held s) + mset (scheduled s). 0 \<le> n)"

definition memory_exact :: "chaos_state \<Rightarrow> bool" where
  "memory_exact s \<longleftrightarrow> memory_bytes s = sum_list (held s) \<and> mset (memory_blocks s) = mset (held s)"

definition memory_capped :: "chaos_state \<Rightarrow> bool" where
  "memory_capped s \<longleftrightarrow> memory_bytes s + sum_list (scheduled s) \<le> MEMORY_MAX_BYTES"

lemma run_task_memory_ok:
  assumes "memory_ok (cstate c)" shows "memory_ok (cstate (fst (run_task i c p)))"
proof (cases rule: run_task_memory [where i = i and c = c and p = p])
  case same
  then show ?thesis using assms sum_list_mset_eq [OF same(1)] by (auto simp: memory_ok_def)
next
  case (alloc n)
  have "\<forall>m \<in># mset (held (cstate (fst (run_task i c p)))) + mset (scheduled (cstate (fst (run_task i c p)))). 0 \<le> m"
    using assms alloc(1,2) by (auto simp: memory_ok_def)
  moreover have "0 \<le> n" using assms alloc(2) by (auto simp: memory_ok_def)
  ultimately show ?thesis
    using assms alloc sum_list_mset [OF alloc(1)] by (auto simp: memory_ok_def)
next
  case (free n)
  let ?s = "cstate c" and ?s' = "cstate (fst (run_task i c p))"
  have nn: "\<forall>m \<in># mset (held ?s') + mset (scheduled ?s'). 0 \<le> m" "0 \<le> n"
    using assms free(1,2) by (auto simp: memory_ok_def)
  have "0 \<le> sum_list (held ?s')" using nn(1) by (intro sum_list_nonneg) auto
  moreover have "mset (memory_blocks ?s') \<subseteq># mset (held ?s')"
  proof -
    have "mset (memory_blocks ?s) - {#n#} \<subseteq># mset (held ?s) - {#n#}"
      using assms by (simp add: memory_ok_def subseteq_mset_def diff_le_mono)
    then show ?thesis using free(1,4) by simp
  qed
  ultimately show ?thesis
    using assms free nn sum_list_mset [OF free(1)] by (auto simp: memory_ok_def)
qed

lemma run_task_exact:
  assumes "memory_ok (cstate c)" "memory_exact (cstate c)" shows "memory_exact (cstate (fst (run_task i c p)))"
proof (cases rule: run_task_memory [where i = i and c = c and p = p])
  case same
  then show ?thesis using assms(2) sum_list_mset_eq [OF same(1)] by (auto simp: memory_exact_def)
next
  case (alloc n)
  then show ?thesis using assms(2) sum_list_mset [OF alloc(1)] by (auto simp: memory_exact_def)
next
  case (free n)
  let ?s' = "cstate (fst (run_task i c p))"
  have "\<forall>m \<in># mset (held ?s'). 0 \<le> m" using assms(1) free(1) by (auto simp: memory_ok_def)
  then have "0 \<le> sum_list (held ?s')" by (intro sum_list_nonneg) auto
  then show ?thesis using assms(2) free sum_list_mset [OF free(1)] by (auto simp: memory_exact_def)
qed

lemma run_task_capped:
  assumes "memory_ok (cstate c)" "memory_capped (cstate c)" shows "memory_capped (cstate (fst (run_task i c p)))"
proof (cases rule: run_task_memory [where i = i and c = c and p = p])
  case same
  then show ?thesis using assms(2) sum_list_mset_eq [OF same(2)] by (auto simp: memory_capped_def)
next
  case (alloc n)
  then show ?thesis using assms(2) sum_list_mset [OF alloc(2)] by (auto simp: memory_capped_def)
next
  case (free n)
  then have "0 \<le> n" "0 \<le> memory_bytes (cstate c)" using assms(1) by (auto simp: memory_ok_def)
  then show ?thesis
    using assms(2) free(3) sum_list_mset_eq [OF free(2)] by (auto simp: memory_capped_def max_def)
qed

lemma error_rate_range:
  assumes "error_config_ok cfg"
  obtains z where "pydiv (rate_percent cfg) (Fin 100) = Inr (Fin z)" "0 \<le> z" "z \<le> 1" "rep64 z"
proof -
  obtain x where x: "rate_percent cfg = Fin x" "0 \<le> x" "x \<le> 100"
    using assms by (cases "rate_percent cfg") (auto simp: error_config_ok_def)
  have "Fin 0 \<le> round64 (x / 100)" "round64 (x / 100) \<le> Fin 1"
    using x by (auto intro!: round64_ge_Fin round64_le_Fin)
  then show thesis using that x
    by (cases "x / 100" rule: round64_cases) auto
qed

lemma should_inject_settings:
  assumes "settings_ok s" shows "settings_ok (snd (should_inject_error s))"
proof (cases "error_enabled s \<and> 0 < error_rate s")
  case True
  then obtain r a where ra: "injecting r a s" using assms by (auto simp: settings_ok_def injecting_def)
  then show ?thesis by (rule inject_step) (use assms in \<open>auto simp: settings_ok_def\<close>)
next
  case False
  then show ?thesis using assms by (simp only: should_inject_error_def if_True simp_thms snd_conv)
qed

lemma should_inject_memory [simp]:
  "memory_bytes (snd (should_inject_error s)) = memory_bytes s"
  "memory_blocks (snd (should_inject_error s)) = memory_blocks s"
  "tasks (snd (should_inject_error s)) = tasks s"
  "latency_enabled (snd (should_inject_error s)) = latency_enabled s"
  "error_enabled (snd (should_inject_error s)) = error_enabled s"
  "cpu_running (snd (should_inject_error s)) = cpu_running s"
  by (simp_all add: should_inject_error_def Let_def)

lemma memory_size_nonneg:
  assumes "memory_config_ok cfg" "pytrunc (size_mb cfg * Fin 1024 * Fin 1024) = Inr n"
  shows "0 \<le> n"
proof -
  obtain x where x: "size_mb cfg = Fin x" "0 < x" "x \<le> 256"
    using assms(1) by (cases "size_mb cfg") (auto simp: memory_config_ok_def MEMORY_MAX_MB_def)
  have "Fin 0 \<le> round64 (x * 1024)" using x by (intro round64_ge_Fin) auto
  then obtain y where y: "round64 (x * 1024) = Fin y \<and> 0 \<le> y \<or> round64 (x * 1024) = PInf"
    by (cases "round64 (x * 1024)") auto
  then have "Fin 0 \<le> size_mb cfg * Fin 1024 * Fin 1024"
    using x round64_ge_Fin [of 0 "y * 1024"] by auto
  then show ?thesis using assms(2) by (cases "size_mb cfg * Fin 1024 * Fin 1024") auto
qed

lemma exec_settings:
  assumes "settings_ok (cstate c)" "payload_ok x"
  shows "settings_ok (cstate (fst (chaos_exec x c p)))"
proof (cases x)
  case (SetLatency cfg)
  then show ?thesis using assms
    by (cases "delay_seconds cfg")
      (auto simp: settings_ok_def set_latency_def latency_config_ok_def LATENCY_MAX_SECONDS_def Let_def)
next
  case (SetErrors cfg)
  then obtain z where "pydiv (rate_percent cfg) (Fin 100) = Inr (Fin z)" "0 \<le> z" "z \<le> 1"
    using error_rate_range assms(2) by auto
  then show ?thesis using assms SetErrors by (auto simp: settings_ok_def set_errors_def Let_def)
next
  case (TriggerMemory cfg)
  then show ?thesis using assms
    by (auto simp: settings_ok_def trigger_memory_def track_def Let_def split: sum.splits)
qed (use assms should_inject_settings in \<open>auto simp: settings_ok_def trigger_cpu_def track_def chaos_reset_def Let_def\<close>)

lemma exec_memory_cases:
  assumes "payload_ok x"
  obtains (same) "held (cstate (fst (chaos_exec x c p))) = held (cstate c)"
      "scheduled (cstate (fst (chaos_exec x c p))) = scheduled (cstate c)"
      "memory_bytes (cstate (fst (chaos_exec x c p))) = memory_bytes (cstate c)"
      "memory_blocks (cstate (fst (chaos_exec x c p))) = memory_blocks (cstate c)"
  | (trigger) cfg n where "x = TriggerMemory cfg" "0 \<le> n" "memory_bytes (cstate c) + n \<le> MEMORY_MAX_BYTES"
      "held (cstate (fst (chaos_exec x c p))) = held (cstate c)"
      "scheduled (cstate (fst (chaos_exec x c p))) = scheduled (cstate c) @ [n]"
      "memory_bytes (cstate (fst (chaos_exec x c p))) = memory_bytes (cstate c)"
      "memory_blocks (cstate (fst (chaos_exec x c p))) = memory_blocks (cstate c)"
  | (reset) "x = Reset" "held (cstate (fst (chaos_exec x c p))) = held (cstate c)"
      "scheduled (cstate (fst (chaos_exec x c p))) = scheduled (cstate c)"
      "memory_bytes (cstate (fst (chaos_exec x c p))) = 0" "memory_blocks (cstate (fst (chaos_exec x c p))) = []"
  | (task) i where "x = RunTask i"
proof (cases x)
  case (SetLatency cfg)
  show thesis by (rule same) (simp_all add: SetLatency set_latency_def held_def scheduled_def Let_def)
next
  case (SetErrors cfg)
  then obtain z where "pydiv (rate_percent cfg) (Fin 100) = Inr (Fin z)"
    using error_rate_range assms by auto
  then show thesis
    by (intro same) (simp_all add: SetErrors set_errors_def held_def scheduled_def Let_def)
next
  case (TriggerCpu cfg)
  show thesis by (rule same) (simp_all add: TriggerCpu trigger_cpu_def track_def held_def scheduled_def Let_def)
next
  case (TriggerMemory cfg)
  show thesis
  proof (cases "pytrunc (size_mb cfg * Fin 1024 * Fin 1024)")
    case (Inl e)
    then show thesis by (intro same) (simp_all add: TriggerMemory trigger_memory_def)
  next
    case (Inr n)
    show thesis
    proof (cases "MEMORY_MAX_BYTES < memory_bytes (cstate c) + n")
      case True
      then show thesis by (intro same) (simp_all add: TriggerMemory trigger_memory_def Inr)
    next
      case False
      then show thesis using memory_size_nonneg [OF _ Inr] assms
        by (intro trigger [of cfg n])
          (simp_all add: TriggerMemory trigger_memory_def Inr track_def held_def scheduled_def Let_def)
    qed
  qed
next
  case Reset
  show thesis by (rule reset) (simp_all add: Reset chaos_reset_def held_def scheduled_def Let_def)
next
  case Decide
  show thesis by (rule same) (simp_all add: Decide held_def scheduled_def)
qed (rule task)

lemma exec_memory_ok:
  assumes "memory_ok (cstate c)" "payload_ok x" shows "memory_ok (cstate (fst (chaos_exec x c p)))"
  using assms(2)
proof (cases rule: exec_memory_cases [where c = c and p = p])
  case (reset)
  have "0 \<le> sum_list (held (cstate c))" using assms(1) by (intro sum_list_nonneg) (auto simp: memory_ok_def)
  then show ?thesis using assms(1) reset by (auto simp: memory_ok_def)
next
  case (task i)
  then show ?thesis using run_task_memory_ok [OF assms(1)] by simp
qed (use assms(1) in \<open>auto simp: memory_ok_def\<close>)

lemma exec_exact:
  assumes "memory_ok (cstate c)" "memory_exact (cstate c)" "payload_ok x" "x \<noteq> Reset"
  shows "memory_exact (cstate (fst (chaos_exec x c p)))"
  using assms(3)
proof (cases rule: exec_memory_cases [where c = c and p = p])
  case (task i)
  then show ?thesis using run_task_exact [OF assms(1,2)] by simp
qed (use assms(2,4) in \<open>auto simp: memory_exact_def\<close>)

text \<open>A trigger is orderly when no earlier memory task is still waiting to start.\<close>

definition orderly :: "chaos_op \<Rightarrow> chaos_state \<Rightarrow> bool" where
  "orderly x s \<longleftrightarrow> x \<noteq> Reset \<and> (\<forall>cfg. x = TriggerMemory cfg \<longrightarrow> scheduled s = [])"

lemma exec_capped:
  assumes "memory_ok (cstate c)" "memory_capped (cstate c)" "payload_ok x" "orderly x (cstate c)"
  shows "memory_capped (cstate (fst (chaos_exec x c p)))"
  using assms(3)
proof (cases rule: exec_memory_cases [where c = c and p = p])
  case (task i)
  then show ?thesis using run_task_capped [OF assms(1,2)] by simp
qed (use assms(2,4) in \<open>auto simp: memory_capped_def orderly_def\<close>)

section \<open>Reachable states\<close>

lemma new_controller_inv:
  assumes "new_controller srv p0 = (c, p)"
  shows "settings_ok (cstate c)" "memory_ok (cstate c)" "memory_exact (cstate c)" "memory_capped (cstate c)"
  using assms
  by (auto simp: new_controller_def new_chaos_state_def settings_ok_def memory_ok_def memory_exact_def
      memory_capped_def held_def scheduled_def MEMORY_MAX_BYTES_def)

lemma reach_chaos_ok:
  "chaos_reach allowed_op srv c p \<Longrightarrow> settings_ok (cstate c) \<and> memory_ok (cstate c)"
proof (induction rule: chaos_reach.induct)
  case (exec c p x c' p')
  then show ?case using exec_settings [of c x p] exec_memory_ok [of c x p] by simp
qed (auto dest: new_controller_inv)

lemma reach_exact:
  assumes "\<And>s. \<not> allowed_op Reset s"
  shows "chaos_reach allowed_op srv c p \<Longrightarrow> memory_exact (cstate c)"
proof (induction rule: chaos_reach.induct)
  case (exec c p x c' p')
  then show ?case using exec_exact [of c x p] reach_chaos_ok [OF exec.hyps(1)] assms by (metis fst_conv)
qed (auto dest: new_controller_inv)

lemma reach_capped: "chaos_reach orderly srv c p \<Longrightarrow> memory_capped (cstate c)"
proof (induction rule: chaos_reach.induct)
  case (exec c p x c' p')
  then show ?case using exec_capped [of c x p] reach_chaos_ok [OF exec.hyps(1)] by (metis fst_conv)
qed (auto dest: new_controller_inv)

lemma record_event_log_calls [simp]: "last_gauge n l (calls (record_event src ev ds p)) = last_gauge n l (calls p)"
  by simp

text \<open>The last value set on a \<open>chaos_active\<close> gauge, and what the four gauges show: latency, errors and
  cpu their flags, memory whether \<open>memory_bytes\<close> is positive. The one exception is a memory task
  for less than a byte, which sets the gauge without adding to \<open>memory_bytes\<close>.\<close>

definition active_gauge :: "string \<Rightarrow> platform \<Rightarrow> int option" where
  "active_gauge t p = last_gauge ''chaos_active'' [(''type'', t)] (calls p)"

definition gauges_ok :: "chaos_state \<Rightarrow> platform \<Rightarrow> bool" where
  "gauges_ok s p \<longleftrightarrow>
     active_gauge ''latency'' p = Some (if latency_enabled s then 1 else 0) \<and>
     active_gauge ''errors'' p = Some (if error_enabled s then 1 else 0) \<and>
     active_gauge ''cpu'' p = Some (if cpu_running s then 1 else 0) \<and>
     (0 < memory_bytes s \<longrightarrow> active_gauge ''memory'' p = Some 1) \<and>
     (memory_bytes s = 0 \<and> 0 \<notin> set (held s) \<longrightarrow> active_gauge ''memory'' p = Some 0)"

text \<open>The CPU flag is set only while some burn runs; the converse fails where burns overlap.\<close>

definition cpu_flag_ok :: "chaos_state \<Rightarrow> bool" where
  "cpu_flag_ok s \<longleftrightarrow> (cpu_running s \<longrightarrow> (\<exists>d. CpuRunning d \<in> set (tasks s)))"

lemma active_gauge_emit [simp]:
  "active_gauge t (emit cs p) =
     (case last_gauge ''chaos_active'' [(''type'', t)] cs of Some v \<Rightarrow> Some v | None \<Rightarrow> active_gauge t p)"
  by (auto simp: active_gauge_def last_gauge_append split: option.split)

lemma active_gauge_record [simp]: "active_gauge t (record_event src ev ds p) = active_gauge t p"
  by (simp add: active_gauge_def)

lemma held_upd [simp]:
  "held (s\<lparr>latency_enabled := a\<rparr>) = held s" "held (s\<lparr>latency_seconds := b\<rparr>) = held s"
  "held (s\<lparr>error_enabled := a\<rparr>) = held s" "held (s\<lparr>error_rate := b\<rparr>) = held s"
  "held (s\<lparr>error_accumulator := b\<rparr>) = held s" "held (s\<lparr>cpu_running := a\<rparr>) = held s"
  "held (s\<lparr>memory_bytes := n\<rparr>) = held s" "held (s\<lparr>memory_blocks := ns\<rparr>) = held s"
  "held (snd (should_inject_error s)) = held s"
  by (simp_all add: held_def)

lemma held_track [simp]:
  "held (track (CpuScheduled d) s) = held s" "held (track (MemScheduled n h) s) = held s"
  by (simp_all add: held_def track_def)

text \<open>A state with the same flags and memory, and a platform on which the gauges were not set.\<close>

lemma gauges_ok_same:
  assumes "gauges_ok s p" "latency_enabled s' = latency_enabled s" "error_enabled s' = error_enabled s"
    "cpu_running s' = cpu_running s" "memory_bytes s' = memory_bytes s" "set (held s') = set (held s)"
    "\<And>t. active_gauge t p' = active_gauge t p"
  shows "gauges_ok s' p'"
  using assms by (simp add: gauges_ok_def)

lemma run_task_gauges:
  assumes "gauges_ok (cstate c) p" "memory_ok (cstate c)"
  shows "gauges_ok (cstate (fst (run_task i c p))) (snd (run_task i c p))"
proof (cases "i < length (tasks (cstate c))")
  case True
  let ?s = "cstate c"
  note put = tasks_put [OF True, of held_of] and drp = tasks_drop [OF True, of held_of]
  show ?thesis
  proof (cases "tasks ?s ! i")
    case (CpuScheduled d)
    define s1 where "s1 = ?s\<lparr>tasks := (tasks ?s)[i := CpuRunning d]\<rparr>"
    have "set (held s1) = set (held ?s)"
      using arg_cong [OF put [of "CpuRunning d"], of set_mset] CpuScheduled by (simp add: s1_def held_def)
    moreover have "run_task i c p = (c\<lparr>cstate := s1\<lparr>cpu_running := True\<rparr>\<rparr>, emit [set_active ''cpu'' 1] p)"
      using True CpuScheduled by (simp add: run_task_def run_cpu_start_def put_task_def s1_def)
    ultimately show ?thesis using assms(1) by (simp add: gauges_ok_def) (simp add: s1_def)
  next
    case (CpuRunning d)
    define s1 where "s1 = ?s\<lparr>tasks := take i (tasks ?s) @ drop (Suc i) (tasks ?s)\<rparr>"
    have "set (held s1) = set (held ?s)"
      using arg_cong [OF drp, of set_mset] CpuRunning by (simp add: s1_def held_def)
    moreover have "run_task i c p = (c\<lparr>cstate := s1\<lparr>cpu_running := False\<rparr>\<rparr>, emit [set_active ''cpu'' 0] p)"
      using True CpuRunning by (simp add: run_task_def run_cpu_finish_def drop_task_def s1_def)
    ultimately show ?thesis using assms(1) by (simp add: gauges_ok_def) (simp add: s1_def)
  next
    case (MemScheduled n h)
    define s1 where "s1 = ?s\<lparr>tasks := (tasks ?s)[i := MemHeld n], memory_blocks := memory_blocks ?s @ [n],
      memory_bytes := memory_bytes ?s + n\<rparr>"
    have "mset (held s1) = mset (held ?s) + {#n#}"
      using put [of "MemHeld n"] MemScheduled by (simp add: s1_def held_def)
    then have held: "set (held s1) = insert n (set (held ?s))" by (metis set_mset_add_mset_insert set_mset_mset add_mset_add_single)
    have "n \<in> set (scheduled ?s)"
      using MemScheduled nth_mem [OF True] by (force simp: scheduled_def)
    then have "0 \<le> n" "0 \<le> memory_bytes ?s" using assms(2) by (auto simp: memory_ok_def)
    moreover have "run_task i c p = (c\<lparr>cstate := s1\<rparr>, emit [set_active ''memory'' 1] p)"
      using True MemScheduled by (simp add: run_task_def run_memory_start_def put_task_def s1_def Let_def)
    ultimately show ?thesis using assms(1) held by (simp add: gauges_ok_def) (simp add: s1_def)
  next
    case (MemHeld n)
    define s1 where "s1 = ?s\<lparr>tasks := take i (tasks ?s) @ drop (Suc i) (tasks ?s),
      memory_blocks := remove1 n (memory_blocks ?s), memory_bytes := max 0 (memory_bytes ?s - n)\<rparr>"
    have "n \<in> set (held ?s)"
      using MemHeld nth_mem [OF True] by (force simp: held_def)
    then have "0 \<le> n" "0 \<le> memory_bytes ?s" using assms(2) by (auto simp: memory_ok_def)
    moreover have "run_task i c p =
        (c\<lparr>cstate := s1\<rparr>, if memory_bytes s1 \<le> 0 then emit [set_active ''memory'' 0] p else p)"
      using True MemHeld by (simp add: run_task_def run_memory_finish_def drop_task_def s1_def Let_def)
    ultimately show ?thesis using assms(1)
      by (cases "memory_bytes s1 \<le> 0") (simp_all add: gauges_ok_def, simp_all add: s1_def)
  qed
qed (use assms in \<open>simp add: run_task_def\<close>)

lemma trigger_memory_gauges:
  assumes "gauges_ok (cstate c) p"
  shows "gauges_ok (cstate (fst (snd (trigger_memory cfg c p)))) (snd (snd (trigger_memory cfg c p)))"
proof (cases "pytrunc (size_mb cfg * Fin 1024 * Fin 1024)")
  case (Inr n)
  show ?thesis
    by (rule gauges_ok_same [OF assms]) (simp_all add: trigger_memory_def Inr Let_def, simp_all add: track_def)
qed (use assms in \<open>simp add: trigger_memory_def\<close>)

lemma exec_gauges:
  assumes "gauges_ok (cstate c) p" "memory_ok (cstate c)" "payload_ok x"
  shows "gauges_ok (cstate (fst (chaos_exec x c p))) (snd (chaos_exec x c p))"
proof (cases x)
  case (SetLatency cfg)
  then show ?thesis using assms(1) by (simp add: gauges_ok_def set_latency_def Let_def)
next
  case (SetErrors cfg)
  then obtain z where z: "pydiv (rate_percent cfg) (Fin 100) = Inr (Fin z)"
    using error_rate_range assms(3) by auto
  then show ?thesis using assms(1) SetErrors
    by (cases "err_enable cfg") (simp_all add: gauges_ok_def set_errors_def Let_def)
next
  case (TriggerCpu cfg)
  show ?thesis
    by (rule gauges_ok_same [OF assms(1)]) (simp_all add: TriggerCpu trigger_cpu_def Let_def, simp_all add: track_def)
next
  case (TriggerMemory cfg)
  then show ?thesis using trigger_memory_gauges [OF assms(1)] by simp
next
  case Reset
  then show ?thesis using assms(1) by (simp add: gauges_ok_def chaos_reset_def Let_def)
next
  case Decide
  show ?thesis by (rule gauges_ok_same [OF assms(1)]) (simp_all add: Decide)
next
  case (RunTask i)
  then show ?thesis using run_task_gauges [OF assms(1,2)] by simp
qed

lemma exec_cpu_flag:
  assumes "cpu_flag_ok (cstate c)" "chaos_exec x c p = (c', p')"
  shows "cpu_flag_ok (cstate c')"
proof (cases x)
  case (RunTask i)
  show ?thesis
  proof (cases "i < length (tasks (cstate c))")
    case True
    have keeps: "CpuRunning d \<in> set (take i (tasks (cstate c)) @ drop (Suc i) (tasks (cstate c)))"
      if "CpuRunning d \<in> set (tasks (cstate c))" "tasks (cstate c) ! i \<noteq> CpuRunning d" for d
      using that id_split [OF True] by (metis Un_iff set_ConsD set_append)
    have "CpuRunning d \<in> set (take i (tasks (cstate c))) \<union> set (drop (Suc i) (tasks (cstate c)))"
      if "CpuRunning d \<in> set (tasks (cstate c))" "tasks (cstate c) ! i \<noteq> CpuRunning d" for d
      using keeps [OF that] by simp
    then show ?thesis using RunTask True assms
      by (cases "tasks (cstate c) ! i")
        (force simp: cpu_flag_ok_def run_task_def run_cpu_start_def run_cpu_finish_def run_memory_start_def
          run_memory_finish_def put_task_def drop_task_def upd_split Let_def)+
  qed (use RunTask assms in \<open>simp add: run_task_def\<close>)
qed (use assms in \<open>auto simp: cpu_flag_ok_def set_latency_def set_errors_def trigger_cpu_def trigger_memory_def track_def
  chaos_reset_def Let_def split: sum.splits if_splits\<close>)

lemma reach_gauges: "chaos_reach allowed_op srv c p \<Longrightarrow> gauges_ok (cstate c) p \<and> cpu_flag_ok (cstate c)"
proof (induction rule: chaos_reach.induct)
  case (start p0 c p)
  then show ?case by (auto simp: new_controller_def new_chaos_state_def gauges_ok_def cpu_flag_ok_def)
next
  case (exec c p x c' p')
  then show ?case using exec_gauges [of c p x] exec_cpu_flag [of c x p] reach_chaos_ok [OF exec.hyps(1)] by simp
qed (simp add: gauges_ok_def active_gauge_def)

section \<open>Properties\<close>

text \<open>
  C16. Error injection hits its rate. After \<open>POST /chaos/errors\<close> enables a rate of \<open>x\<close> percent, of any
  \<open>n\<close> consecutive decisions the number injected differs from \<open>n * x / 100\<close> by at most one, plus a
  rounding allowance of \<open>n * 2^-52\<close>.
\<close>

theorem injection_rate:
  assumes "error_config_ok cfg" "err_enable cfg" "rate_percent cfg = Fin x" "set_errors cfg c p = (res, c', p')"
  shows "\<bar>of_nat (fst (inject_run n (cstate c'))) - of_nat n * (x / 100)\<bar> \<le> 1 + of_nat n * 2 powi (- 52)"
proof -
  obtain z where z: "pydiv (rate_percent cfg) (Fin 100) = Inr (Fin z)" "0 \<le> z" "z \<le> 1"
    using error_rate_range [OF assms(1)] by metis
  have x: "0 \<le> x" "x \<le> 100" using assms(1,3) by (auto simp: error_config_ok_def)
  have s: "error_enabled (cstate c')" "error_rate (cstate c') = Fin z" "error_accumulator (cstate c') = Fin 0"
    using assms(2,4) z(1) by (auto simp: set_errors_def Let_def)
  have "round64 (x / 100) = Fin z" using z(1) assms(3) by simp
  then have zr: "z = round_rat (x / 100)" by (cases "x / 100" rule: round64_cases) auto
  have near: "\<bar>z - x / 100\<bar> \<le> 2 powi (- 53)"
    using round_rat_err_le [of "x / 100" 1] x by (simp add: zr)
  have two: "(2 powi (- 52) :: rat) = 2 powi (- 53) + 2 powi (- 53)" by (simp add: power_int_def power_one_over)
  have n: "of_nat n * \<bar>z - x / 100\<bar> \<le> (of_nat n :: rat) * 2 powi (- 53)" using near by (intro mult_left_mono) auto
  have "\<bar>of_nat n * z - of_nat n * (x / 100)\<bar> = of_nat n * \<bar>z - x / 100\<bar>"
    unfolding right_diff_distrib [symmetric] abs_mult abs_of_nat ..
  with n have drift: "\<bar>of_nat n * z - of_nat n * (x / 100)\<bar> \<le> of_nat n * 2 powi (- 53)" by simp
  have nn: "0 \<le> (of_nat n :: rat) * 2 powi (- 53)" by simp
  have split: "(of_nat n :: rat) * 2 powi (- 52) = of_nat n * 2 powi (- 53) + of_nat n * 2 powi (- 53)"
    unfolding two by (simp add: distrib_left)
  show ?thesis
  proof (cases "z = 0")
    case True
    have "should_inject_error (cstate c') = (False, cstate c')" using s True by (simp add: should_inject_error_def)
    then have "fst (inject_run n (cstate c')) = 0" by (induction n) (simp_all add: case_prod_beta)
    then show ?thesis using drift True nn split by simp
  next
    case False
    then have "injecting z 0 (cstate c')" using s z by (simp add: injecting_def)
    then obtain a where a: "injecting z a (snd (inject_run n (cstate c')))"
      "\<bar>of_nat (fst (inject_run n (cstate c'))) - (of_nat n * z + 0 - a)\<bar> \<le> of_nat n * 2 powi (- 53)"
      using inject_run_bound by blast
    have "0 \<le> a" "a \<le> 1" using a(1) by (auto simp: injecting_def)
    then show ?thesis using a(2) drift split by linarith
  qed
qed

theorem injection_rate_witness:
  "\<bar>of_nat (fst (inject_run 1000 (cstate (fst (snd (set_errors \<lparr>err_enable = True, rate_percent = Fin 10\<rparr>
      (fst (new_controller ''api'' (boot new_year))) (boot new_year))))))) - 100\<bar> \<le> (2 :: rat)"
proof -
  let ?cfg = "\<lparr>err_enable = True, rate_percent = Fin 10\<rparr>"
  obtain res c p where r: "set_errors ?cfg (fst (new_controller ''api'' (boot new_year))) (boot new_year) = (res, c, p)"
    by (metis prod_cases3)
  have "\<bar>of_nat (fst (inject_run 1000 (cstate c))) - of_nat 1000 * (10 / 100)\<bar> \<le> 1 + of_nat 1000 * (2 powi (- 52) :: rat)"
    by (rule injection_rate [OF _ _ _ r]) (simp_all add: error_config_ok_def)
  moreover have "of_nat 1000 * (2 powi (- 52) :: rat) \<le> 1" by (simp add: power_int_def power_one_over)
  ultimately show ?thesis using r by simp
qed

text \<open>
  Where the rate is a binary fraction the decisions are exactly the evenly spread (Bresenham)
  ones: of the first \<open>n\<close> decisions, exactly \<open>floor (n * rate)\<close> inject; at rate one, all do.
\<close>

lemma injection_exact:
  assumes "error_enabled s" "error_rate s = Fin r" "error_accumulator s = Fin 0" "0 < r" "r \<le> 1"
    and "on_grid q r" "q \<le> 52"
  shows "int (fst (inject_run n s)) = \<lfloor>of_nat n * r\<rfloor>"
  using inject_run_grid [of r 0 s q n] assms by (simp add: injecting_def)

lemma reach_new: "chaos_reach allowed_op srv (fst (new_controller srv p)) (snd (new_controller srv p))"
  by (rule chaos_reach.start [of srv p]) simp

text \<open>Runs of several steps, and that each step of a run is one \<open>allowed_op\<close> admits where it is taken.\<close>

fun exec_all :: "chaos_op list \<Rightarrow> chaos_controller \<times> platform \<Rightarrow> chaos_controller \<times> platform" where
  "exec_all [] cp = cp"
| "exec_all (x # xs) cp = exec_all xs (chaos_exec x (fst cp) (snd cp))"

fun admitted_run :: "(chaos_op \<Rightarrow> chaos_state \<Rightarrow> bool) \<Rightarrow> chaos_op list \<Rightarrow> chaos_controller \<times> platform \<Rightarrow> bool" where
  "admitted_run allowed_op [] cp = True"
| "admitted_run allowed_op (x # xs) cp =
     (allowed_op x (cstate (fst cp)) \<and> admitted_run allowed_op xs (chaos_exec x (fst cp) (snd cp)))"

lemma reach_exec_run:
  assumes "chaos_reach allowed_op srv c p" "list_all payload_ok xs" "admitted_run allowed_op xs (c, p)"
    "exec_all xs (c, p) = (c', p')"
  shows "chaos_reach allowed_op srv c' p'"
  using assms
proof (induction xs arbitrary: c p)
  case (Cons x xs)
  obtain c1 p1 where x: "chaos_exec x c p = (c1, p1)" by force
  have "chaos_reach allowed_op srv c1 p1"
    using Cons.prems(2,3) by (intro chaos_reach.exec [OF Cons.prems(1) _ _ x]) auto
  then show ?case using Cons.IH [of c1 p1] Cons.prems(2-4) x by simp
qed simp

lemma admitted_run_always: "(\<And>x s. x \<in> set xs \<Longrightarrow> allowed_op x s) \<Longrightarrow> admitted_run allowed_op xs cp"
  by (induction xs arbitrary: cp) auto

lemma reach_exec_all:
  assumes "chaos_reach allowed_op srv c p" "list_all payload_ok xs" "\<And>x s. x \<in> set xs \<Longrightarrow> allowed_op x s"
    "exec_all xs (c, p) = (c', p')"
  shows "chaos_reach allowed_op srv c' p'"
  using reach_exec_run [OF assms(1,2) admitted_run_always assms(4)] assms(3) by blast

definition full_block :: memory_config where
  "full_block = \<lparr>size_mb = Fin 256, hold_seconds = Fin 10\<rparr>"

definition half_block :: memory_config where
  "half_block = \<lparr>size_mb = Fin 128, hold_seconds = Fin 10\<rparr>"

lemma full_block_ok [simp]: "memory_config_ok full_block" "pytrunc (size_mb full_block * Fin 1024 * Fin 1024) = Inr 268435456"
  by (simp_all add: full_block_def memory_config_ok_def MEMORY_MAX_MB_def MEMORY_HOLD_MAX_SECONDS_def round64_exact)

lemma half_block_ok [simp]: "memory_config_ok half_block" "pytrunc (size_mb half_block * Fin 1024 * Fin 1024) = Inr 134217728"
  by (simp_all add: half_block_def memory_config_ok_def MEMORY_MAX_MB_def MEMORY_HOLD_MAX_SECONDS_def round64_exact)

lemmas chaos_eval = trigger_memory_def trigger_cpu_def chaos_reset_def run_task_def run_memory_start_def
  run_memory_finish_def run_cpu_start_def run_cpu_finish_def put_task_def drop_task_def track_def
  new_controller_def new_chaos_state_def MEMORY_MAX_BYTES_def held_def scheduled_def Let_def

text \<open>
  C28. In every reachable state, resets included: the injected latency is at most ten seconds and zero
  when disabled, the error rate is at most one and zero when disabled, the error accumulator stays in
  the unit interval, and the accounted memory is not negative, not more than what running tasks
  hold, and made of blocks they hold. The four \<open>chaos_active\<close> gauges show the controller's own
  state: latency, errors and cpu their flags, memory one while \<open>memory_bytes\<close> is positive and zero
  while it is zero and no block of zero bytes is held. The CPU flag is set only while a burn runs.
  (The flag can be down while an overlapping burn goes on, and the memory held can exceed the cap:
  neither is claimed here.)
\<close>

theorem chaos_bounds:
  assumes "chaos_reach allowed_op srv c p"
  shows "settings_ok (cstate c) \<and> memory_ok (cstate c) \<and> gauges_ok (cstate c) p \<and> cpu_flag_ok (cstate c)"
  using reach_chaos_ok [OF assms] reach_gauges [OF assms] by blast

definition busy_run :: "chaos_op list" where
  "busy_run = [SetLatency \<lparr>lat_enable = True, delay_seconds = Fin 10\<rparr>, TriggerMemory half_block,
     TriggerCpu \<lparr>duration_seconds = Fin 5\<rparr>, RunTask 0, RunTask 1]"

lemma busy_reach:
  assumes "exec_all busy_run (new_controller ''api'' (boot new_year)) = (c, p)"
  shows "chaos_reach (\<lambda>_ _. True) ''api'' c p"
  by (rule reach_exec_all [OF reach_new, of busy_run _ "''api''" "boot new_year"])
    (use assms in \<open>simp_all add: busy_run_def latency_config_ok_def LATENCY_MAX_SECONDS_def cpu_config_ok_def CPU_MAX_SECONDS_def\<close>)

theorem chaos_bounds_witness:
  "map (\<lambda>t. active_gauge t (snd (exec_all busy_run (new_controller ''api'' (boot new_year)))))
     [''latency'', ''errors'', ''cpu'', ''memory''] = [Some 1, Some 0, Some 1, Some 1]"
proof -
  obtain c p where r: "exec_all busy_run (new_controller ''api'' (boot new_year)) = (c, p)" by force
  have "gauges_ok (cstate c) p" using chaos_bounds [OF busy_reach [OF r]] by blast
  moreover have "latency_enabled (cstate c) \<and> \<not> error_enabled (cstate c) \<and> cpu_running (cstate c) \<and> 0 < memory_bytes (cstate c)"
    using arg_cong [OF r [symmetric], of "\<lambda>r. cstate (fst r)"] by (simp add: busy_run_def chaos_eval set_latency_def)
  ultimately show ?thesis using r by (simp add: gauges_ok_def)
qed

text \<open>
  C29. Memory accounting. As long as nobody resets, \<open>memory_bytes\<close> is exactly the sum of the blocks
  that running tasks hold, and \<open>_memory_blocks\<close> is exactly those blocks, however triggers,
  allocations and releases interleave.
\<close>

theorem memory_accounting:
  assumes "chaos_reach (\<lambda>x s. x \<noteq> Reset) srv c p"
  shows "memory_bytes (cstate c) = sum_list (held (cstate c)) \<and>
    mset (memory_blocks (cstate c)) = mset (held (cstate c))"
  using reach_exact [OF _ assms] by (simp add: memory_exact_def)

theorem memory_accounting_witness:
  "let xs = [TriggerMemory half_block, TriggerMemory half_block, RunTask 1, RunTask 0, RunTask 1];
       s = cstate (fst (exec_all xs (new_controller ''api'' (boot new_year))))
   in held s = [128 * 1024 * 1024] \<and> memory_bytes s = sum_list (held s)"
proof -
  let ?xs = "[TriggerMemory half_block, TriggerMemory half_block, RunTask 1, RunTask 0, RunTask 1]"
  obtain c p where r: "exec_all ?xs (new_controller ''api'' (boot new_year)) = (c, p)" by force
  have "chaos_reach (\<lambda>x s. x \<noteq> Reset) ''api'' c p"
    by (rule reach_exec_all [OF reach_new, of ?xs _ "''api''" "boot new_year"]) (use r in auto)
  then have "memory_bytes (cstate c) = sum_list (held (cstate c))" using memory_accounting by blast
  moreover have "held (cstate c) = [134217728]"
    using arg_cong [OF r [symmetric], of "\<lambda>r. cstate (fst r)"] by (simp add: chaos_eval)
  ultimately show ?thesis using r by (simp add: Let_def)
qed

text \<open>
  C30. The memory cap. If there is no reset and every memory task starts before the next trigger is
  handled, the memory held plus the memory still to be allocated never exceeds 256 MB.
\<close>

theorem memory_cap:
  assumes "chaos_reach orderly srv c p"
  shows "sum_list (held (cstate c)) + sum_list (scheduled (cstate c)) \<le> 256 * 1024 * 1024"
proof -
  have "memory_exact (cstate c)" by (rule reach_exact [OF _ assms]) (simp add: orderly_def)
  then show ?thesis using reach_capped [OF assms] by (simp add: memory_exact_def memory_capped_def MEMORY_MAX_BYTES_def)
qed


theorem memory_cap_witness:
  "let xs = [TriggerMemory half_block, RunTask 0, TriggerMemory half_block];
       s = cstate (fst (exec_all xs (new_controller ''api'' (boot new_year))))
   in held s = [128 * 1024 * 1024] \<and> scheduled s = [128 * 1024 * 1024] \<and>
      sum_list (held s) + sum_list (scheduled s) \<le> 256 * 1024 * 1024"
proof -
  let ?xs = "[TriggerMemory half_block, RunTask 0, TriggerMemory half_block]"
  obtain c p where r: "exec_all ?xs (new_controller ''api'' (boot new_year)) = (c, p)" by force
  have "chaos_reach orderly ''api'' c p"
    by (rule reach_exec_run [OF reach_new, of ?xs _ "''api''" "boot new_year"])
      (use r in \<open>simp_all add: orderly_def chaos_eval\<close>)
  then have "sum_list (held (cstate c)) + sum_list (scheduled (cstate c)) \<le> 256 * 1024 * 1024" by (rule memory_cap)
  moreover have "held (cstate c) = [134217728] \<and> scheduled (cstate c) = [134217728]"
    using arg_cong [OF r [symmetric], of "\<lambda>r. cstate (fst r)"] by (simp add: chaos_eval)
  ultimately show ?thesis using r by (simp add: Let_def)
qed

text \<open>
  C36. The cap is checked when a trigger is handled and the memory is taken when its task starts, so
  two triggers handled before the first task runs pass the check together: a state that holds
  512 MB is reachable with valid payloads and no reset.
\<close>

theorem memory_cap_race:
  "\<exists>c p. chaos_reach (\<lambda>x s. x \<noteq> Reset) ''api'' c p \<and> memory_bytes (cstate c) = 2 * MEMORY_MAX_BYTES \<and>
     sum_list (held (cstate c)) = 2 * MEMORY_MAX_BYTES"
proof -
  let ?xs = "[TriggerMemory full_block, TriggerMemory full_block, RunTask 0, RunTask 1]"
  obtain c p where r: "exec_all ?xs (new_controller ''api'' (boot new_year)) = (c, p)" by force
  have "chaos_reach (\<lambda>x s. x \<noteq> Reset) ''api'' c p"
    by (rule reach_exec_all [OF reach_new, of ?xs _ "''api''" "boot new_year"]) (use r in auto)
  moreover have "cstate c = new_chaos_state\<lparr>memory_bytes := 536870912, memory_blocks := [268435456, 268435456],
      tasks := [MemHeld 268435456, MemHeld 268435456]\<rparr>"
    using arg_cong [OF r, of "\<lambda>r. cstate (fst r)"] by (simp add: chaos_eval)
  ultimately show ?thesis by (auto simp: MEMORY_MAX_BYTES_def held_def)
qed

text \<open>
  C40. \<open>POST /chaos/reset\<close> stops the accounting, not the workloads: the tasks, their blocks and a
  running CPU burn stay, while \<open>memory_bytes\<close> is zero. From there the accounting is wrong for good:
  a state is reachable in which a task holds 256 MB and the service reports no active chaos.
\<close>

theorem reset_keeps_workloads:
  "held (cstate (fst (snd (chaos_reset c p)))) = held (cstate c) \<and>
   tasks (cstate (fst (snd (chaos_reset c p)))) = tasks (cstate c) \<and>
   cpu_running (cstate (fst (snd (chaos_reset c p)))) = cpu_running (cstate c) \<and>
   memory_bytes (cstate (fst (snd (chaos_reset c p)))) = 0 \<and>
   (\<exists>c p. chaos_reach (\<lambda>x s. True) ''api'' c p \<and> held (cstate c) = [MEMORY_MAX_BYTES] \<and> \<not> is_active (cstate c))"
proof -
  let ?xs = "[TriggerMemory full_block, RunTask 0, Reset]"
  obtain c p where r: "exec_all ?xs (new_controller ''api'' (boot new_year)) = (c, p)" by force
  have "chaos_reach (\<lambda>x s. True) ''api'' c p"
    by (rule reach_exec_all [OF reach_new, of ?xs _ "''api''" "boot new_year"]) (use r in auto)
  moreover have "cstate c = new_chaos_state\<lparr>tasks := [MemHeld 268435456]\<rparr>"
    using arg_cong [OF r, of "\<lambda>r. cstate (fst r)"] by (simp add: chaos_eval)
  then have "held (cstate c) = [MEMORY_MAX_BYTES] \<and> \<not> is_active (cstate c)"
    by (simp add: held_def MEMORY_MAX_BYTES_def is_active_def new_chaos_state_def)
  ultimately show ?thesis by (auto simp: chaos_reset_def held_def Let_def)
qed

text \<open>
  \<open>cpu_running\<close> is one flag for any number of CPU tasks: a state is reachable in which one burn is
  still running and the flag, the status and the gauge say that none is.
\<close>

lemma cpu_flag_drops_early:
  "\<exists>c p. chaos_reach (\<lambda>x s. x \<noteq> Reset) ''api'' c p \<and> tasks (cstate c) = [CpuRunning (Fin 30)] \<and>
     \<not> cpu_running (cstate c) \<and> last_gauge ''chaos_active'' [(''type'', ''cpu'')] (calls p) = Some 0"
proof -
  let ?cfg = "\<lambda>d. TriggerCpu \<lparr>duration_seconds = Fin d\<rparr>"
  let ?xs = "[?cfg 5, ?cfg 30, RunTask 0, RunTask 1, RunTask 0]"
  obtain c p where r: "exec_all ?xs (new_controller ''api'' (boot new_year)) = (c, p)" by force
  have "chaos_reach (\<lambda>x s. x \<noteq> Reset) ''api'' c p"
    by (rule reach_exec_all [OF reach_new, of ?xs _ "''api''" "boot new_year"])
      (use r in \<open>auto simp: cpu_config_ok_def CPU_MAX_SECONDS_def\<close>)
  moreover have "tasks (cstate c) = [CpuRunning (Fin 30)]" "\<not> cpu_running (cstate c)"
    using arg_cong [OF r [symmetric], of "\<lambda>r. cstate (fst r)"] by (simp_all add: chaos_eval)
  moreover have "last_gauge ''chaos_active'' [(''type'', ''cpu'')] (calls p) = Some 0"
    using arg_cong [OF r, of "\<lambda>r. last_gauge ''chaos_active'' [(''type'', ''cpu'')] (calls (snd r))"]
    by (simp add: chaos_eval last_gauge_append)
  ultimately show ?thesis by blast
qed

lemma cpu_burn_loop_returns:
  assumes "\<not> clock (i + n) < deadline" "\<forall>k < n. clock (i + k) < deadline"
  shows "cpu_burn_loop clock deadline i x = Some (x + int n)"
  using assms
proof (induction n arbitrary: i x)
  case 0
  then show ?case by (simp add: cpu_burn_loop.simps)
next
  case (Suc n)
  have "clock i < deadline" using Suc.prems(2) by (metis add.right_neutral zero_less_Suc)
  moreover have "cpu_burn_loop clock deadline (i + 1) (x + 1) = Some (x + 1 + int n)"
    using Suc.prems by (intro Suc.IH) (auto simp: less_Suc_eq_0_disj)
  ultimately show ?case by (simp add: cpu_burn_loop.simps [of clock deadline i x])
qed

text \<open>
  C34. The CPU burn ends: if some reading of the clock has reached the deadline, the loop returns, having
  spun exactly until the first such reading.
\<close>

theorem cpu_burn_terminates:
  assumes "\<not> clock m < deadline"
  shows "cpu_burn clock deadline = Some (int (LEAST n. \<not> clock n < deadline))"
proof -
  define n where "n = (LEAST n. \<not> clock n < deadline)"
  have "\<not> clock n < deadline" unfolding n_def using assms by (rule LeastI)
  moreover have "\<forall>k < n. clock k < deadline" unfolding n_def using not_less_Least by blast
  ultimately have "cpu_burn clock deadline = Some (int n)"
    using cpu_burn_loop_returns [of clock 0 n deadline 0] by (simp add: cpu_burn_def)
  then show ?thesis by (simp only: n_def)
qed

theorem cpu_burn_terminates_witness:
  "cpu_burn (\<lambda>i. Fin (of_nat i)) (Fin 3) = Some 3"
proof -
  have iff: "\<not> Fin (of_nat y) < Fin 3 \<longleftrightarrow> 3 \<le> y" for y :: nat
    using of_nat_le_iff [of 3 y, where ?'a = rat] by (simp add: not_less)
  have least: "(LEAST n :: nat. \<not> Fin (of_nat n) < Fin 3) = 3"
    unfolding iff by (intro Least_equality) auto
  have "\<not> Fin (of_nat 3) < Fin 3" by simp
  from cpu_burn_terminates [of "\<lambda>i. Fin (of_nat i)", OF this] show ?thesis unfolding least by simp
qed

end
