(* ===== verification/Middleware.thy ===== *)
theory Middleware
  imports CircuitBreaker RateLimiter Chaos
begin

text \<open>
  \<open>shared/autosre_shared/context.py\<close>, \<open>observability/middleware.py\<close>, \<open>observability/metrics.py\<close> and the
  middleware of \<open>resilience/rate_limiter.py\<close>, over the state of a whole service process. An ASGI
  application is a function from a request and the service state to an outcome; the request is
  returned because routing writes the matched route into the scope, which outer middleware reads.
\<close>

section \<open>The state of a service process\<close>

text \<open>\<open>request_id_var\<close> and \<open>correlation_id_var\<close> are the context variables as the running request sees
  them. \<open>limiter\<close> is the default limiter, the one the middleware took at start-up.\<close>

record service =
  plat :: platform
  breakers :: registry
  chaos :: chaos_controller
  limiter :: limiter
  request_id_var :: string
  correlation_id_var :: string

type_synonym app = "request \<Rightarrow> service \<Rightarrow> response result \<times> request \<times> service"

definition emit_s :: "metric_call list \<Rightarrow> service \<Rightarrow> service" where
  "emit_s cs sv = sv\<lparr>plat := emit cs (plat sv)\<rparr>"

lemma emit_s_sel [simp]:
  "plat (emit_s cs sv) = emit cs (plat sv)" "breakers (emit_s cs sv) = breakers sv" "chaos (emit_s cs sv) = chaos sv"
  "limiter (emit_s cs sv) = limiter sv" "request_id_var (emit_s cs sv) = request_id_var sv"
  "correlation_id_var (emit_s cs sv) = correlation_id_var sv"
  by (simp_all add: emit_s_def)

section \<open>Request context\<close>

definition get_request_id :: "service \<Rightarrow> string" where
  "get_request_id sv = request_id_var sv"

definition get_correlation_id :: "service \<Rightarrow> string" where
  "get_correlation_id sv = correlation_id_var sv"

definition propagation_headers :: "service \<Rightarrow> string dict" where
  "propagation_headers sv =
     (let cid = correlation_id_var sv
      in if cid \<noteq> [] \<and> cid \<noteq> ''-'' then [(''X-Correlation-ID'', cid)] else [])"

fun scope_header :: "(string \<times> string) list \<Rightarrow> string \<Rightarrow> string option" where
  "scope_header [] n = None"
| "scope_header ((key, value) # hs) n = (if key = n then Some value else scope_header hs n)"

definition append_headers :: "(string \<times> string) list \<Rightarrow> response \<Rightarrow> response" where
  "append_headers hs r = r\<lparr>headers := headers r @ hs\<rparr>"

definition header_or :: "request \<Rightarrow> string \<Rightarrow> string \<Rightarrow> string" where
  "header_or req n dflt = str_or (case scope_header (req_headers req) n of Some v \<Rightarrow> v | None \<Rightarrow> []) dflt"

text \<open>\<open>RequestContextMiddleware.__call__\<close> on an HTTP scope; \<open>fresh\<close> is what \<open>new_id()\<close> returns. A scope
  of another type is passed on untouched.\<close>

definition request_context :: "string \<Rightarrow> app \<Rightarrow> app" where
  "request_context fresh inner req sv =
     (let rid = header_or req ''x-request-id'' fresh;
          cid = header_or req ''x-correlation-id'' rid;
          (r, req', sv') = inner req (sv\<lparr>request_id_var := rid, correlation_id_var := cid\<rparr>);
          sv2 = sv'\<lparr>request_id_var := request_id_var sv, correlation_id_var := correlation_id_var sv\<rparr>
      in (case r of
            Inl x \<Rightarrow> Inl x
          | Inr resp \<Rightarrow> Inr (append_headers [(''x-request-id'', rid), (''x-correlation-id'', cid)] resp),
          req', sv2))"

section \<open>Security headers\<close>

definition SECURITY_HEADERS :: "(string \<times> string) list" where
  "SECURITY_HEADERS =
     [(''x-content-type-options'', ''nosniff''),
      (''x-frame-options'', ''DENY''),
      (''referrer-policy'', ''no-referrer''),
      (''permissions-policy'', ''geolocation=(), microphone=(), camera=()''),
      (''strict-transport-security'', ''max-age=31536000; includeSubDomains'')]"

definition CSP :: string where
  "CSP = ''default-src '' @ [CHR 0x27] @ ''none'' @ [CHR 0x27] @ ''; frame-ancestors '' @ [CHR 0x27] @ ''none'' @ [CHR 0x27]"

definition DOCS_PATHS :: "string list" where
  "DOCS_PATHS = [''/docs'', ''/redoc'', ''/openapi.json'']"

definition security_headers :: "app \<Rightarrow> app" where
  "security_headers inner req sv =
     (case inner req sv of
        (Inl x, req', sv') \<Rightarrow> (Inl x, req', sv')
      | (Inr resp, req', sv') \<Rightarrow>
          (Inr (append_headers
              (SECURITY_HEADERS @
               (if list_ex (\<lambda>d. startswith (req_path req) d) DOCS_PATHS then []
                else [(''content-security-policy'', CSP)])) resp), req', sv'))"

section \<open>RED metrics\<close>

definition route_label :: "request \<Rightarrow> string" where
  "route_label req = str_or (case route req of Some r \<Rightarrow> r | None \<Rightarrow> []) (req_path req)"

abbreviation (input) method_label :: "string \<Rightarrow> labels" where
  "method_label m \<equiv> [(''method'', m)]"

text \<open>The \<open>finally\<close> block of \<open>dispatch\<close>.\<close>

definition finish_request :: "string \<Rightarrow> pyfloat \<Rightarrow> request \<Rightarrow> service \<Rightarrow> service" where
  "finish_request status duration req sv =
     (let m = req_method req; endpoint = route_label req
      in emit_s [CounterInc ''http_requests_total'' [(''method'', m), (''endpoint'', endpoint), (''status'', status)],
                 Observe ''http_request_duration_seconds'' [(''method'', m), (''endpoint'', endpoint)] duration,
                 GaugeDec ''http_requests_in_progress'' (method_label m)] sv)"

text \<open>The request hook of the controller, run on the service; \<open>others\<close> acts while it sleeps.\<close>

definition chaos_hook ::
  "(service \<Rightarrow> service) \<Rightarrow> string \<Rightarrow> service \<Rightarrow> response option \<times> service" where
  "chaos_hook others path sv =
     (let act = (\<lambda>c p. let v = others (sv\<lparr>chaos := c, plat := p\<rparr>) in (chaos v, plat v));
          slept = (\<not> is_control path \<and> latency_enabled (cstate (chaos sv)) \<and> 0 < latency_seconds (cstate (chaos sv)));
          (injected, c, p) = apply_request_chaos act path (chaos sv) (plat sv)
      in (injected, (if slept then others sv else sv)\<lparr>chaos := c, plat := p\<rparr>))"

text \<open>\<open>PrometheusMiddleware.dispatch\<close>, between the readings \<open>t0\<close> and \<open>t1\<close> of the performance counter.\<close>

definition prometheus_dispatch ::
  "(service \<Rightarrow> service) \<Rightarrow> pyfloat \<Rightarrow> pyfloat \<Rightarrow> app \<Rightarrow> app" where
  "prometheus_dispatch others t0 t1 call_next req sv =
     (if req_path req = ''/metrics'' then call_next req sv
      else
        let m = req_method req;
            sv1 = emit_s [GaugeInc ''http_requests_in_progress'' (method_label m)] sv;
            duration = t1 - t0
        in case chaos_hook others (req_path req) sv1 of
             (Some injected, sv2) \<Rightarrow>
               (Inr injected, req, finish_request (int_str (status_code injected)) duration req sv2)
           | (None, sv2) \<Rightarrow>
               (case call_next req sv2 of
                  (Inr resp, req', sv3) \<Rightarrow>
                    (Inr resp, req', finish_request (int_str (status_code resp)) duration req' sv3)
                | (Inl x, req', sv3) \<Rightarrow>
                    (Inl x, req',
                     finish_request ''500'' duration req'
                       (if is_Exception x
                        then emit_s [CounterInc ''http_exceptions_total''
                               [(''method'', m), (''endpoint'', route_label req'), (''exception_type'', type_name x)]] sv3
                        else sv3))))"

section \<open>Rate limiting\<close>

text \<open>\<open>RateLimitMiddleware.dispatch\<close> at the clock reading \<open>now\<close>.\<close>

definition rate_limit_dispatch :: "pyfloat \<Rightarrow> app \<Rightarrow> app" where
  "rate_limit_dispatch now call_next req sv =
     (if excluded (req_path req) then call_next req sv
      else
        let key = client_key req
        in case check key now (limiter sv) (plat sv) of
             (Inl x, l, p) \<Rightarrow> (Inl x, req, sv\<lparr>limiter := l, plat := p\<rparr>)
           | (Inr result, l, p) \<Rightarrow>
               let sv1 = sv\<lparr>limiter := l, plat := p\<rparr>
               in if \<not> allowed result then
                    (case pyceil (retry_after result) of
                       Inl x \<Rightarrow> (Inl x, req, sv1)
                     | Inr c \<Rightarrow>
                         let retry = max 1 c
                         in (Inr (JSONResponse 429
                                (JObj [(''detail'', JStr ''rate limit exceeded''), (''retry_after'', JInt retry)])
                                [(''Retry-After'', int_str retry)]), req,
                             sv1\<lparr>plat := record_event Source_RATE_LIMIT ''rejected''
                               [(''client'', JStr key), (''path'', JStr (req_path req)), (''retry_after'', JInt retry)]
                               (plat sv1)\<rparr>))
                  else call_next req sv1)"

section \<open>RED metrics of one request\<close>

fun metric_name :: "metric_call \<Rightarrow> string" where
  "metric_name (CounterInc n l) = n"
| "metric_name (GaugeSet n l v) = n"
| "metric_name (GaugeInc n l) = n"
| "metric_name (GaugeDec n l) = n"
| "metric_name (Observe n l v) = n"
| "metric_name (Touch n l) = n"

text \<open>The calls on the request counters and the in-progress gauge.\<close>

definition red_calls :: "service \<Rightarrow> metric_call list" where
  "red_calls sv = filter (\<lambda>c. metric_name c \<in> set [''http_requests_total'', ''http_requests_in_progress'',
     ''http_exceptions_total'']) (calls (plat sv))"

lemma red_calls_emit [simp]:
  "red_calls (emit_s cs sv) = red_calls sv @ filter (\<lambda>c. metric_name c \<in> set [''http_requests_total'',
     ''http_requests_in_progress'', ''http_exceptions_total'']) cs"
  by (simp add: red_calls_def)

text \<open>What inner layers and concurrent activity leave alone.\<close>

definition red_quiet :: "app \<Rightarrow> bool" where
  "red_quiet a \<longleftrightarrow> (\<forall>req sv. case a req sv of (r, req', sv') \<Rightarrow>
     req_method req' = req_method req \<and> red_calls sv' = red_calls sv)"

lemma red_quietD: "red_quiet a \<Longrightarrow> a req sv = (r, req', sv') \<Longrightarrow> req_method req' = req_method req \<and> red_calls sv' = red_calls sv"
  unfolding red_quiet_def by (metis (mono_tags, lifting) case_prod_conv)

lemma chaos_hook_red:
  assumes "\<And>v. red_calls (others v) = red_calls v"
  shows "red_calls (snd (chaos_hook others path sv)) = red_calls sv"
proof -
  have o1: "filter P (calls (plat (others v))) = filter P (calls (plat v))"
    if "P = (\<lambda>c. metric_name c \<in> set [''http_requests_total'', ''http_requests_in_progress'', ''http_exceptions_total''])" for P v
    using assms [of v] unfolding red_calls_def that .
  show ?thesis
    by (simp add: chaos_hook_def apply_request_chaos_def red_calls_def Let_def case_prod_beta o1 [OF refl, simplified])
qed

lemma red_sequence:
  assumes "req_path req \<noteq> ''/metrics''" "red_quiet call_next" "\<And>v. red_calls (others v) = red_calls v"
    and "prometheus_dispatch others t0 t1 call_next req sv = (r, req', sv')"
  shows "red_calls sv' = red_calls sv @
     [GaugeInc ''http_requests_in_progress'' [(''method'', req_method req)]] @
     (case r of Inl x \<Rightarrow>
        if is_Exception x
        then [CounterInc ''http_exceptions_total'' [(''method'', req_method req), (''endpoint'', route_label req'),
                (''exception_type'', type_name x)]]
        else [] | Inr resp \<Rightarrow> []) @
     [CounterInc ''http_requests_total'' [(''method'', req_method req), (''endpoint'', route_label req'),
        (''status'', case r of Inl x \<Rightarrow> ''500'' | Inr resp \<Rightarrow> int_str (status_code resp))],
      GaugeDec ''http_requests_in_progress'' [(''method'', req_method req)]]"
proof -
  let ?sv1 = "emit_s [GaugeInc ''http_requests_in_progress'' [(''method'', req_method req)]] sv"
  obtain inj sv2 where h: "chaos_hook others (req_path req) ?sv1 = (inj, sv2)" by force
  have red: "red_calls sv2 = red_calls sv @ [GaugeInc ''http_requests_in_progress'' [(''method'', req_method req)]]"
    using chaos_hook_red [OF assms(3), of "req_path req" ?sv1] h by simp
  show ?thesis
  proof (cases inj)
    case None
    obtain r1 req1 sv3 where c: "call_next req sv2 = (r1, req1, sv3)" by (metis prod_cases3)
    have q: "req_method req1 = req_method req" "red_calls sv3 = red_calls sv2"
      using red_quietD [OF assms(2) c] by auto
    show ?thesis using assms(1,4) h None c q red
      by (cases r1) (auto simp: prometheus_dispatch_def finish_request_def Let_def)
  next
    case (Some resp)
    then show ?thesis using assms(1,4) h red
      by (auto simp: prometheus_dispatch_def finish_request_def Let_def)
  qed
qed

section \<open>Properties\<close>

definition demo_request :: "string \<Rightarrow> request" where
  "demo_request path = \<lparr>req_method = ''GET'', req_path = path, req_headers = [], client_host = Some ''10.0.0.1'', route = None\<rparr>"

definition demo_service :: service where
  "demo_service = \<lparr>plat = boot new_year, breakers = [], chaos = \<lparr>csrv = ''api'', cstate = new_chaos_state\<rparr>,
     limiter = new_limiter (Fin 10) (Fin 20), request_id_var = ''-'', correlation_id_var = ''-''\<rparr>"

text \<open>An application that always answers the same, without side effects.\<close>

definition const_app :: "response result \<Rightarrow> app" where
  "const_app r = (\<lambda>req sv. (r, req, sv))"

lemma const_app_quiet [simp]: "red_quiet (const_app r)"
  by (simp add: red_quiet_def const_app_def)

text \<open>
  Request context. The inner application runs with the caller's request and correlation ids, or
  with a fresh request id, the correlation id defaulting to the request id; the response carries
  both; and the context variables are restored whether the application answers or raises.
\<close>

lemma request_context_ids:
  assumes "request_context fresh inner req sv = (r, req', sv')"
  defines "rid \<equiv> header_or req ''x-request-id'' fresh"
  defines "cid \<equiv> header_or req ''x-correlation-id'' rid"
  shows "request_id_var sv' = request_id_var sv \<and> correlation_id_var sv' = correlation_id_var sv \<and>
    (case fst (inner req (sv\<lparr>request_id_var := rid, correlation_id_var := cid\<rparr>)) of
       Inl x \<Rightarrow> r = Inl x
     | Inr resp \<Rightarrow> r = Inr (resp\<lparr>headers := headers resp @ [(''x-request-id'', rid), (''x-correlation-id'', cid)]\<rparr>)) \<and>
    (fresh \<noteq> [] \<longrightarrow> rid \<noteq> [] \<and> cid \<noteq> [])"
proof -
  let ?sv = "sv\<lparr>request_id_var := rid, correlation_id_var := cid\<rparr>"
  obtain r1 q1 s1 where i: "inner req ?sv = (r1, q1, s1)" by (metis prod_cases3)
  have ids: "fresh \<noteq> [] \<Longrightarrow> rid \<noteq> [] \<and> cid \<noteq> []" by (auto simp: rid_def cid_def header_or_def str_or_def)
  have "request_context fresh inner req sv =
      (case r1 of Inl x \<Rightarrow> Inl x
       | Inr resp \<Rightarrow> Inr (append_headers [(''x-request-id'', rid), (''x-correlation-id'', cid)] resp), q1,
       s1\<lparr>request_id_var := request_id_var sv, correlation_id_var := correlation_id_var sv\<rparr>)"
    unfolding request_context_def Let_def rid_def [symmetric] cid_def [symmetric] i by simp
  then show ?thesis using assms(1) i ids by (auto simp: append_headers_def split: sum.splits)
qed

text \<open>
  Security headers. Every response that passes the middleware carries the five fixed headers, and
  the content security policy exactly when the path is not one of the documentation pages; status,
  body and the inner headers are unchanged.
\<close>

lemma security_headers_present:
  assumes "security_headers inner req sv = (Inr resp, req', sv')"
  shows "\<exists>resp0. inner req sv = (Inr resp0, req', sv') \<and> status_code resp = status_code resp0 \<and> body resp = body resp0 \<and>
    headers resp = headers resp0 @ SECURITY_HEADERS @
      (if startswith (req_path req) ''/docs'' \<or> startswith (req_path req) ''/redoc'' \<or>
          startswith (req_path req) ''/openapi.json'' then [] else [(''content-security-policy'', CSP)]) \<and>
    length SECURITY_HEADERS = 5"
  using assms
  by (auto simp: security_headers_def append_headers_def DOCS_PATHS_def SECURITY_HEADERS_def
      split: prod.splits sum.splits)

section \<open>The rate limit middleware\<close>

lemma check_mem:
  assumes "bops l = bucket_mem_ops" "take_token key now (bstore l) = (Inr res, s)"
  shows "check key now l p = (Inr res, l\<lparr>bstore := s\<rparr>,
    emit (CounterInc ''rate_limit_requests_total'' [] #
          (if allowed res then [] else [CounterInc ''rate_limit_rejections_total'' []])) p)"
  using assms by (simp add: check_def bucket_mem_ops_def Let_def)

text \<open>A sequence of requests through the middleware, each with its clock reading: for every request
  the state it met and what the middleware returned.\<close>

fun through_limiter :: "app \<Rightarrow> (request \<times> pyfloat) list \<Rightarrow> service \<Rightarrow>
    (request \<times> service \<times> response result \<times> request \<times> service) list" where
  "through_limiter inner [] sv = []"
| "through_limiter inner ((req, now) # qs) sv =
     (let out = rate_limit_dispatch now inner req sv in (req, sv, out) # through_limiter inner qs (snd (snd out)))"

definition too_many :: "int \<Rightarrow> response" where
  "too_many c = JSONResponse 429
     (JObj [(''detail'', JStr ''rate limit exceeded''), (''retry_after'', JInt c)]) [(''Retry-After'', int_str c)]"

text \<open>What a verdict of the bucket asks of the middleware: an allowed request is handed to the
  application, in the state the limiter has counted it in, and the application's own outcome is
  returned; a denied one is answered 429 with the wait, and the application is not called.\<close>

fun limited_as :: "app \<Rightarrow> request \<times> service \<times> response result \<times> request \<times> service \<Rightarrow>
    string \<times> rate_limit_result result \<Rightarrow> bool" where
  "limited_as inner (req, sv, out) (k, Inl e) = False"
| "limited_as inner (req, sv, out) (k, Inr res) = (k = client_key req \<and> (\<exists>s.
     if allowed res
     then out = inner req (sv\<lparr>limiter := (limiter sv)\<lparr>bstore := s\<rparr>,
       plat := emit [CounterInc ''rate_limit_requests_total'' []] (plat sv)\<rparr>)
     else \<exists>c p. pyceil (retry_after res) = Inr c \<and>
       out = (Inr (too_many (max 1 c)), req, sv\<lparr>limiter := (limiter sv)\<lparr>bstore := s\<rparr>, plat := p\<rparr>)))"

definition is_429 :: "response result \<Rightarrow> bool" where
  "is_429 r \<longleftrightarrow> (case r of Inr resp \<Rightarrow> status_code resp = 429 | Inl _ \<Rightarrow> False)"

lemma dispatch_allowed:
  assumes "\<not> excluded (req_path req)" "bops (limiter sv) = bucket_mem_ops"
    "take_token (client_key req) now (bstore (limiter sv)) = (Inr res, s)" "allowed res"
  shows "rate_limit_dispatch now inner req sv =
    inner req (sv\<lparr>limiter := (limiter sv)\<lparr>bstore := s\<rparr>, plat := emit [CounterInc ''rate_limit_requests_total'' []] (plat sv)\<rparr>)"
  using assms check_mem [OF assms(2,3)] by (simp add: rate_limit_dispatch_def Let_def)

lemma dispatch_denied:
  assumes "\<not> excluded (req_path req)" "bops (limiter sv) = bucket_mem_ops"
    "take_token (client_key req) now (bstore (limiter sv)) = (Inr res, s)" "\<not> allowed res"
    "pyceil (retry_after res) = Inr c"
  shows "rate_limit_dispatch now inner req sv =
    (Inr (JSONResponse 429 (JObj [(''detail'', JStr ''rate limit exceeded''), (''retry_after'', JInt (max 1 c))])
        [(''Retry-After'', int_str (max 1 c))]), req,
     sv\<lparr>limiter := (limiter sv)\<lparr>bstore := s\<rparr>,
        plat := record_event Source_RATE_LIMIT ''rejected''
          [(''client'', JStr (client_key req)), (''path'', JStr (req_path req)), (''retry_after'', JInt (max 1 c))]
          (emit [CounterInc ''rate_limit_requests_total'' [], CounterInc ''rate_limit_rejections_total'' []] (plat sv))\<rparr>)"
  using assms check_mem [OF assms(2,3)] by (simp add: rate_limit_dispatch_def Let_def)

lemma denied_retry_finite:
  assumes "store_ok r b t s" "0 < r" "t \<le> now" "take_token k (Fin now) s = (Inr res, s')" "\<not> allowed res"
    and "r \<ge> 1 / 2 ^ 1000"
  shows "\<exists>c. pyceil (retry_after res) = Inr c"
proof -
  obtain a where a: "available k (Fin now) s = Fin a" "0 \<le> a" using available_range [OF assms(1,3)] by metis
  have rps: "bk_rps s = Fin r" using assms(1) by (simp add: store_ok_def limits_ok_def)
  from assms(4,5) have d: "pydiv (Fin 1 - Fin a) (Fin r) = Inr (retry_after res)" "\<not> 1 \<le> a"
    using a rps assms(2) by (cases k "Fin now" s rule: consume_cases; auto)+
  have "Fin 0 \<le> round64 (1 - a)" "round64 (1 - a) \<le> Fin 1"
    using d(2) a(2) by (auto intro!: round64_ge_Fin round64_le_Fin)
  then obtain y where y: "round64 (1 - a) = Fin y" "0 \<le> y" "y \<le> 1" by (cases "round64 (1 - a)") auto
  have "1 \<le> r * 2 ^ 1000" using assms(6) by (simp add: field_simps)
  then have "y \<le> 2 ^ 1000 * r" using y(3) by (simp add: mult.commute)
  then have "y / r \<le> 2 ^ 1000" using assms(2) by (simp add: divide_le_eq)
  moreover have "rep64 (2 ^ 1000)" "\<bar>2 ^ 1000 :: rat\<bar> < f64_lim"
    using rep64_pow2 [of 1000] by (simp_all add: power_int_def f64_lim_def)
  ultimately have "round64 (y / r) \<le> Fin (2 ^ 1000)" by (intro round64_le_Fin)
  moreover have "Fin 0 \<le> round64 (y / r)" using y(2) assms(2) by (intro round64_ge_Fin) auto
  moreover have "retry_after res = round64 (y / r)" using d(1) y(1) assms(2) by auto
  ultimately show ?thesis by (cases "round64 (y / r)") auto
qed

definition at_times :: "(request \<times> rat) list \<Rightarrow> (request \<times> pyfloat) list" where
  "at_times qs = map (\<lambda>(req, t). (req, Fin t)) qs"

definition keys_of :: "(request \<times> rat) list \<Rightarrow> (string \<times> rat) list" where
  "keys_of qs = map (\<lambda>(req, t). (client_key req, t)) qs"

lemma dispatch_limited:
  assumes "1 / 2 ^ 1000 \<le> r" "store_ok r b t (bstore (limiter sv))" "bops (limiter sv) = bucket_mem_ops" "t \<le> u"
    and "\<not> excluded (req_path req)" "take_token (client_key req) (Fin u) (bstore (limiter sv)) = (Inr res, s)"
  shows "limited_as inner (req, sv, rate_limit_dispatch (Fin u) inner req sv) (client_key req, Inr res)"
    and "(\<And>req sv. limiter (snd (snd (inner req sv))) = limiter sv) \<Longrightarrow>
      limiter (snd (snd (rate_limit_dispatch (Fin u) inner req sv))) = (limiter sv)\<lparr>bstore := s\<rparr>"
proof -
  have pos: "0 < r" using assms(1) by (rule less_le_trans [rotated]) simp
  have fin: "\<exists>c. pyceil (retry_after res) = Inr c" if "\<not> allowed res"
    using denied_retry_finite [OF assms(2) pos assms(4,6) that assms(1)] .
  show "limited_as inner (req, sv, rate_limit_dispatch (Fin u) inner req sv) (client_key req, Inr res)"
    using fin dispatch_allowed [OF assms(5,3,6), of inner] dispatch_denied [OF assms(5,3,6), of _ inner]
    by (cases "allowed res") (auto simp: too_many_def)
  show "limiter (snd (snd (rate_limit_dispatch (Fin u) inner req sv))) = (limiter sv)\<lparr>bstore := s\<rparr>"
    if "\<And>req sv. limiter (snd (snd (inner req sv))) = limiter sv"
    using fin that dispatch_allowed [OF assms(5,3,6), of inner] dispatch_denied [OF assms(5,3,6), of _ inner]
    by (cases "allowed res") auto
qed

lemma through_limiter_answers:
  assumes "\<And>req sv. limiter (snd (snd (inner req sv))) = limiter sv"
    and "1 / 2 ^ 1000 \<le> r"
    and "store_ok r b t (bstore (limiter sv))" "bops (limiter sv) = bucket_mem_ops" "sorted (t # map snd qs)"
    and "list_all (\<lambda>(req, u). \<not> excluded (req_path req)) qs"
  shows "list_all2 (limited_as inner) (through_limiter inner (at_times qs) sv)
    (serve take_token (stamped (keys_of qs)) (bstore (limiter sv)))"
  using assms(3-)
proof (induction qs arbitrary: sv t)
  case Nil
  then show ?case by (simp add: at_times_def keys_of_def)
next
  case (Cons q qs)
  obtain req u where q: "q = (req, u)" by force
  let ?k = "client_key req" and ?s = "bstore (limiter sv)"
  have tu: "t \<le> u" and ex: "\<not> excluded (req_path req)" using Cons.prems(3,4) q by auto
  have ok: "store_ok r b u (snd (take_token ?k (Fin u) ?s))"
    and "\<exists>res. fst (take_token ?k (Fin u) ?s) = Inr res"
    using consume_store_ok [OF Cons.prems(1) tu] by blast+
  then obtain res s' where tk: "take_token ?k (Fin u) ?s = (Inr res, s')" by (metis prod.collapse)
  let ?sv = "snd (snd (rate_limit_dispatch (Fin u) inner req sv))"
  note step = dispatch_limited [OF assms(2) Cons.prems(1,2) tu ex tk, of inner]
  have lim: "limiter ?sv = (limiter sv)\<lparr>bstore := s'\<rparr>" using step(2) assms(1) by blast
  have "list_all2 (limited_as inner) (through_limiter inner (at_times qs) ?sv) (serve take_token (stamped (keys_of qs)) s')"
    using Cons.IH [of u ?sv] ok tk lim Cons.prems(2-4) q by simp
  then show ?case using q tk step(1) by (simp add: at_times_def keys_of_def Let_def del: limited_as.simps)
qed

text \<open>
  C2. The middleware enforces the buckets: for any sequence of requests on limited (not excluded) paths,
  a fresh limiter with a rate of at least \<open>2\<^sup>-\<^sup>1\<^sup>0\<^sup>0\<^sup>0\<close> per second and a clock that does not run
  backwards, a request the token bucket of its client allows is handed to the application, whose
  outcome is returned as it is, and a request the bucket denies is answered 429 with the wait rounded
  up to at least one second, without the application being called. So the bounds proved for the
  bucket are bounds on the traffic the application sees.
\<close>

theorem limiter_enforced:
  assumes "\<And>req sv. limiter (snd (snd (inner req sv))) = limiter sv"
    and "1 / 2 ^ 1000 \<le> r" "0 \<le> b" "rep64 b" "b < f64_lim" "limiter sv = new_limiter (Fin r) (Fin b)"
    and "sorted (map snd qs)" "list_all (\<lambda>(req, t). \<not> excluded (req_path req)) qs"
  shows "list_all2 (limited_as inner) (through_limiter inner (at_times qs) sv)
    (serve take_token (stamped (keys_of qs)) (bucket_mem_new (Fin r) (Fin b)))"
proof (cases qs)
  case Nil
  then show ?thesis by (simp add: at_times_def keys_of_def)
next
  case (Cons q qs')
  have "0 \<le> r" using assms(2) by (rule order_trans [rotated]) simp
  then have "store_ok r b (snd q) (bstore (limiter sv))" using new_store_ok assms(3-6) by (simp add: new_limiter_def)
  moreover have "sorted (snd q # map snd qs)" using assms(7) Cons by simp
  ultimately show ?thesis
    using through_limiter_answers [OF assms(1,2), of b "snd q" sv qs] assms(6,8) by (simp add: new_limiter_def)
qed

lemma orders_not_excluded: "\<not> excluded ''/orders''"
  by code_simp

text \<open>For an application that never answers 429 itself, the answers 429 are the denials.\<close>

lemma is_429_too_many [simp]: "is_429 (Inr (too_many c))"
  by (simp add: is_429_def too_many_def)

lemma limited_as_429:
  assumes "limited_as inner x v" "\<And>req sv. \<not> is_429 (fst (inner req sv))"
  shows "is_429 (fst (snd (snd x))) \<longleftrightarrow> \<not> is_allowed (snd v)"
proof (cases "(inner, x, v)" rule: limited_as.cases)
  case (2 inner req sv out k res)
  then show ?thesis using assms by (cases "allowed res") (auto simp: is_allowed_def)
qed (use assms in auto)

lemma limited_429_count:
  assumes "list_all2 (limited_as inner) xs vs" "\<And>req sv. \<not> is_429 (fst (inner req sv))"
  shows "length (filter (\<lambda>x. is_429 (fst (snd (snd x)))) xs) = length (filter (\<lambda>v. \<not> is_allowed (snd v)) vs)"
  using assms(1) by (induction rule: list_all2_induct) (auto simp: limited_as_429 [OF _ assms(2)])

theorem limiter_enforced_witness:
  "length (filter (\<lambda>x. is_429 (fst (snd (snd x)))) (through_limiter (const_app (Inr (JSONResponse 200 JNull [])))
      (at_times (replicate 25 (demo_request ''/orders'', 7))) demo_service)) = 5"
proof -
  let ?qs = "replicate 25 (demo_request ''/orders'', 7 :: rat)" and ?app = "const_app (Inr (JSONResponse 200 JNull []))"
  let ?s = "bucket_mem_new (Fin 10) (Fin 20)" and ?k = "client_key (demo_request ''/orders'')"
  let ?a = "serve take_token (replicate 25 (?k, Fin 7)) ?s"
  have small: "(1 :: rat) / 2 ^ 1000 \<le> 10" by (simp add: divide_le_eq)
  have ks: "stamped (keys_of ?qs) = replicate 25 (?k, Fin 7)" by (simp add: keys_of_def stamped_def)
  have "list_all2 (limited_as ?app) (through_limiter ?app (at_times ?qs) demo_service) ?a"
    unfolding ks [symmetric]
    by (rule limiter_enforced)
      (use small orders_not_excluded in \<open>simp_all add: const_app_def demo_service_def list_all_length demo_request_def\<close>)
  then have eq: "length (filter (\<lambda>x. is_429 (fst (snd (snd x)))) (through_limiter ?app (at_times ?qs) demo_service)) =
      length (filter (\<lambda>v. \<not> is_allowed (snd v)) ?a)"
    by (rule limited_429_count) (simp add: const_app_def is_429_def)
  have keys: "fst x = ?k" if "x \<in> set (serve take_token (replicate n (?k, Fin 7)) s)" for n s x
    using that by (induction n arbitrary: s) auto
  have len: "length (serve take_token (replicate n (?k, Fin 7)) s) = n" for n s by (induction n arbitrary: s) auto
  have "length (filter (\<lambda>(k', r). k' = ?k \<and> is_allowed r) ?a) = 20"
    using admitted_burst [of ?s ?k 10 20 25 7] by (simp add: admitted_def bucket_mem_new_def)
  moreover have "filter (\<lambda>(k', r). k' = ?k \<and> is_allowed r) ?a = filter (\<lambda>v. is_allowed (snd v)) ?a"
    by (rule filter_cong) (use keys in auto)
  ultimately show ?thesis
    using eq sum_length_filter_compl [of "\<lambda>v. is_allowed (snd v)" ?a] len [of 25 ?s] by simp
qed

text \<open>
  C38. With a rate of zero (or less) a denied request is not answered 429: the retry time is infinite,
  \<open>math.ceil\<close> raises \<open>OverflowError\<close> and the request fails.
\<close>

theorem zero_rate_raises:
  assumes "\<not> excluded (req_path req)" "bops (limiter sv) = bucket_mem_ops" "bk_rps (bstore (limiter sv)) = Fin r" "r \<le> 0"
    and "\<not> Fin 1 \<le> available (client_key req) now (bstore (limiter sv))"
  shows "fst (rate_limit_dispatch now inner req sv) = Inl int_overflow"
proof -
  let ?s = "bstore (limiter sv)"
  obtain res s where tk: "take_token (client_key req) now ?s = (Inr res, s)" "\<not> allowed res" "retry_after res = PInf"
    by (cases "client_key req" now ?s rule: consume_cases) (use assms(3-5) in auto)
  then show ?thesis using assms(1) check_mem [OF assms(2) tk(1)] by (simp add: rate_limit_dispatch_def Let_def)
qed

theorem zero_rate_raises_witness:
  "fst (rate_limit_dispatch (Fin 5) (const_app (Inr (JSONResponse 200 JNull []))) (demo_request ''/orders'')
     (demo_service\<lparr>limiter := new_limiter (Fin 0) (Fin 0)\<rparr>)) = Inl int_overflow"
  using zero_rate_raises [of "demo_request ''/orders''" "demo_service\<lparr>limiter := new_limiter (Fin 0) (Fin 0)\<rparr>" 0 "Fin 5"
      "const_app (Inr (JSONResponse 200 JNull []))"] orders_not_excluded
  by (simp add: demo_request_def new_limiter_def bucket_mem_new_def available_def dict_get_def pymin_def)

section \<open>Control paths\<close>

lemma control_excluded: "is_control path \<Longrightarrow> excluded path"
  by (auto simp: is_control_def excluded_def CONTROL_PATHS_def EXCLUDE_EXACT_def CONTROL_PREFIXES_def EXCLUDE_PREFIXES_def)

lemma control_no_chaos: "is_control path \<Longrightarrow> chaos_hook others path sv = (None, sv)"
  by (simp add: chaos_hook_def apply_request_chaos_def)

end
