(* ===== verification/Endpoints.thy ===== *)
theory Endpoints
  imports Middleware
begin

text \<open>
  \<open>observability/endpoints.py\<close>, the system endpoints \<open>/health\<close>, \<open>/ready\<close> and \<open>/metrics\<close>, and
  \<open>envcheck.py\<close>, the validation of the process environment.
\<close>

section \<open>System endpoints\<close>

text \<open>\<open>bool(x)\<close> on the values a readiness check can return.\<close>

fun truthy :: "json \<Rightarrow> bool" where
  "truthy JNull = False"
| "truthy (JBool b) = b"
| "truthy (JInt i) = (i \<noteq> 0)"
| "truthy (JFloat f) = (f \<noteq> Fin 0)"
| "truthy (JStr s) = (s \<noteq> [])"
| "truthy (JList js) = (js \<noteq> [])"
| "truthy (JObj kvs) = (kvs \<noteq> [])"

definition health :: "string \<Rightarrow> service \<Rightarrow> json" where
  "health service_name sv =
     JObj [(''status'', JStr ''Healthy''), (''service'', JStr service_name),
           (''chaos'', chaos_snapshot (cstate (chaos sv)))]"

definition ready ::
  "string \<Rightarrow> (service \<Rightarrow> json result \<times> service) option \<Rightarrow> service \<Rightarrow> response result \<times> service" where
  "ready service_name readiness_check sv =
     (let snapshot = chaos_snapshot (cstate (chaos sv));
          ok = (\<not> error_enabled (cstate (chaos sv)));
          respond = (\<lambda>ok checks.
            JSONResponse (if ok then 200 else 503)
              (JObj ([(''status'', JStr (if ok then ''ready'' else ''degraded'')), (''ready'', JBool ok),
                      (''service'', JStr service_name), (''chaos'', snapshot)] @
                     (if checks = [] then [] else [(''checks'', JObj checks)]))) [])
      in case readiness_check of
           None \<Rightarrow> (Inr (respond ok []), sv)
         | Some probe \<Rightarrow>
             if \<not> ok then (Inr (respond ok []), sv)
             else
               (case probe sv of
                  (Inl x, sv') \<Rightarrow> (Inl x, sv')
                | (Inr (JObj kvs), sv') \<Rightarrow> (Inr (respond (truthy (dict_get kvs ''ready'' (JBool True))) kvs), sv')
                | (Inr result, sv') \<Rightarrow> (Inr (respond (truthy result) []), sv')))"

text \<open>\<open>generate_latest\<close> and \<open>CONTENT_TYPE_LATEST\<close> are the Prometheus client's.\<close>

definition metrics :: "(metric_call list \<Rightarrow> string) \<Rightarrow> string \<Rightarrow> service \<Rightarrow> response" where
  "metrics generate_latest content_type sv =
     \<lparr>status_code = 200, body = Text_content (generate_latest (calls (plat sv))),
      headers = [(''content-type'', content_type)]\<rparr>"

section \<open>Environment\<close>

datatype caster = Int_caster | Float_caster

definition NUMERIC :: "(string \<times> caster) list" where
  "NUMERIC =
     [(''PORT'', Int_caster), (''RATE_LIMIT_RPS'', Float_caster), (''RATE_LIMIT_BURST'', Float_caster),
      (''WORKER_INTERVAL'', Float_caster), (''WORKER_JOB_SECONDS'', Float_caster),
      (''AUTH_DEP_LATENCY'', Float_caster)]"

fun casts :: "caster \<Rightarrow> string \<Rightarrow> bool" where
  "casts Int_caster raw = (int_of_str raw \<noteq> None)"
| "casts Float_caster raw = (float_of_str raw \<noteq> None)"

fun caster_name :: "caster \<Rightarrow> string" where
  "caster_name Int_caster = ''int''"
| "caster_name Float_caster = ''float''"

text \<open>\<open>os.getenv(name)\<close> without a default, where an empty value is as good as none.\<close>

definition env_value :: "platform \<Rightarrow> string \<Rightarrow> string" where
  "env_value p n = getenv n [] p"

definition missing_problems :: "string list \<Rightarrow> platform \<Rightarrow> string list" where
  "missing_problems required p =
     map (\<lambda>n. ''missing required env var: '' @ n) (filter (\<lambda>n. env_value p n = []) required)"

definition numeric_problems :: "platform \<Rightarrow> string list" where
  "numeric_problems p =
     map (\<lambda>(n, c). n @ ''='' @ str_repr (env_value p n) @ '' is not a valid '' @ caster_name c)
       (filter (\<lambda>(n, c). env_value p n \<noteq> [] \<and> \<not> casts c (env_value p n)) NUMERIC)"

fun join :: "string \<Rightarrow> string list \<Rightarrow> string" where
  "join sep [] = []"
| "join sep [s] = s"
| "join sep (s # t # ss) = s @ sep @ join sep (t # ss)"

definition validate_env :: "string list \<Rightarrow> platform \<Rightarrow> unit result" where
  "validate_env required p =
     (let problems = missing_problems required p @ numeric_problems p
      in if problems \<noteq> [] then
           Inl (PyException ''RuntimeError'' (''environment validation failed: '' @ join ''; '' problems))
         else Inr ())"

text \<open>Validation passes exactly when every required variable is set and every known numeric variable that is
  not empty parses as its type; otherwise it raises one \<open>RuntimeError\<close>.\<close>

lemma validate_env_char:
  "(validate_env required p = Inr () \<longleftrightarrow>
     (\<forall>n \<in> set required. env_value p n \<noteq> []) \<and>
     (\<forall>(n, c) \<in> set NUMERIC. env_value p n = [] \<or> casts c (env_value p n))) \<and>
   (validate_env required p \<noteq> Inr () \<longrightarrow> (\<exists>msg. validate_env required p = Inl (PyException ''RuntimeError'' msg)))"
proof -
  have "missing_problems required p = [] \<longleftrightarrow> (\<forall>n \<in> set required. env_value p n \<noteq> [])"
    by (auto simp: missing_problems_def filter_empty_conv)
  moreover have "numeric_problems p = [] \<longleftrightarrow>
      (\<forall>(n, c) \<in> set NUMERIC. env_value p n = [] \<or> casts c (env_value p n))"
    by (auto simp: numeric_problems_def filter_empty_conv)
  ultimately show ?thesis by (auto simp: validate_env_def Let_def)
qed

section \<open>Properties\<close>

text \<open>
  Readiness is degraded exactly when error chaos is on or the service's own check says no (a
  dictionary counts by its \<open>ready\<close> entry, any other value by its truth), and the status code says
  the same: 200 when ready, 503 when degraded; with error chaos on the check is not run.
\<close>

lemma readiness_status:
  assumes "ready n (Some probe) sv = (Inr resp, sv')"
  shows "status_code resp = (if error_enabled (cstate (chaos sv)) then 503 else
      (case fst (probe sv) of Inr (JObj kvs) \<Rightarrow> if truthy (dict_get kvs ''ready'' (JBool True)) then 200 else 503
       | Inr v \<Rightarrow> if truthy v then 200 else 503 | Inl x \<Rightarrow> status_code resp)) \<and>
    sv' = (if error_enabled (cstate (chaos sv)) then sv else snd (probe sv)) \<and>
    (\<exists>kvs. body resp = Json_content (JObj kvs) \<and> map_of kvs ''ready'' = Some (JBool (status_code resp = 200)))"
proof (cases "error_enabled (cstate (chaos sv))")
  case True
  then show ?thesis using assms by (auto simp: ready_def Let_def)
next
  case False
  obtain r sv1 where c: "probe sv = (r, sv1)" by force
  show ?thesis
  proof (cases r)
    case (Inl x)
    then show ?thesis using assms False c by (simp add: ready_def Let_def)
  next
    case (Inr v)
    then show ?thesis using assms False c by (cases v) (auto simp: ready_def Let_def)
  qed
qed

lemma default_limits: "float_of_env ''10'' = Inr (Fin 10)" "float_of_env ''20'' = Inr (Fin 20)"
proof -
  have d: "list_all is_digit ''10''" "list_all is_digit ''20''" "digits_val ''10'' = 10" "digits_val ''20'' = 20"
    by code_simp+
  show "float_of_env ''10'' = Inr (Fin 10)" "float_of_env ''20'' = Inr (Fin 20)"
    using float_of_digits [of "''10''"] float_of_digits [of "''20''"] d by (simp_all add: float_of_env_def round64_exact)
qed

text \<open>
  A validated environment builds the limiter: if validation passed and the two rate limit
  variables are not set to the empty string, \<open>get_limiter\<close> succeeds, with the defaults 10 and 20 for
  variables that are not set, and keeps answering the limiter it made.
\<close>

lemma validated_env_builds_limiter:
  assumes "validate_env required p = Inr ()" "env p ''RATE_LIMIT_RPS'' \<noteq> Some []" "env p ''RATE_LIMIT_BURST'' \<noteq> Some []"
  shows "\<exists>r b. get_limiter None p = (Inr (new_limiter r b), Some (new_limiter r b)) \<and>
    get_limiter (Some (new_limiter r b)) p' = (Inr (new_limiter r b), Some (new_limiter r b)) \<and>
    (env p ''RATE_LIMIT_RPS'' = None \<longrightarrow> r = Fin 10) \<and> (env p ''RATE_LIMIT_BURST'' = None \<longrightarrow> b = Fin 20)"
proof -
  have c: "env_value p n = [] \<or> casts Float_caster (env_value p n)"
    if "(n, Float_caster) \<in> set NUMERIC" for n
    using validate_env_char [of required p] assms(1) that by fastforce
  have num: "\<exists>f. float_of_env (getenv n d p) = Inr f \<and> (env p n = None \<longrightarrow> f = g)"
    if "env p n \<noteq> Some []" "float_of_env d = Inr g" "(n, Float_caster) \<in> set NUMERIC" for n d g
    using that c [of n] by (cases "env p n") (auto simp: env_value_def getenv_def float_of_env_def)
  obtain r where r: "float_of_env (getenv ''RATE_LIMIT_RPS'' ''10'' p) = Inr r" "env p ''RATE_LIMIT_RPS'' = None \<longrightarrow> r = Fin 10"
    using num [OF assms(2) default_limits(1)] by (auto simp: NUMERIC_def)
  obtain b where b: "float_of_env (getenv ''RATE_LIMIT_BURST'' ''20'' p) = Inr b" "env p ''RATE_LIMIT_BURST'' = None \<longrightarrow> b = Fin 20"
    using num [OF assms(3) default_limits(2)] by (auto simp: NUMERIC_def)
  show ?thesis by (rule exI [of _ r], rule exI [of _ b]) (use r b in \<open>simp add: get_limiter_def Let_def\<close>)
qed

text \<open>
  An empty \<open>RATE_LIMIT_RPS\<close> passes validation, which skips empty values, and then makes
  \<open>get_limiter\<close> raise \<open>ValueError\<close>, since the default applies only to an unset variable.
\<close>

lemma empty_rate_passes_validation:
  assumes "env p ''RATE_LIMIT_RPS'' = Some []"
    and "\<forall>(n, c) \<in> set NUMERIC. n \<noteq> ''RATE_LIMIT_RPS'' \<longrightarrow> env p n = None"
  shows "validate_env [] p = Inr () \<and> fst (get_limiter None p) =
    Inl (PyException ''ValueError'' (''could not convert string to float: '' @ [CHR 0x27, CHR 0x27]))"
proof -
  have "float_of_str [] = None" "str_repr [] = [CHR 0x27, CHR 0x27]"
    by (simp_all add: float_of_str_def strip_def split_sign_def dec_parse_def str_repr_def Let_def)
  moreover have "validate_env [] p = Inr ()"
    using validate_env_char [of "[]" p] assms by (auto simp: NUMERIC_def env_value_def getenv_def)
  ultimately show ?thesis using assms(1) by (simp add: get_limiter_def getenv_def float_of_env_def)
qed

end
