(* ===== verification/Services.thy ===== *)
theory Services
  imports Endpoints
begin

text \<open>
  \<open>clients/service_client.py\<close> and the three services, \<open>api/main.py\<close>, \<open>auth/main.py\<close> and
  \<open>worker/main.py\<close>. The HTTP library \<open>httpx\<close> is a record of the operations the client calls. While a
  handler awaits, other requests run: their effect is an argument \<open>others\<close> on the service state.
  The interface \<open>ServiceClient\<close>, as the API service uses it, is the locale \<open>service_client\<close>.
\<close>

section \<open>Calls to other services\<close>

text \<open>\<open>'r\<close> is a response of the library. \<open>post\<close> and \<open>get\<close> take the URL and the headers.\<close>

record 'r httpx =
  hx_get :: "string \<Rightarrow> string dict \<Rightarrow> 'r result"
  hx_post :: "string \<Rightarrow> string dict \<Rightarrow> json option \<Rightarrow> 'r result"
  hx_raise_for_status :: "'r \<Rightarrow> unit result"
  hx_json :: "'r \<Rightarrow> json result"

text \<open>What \<open>httpx\<close> documents of \<open>raise_for_status\<close>: a response of the 2xx class passes, any other raises
  \<open>HTTPStatusError\<close>, with a message of the library's own.\<close>

definition is_2xx :: "int \<Rightarrow> bool" where
  "is_2xx code \<longleftrightarrow> 200 \<le> code \<and> code < 300"

definition raises_unless_2xx :: "('r \<Rightarrow> int) \<Rightarrow> 'r httpx \<Rightarrow> bool" where
  "raises_unless_2xx code hx \<longleftrightarrow>
     (\<forall>r. if is_2xx (code r) then hx_raise_for_status hx r = Inr ()
          else \<exists>msg. hx_raise_for_status hx r = Inl (PyException ''HTTPStatusError'' msg))"

lemma raises_unless_2xxD:
  assumes "raises_unless_2xx code hx"
  shows "is_2xx (code r) \<Longrightarrow> hx_raise_for_status hx r = Inr ()"
    "\<not> is_2xx (code r) \<Longrightarrow> \<exists>msg. hx_raise_for_status hx r = Inl (PyException ''HTTPStatusError'' msg)"
  using assms unfolding raises_unless_2xx_def by metis+

record http_client =
  base_url :: string

definition new_http_client :: "string \<Rightarrow> http_client" where
  "new_http_client url = \<lparr>base_url = rstrip_char CHR ''/'' url\<rparr>"

text \<open>\<open>{**a, **b}\<close>\<close>

definition merge_headers :: "string dict \<Rightarrow> string dict \<Rightarrow> string dict" where
  "merge_headers a b = fold (\<lambda>(k, v) d. dict_set d k v) b a"

definition finish_call :: "'r httpx \<Rightarrow> 'r result \<Rightarrow> json result" where
  "finish_call hx sent =
     (case sent of
        Inl x \<Rightarrow> Inl x
      | Inr resp \<Rightarrow> (case hx_raise_for_status hx resp of Inl x \<Rightarrow> Inl x | Inr _ \<Rightarrow> hx_json hx resp))"

definition get_json ::
  "'r httpx \<Rightarrow> (service \<Rightarrow> service) \<Rightarrow> http_client \<Rightarrow> string \<Rightarrow> string dict \<Rightarrow> service \<Rightarrow> json result \<times> service" where
  "get_json hx others c path hs sv =
     (finish_call hx (hx_get hx (base_url c @ path) (merge_headers (propagation_headers sv) hs)), others sv)"

definition post_json ::
  "'r httpx \<Rightarrow> (service \<Rightarrow> service) \<Rightarrow> http_client \<Rightarrow> string \<Rightarrow> json option \<Rightarrow> string dict \<Rightarrow> service \<Rightarrow>
   json result \<times> service" where
  "post_json hx others c path payload hs sv =
     (finish_call hx (hx_post hx (base_url c @ path) (merge_headers (propagation_headers sv) hs) payload), others sv)"

section \<open>A guarded call in a service\<close>

text \<open>\<open>await get_or_create(name, \<dots>).call(f)\<close>: the breaker is an object of the registry, so what other
  calls do to it while \<open>f\<close> runs is seen at the exit.\<close>

definition call_in_service ::
  "string \<Rightarrow> breaker_config \<Rightarrow> pyfloat \<Rightarrow> pyfloat \<Rightarrow> (service \<Rightarrow> 'a result \<times> service) \<Rightarrow> service \<Rightarrow>
   'a result \<times> service" where
  "call_in_service n cfg now1 now2 f sv =
     (case get_or_create n cfg (breakers sv) (plat sv) of
        (b, reg, p) \<Rightarrow>
          (case enter now1 b p of
             (Inl x, b1, p1) \<Rightarrow> (Inl x, sv\<lparr>breakers := put_breaker b1 reg, plat := p1\<rparr>)
           | (Inr _, b1, p1) \<Rightarrow>
               (case f (sv\<lparr>breakers := put_breaker b1 reg, plat := p1\<rparr>) of
                  (r, sv2) \<Rightarrow>
                    let b2 = dict_get (breakers sv2) n b1;
                        leave = (\<lambda>failed. case exit_call failed now2 b2 (plat sv2) of
                                   (b3, p3) \<Rightarrow> sv2\<lparr>breakers := put_breaker b3 (breakers sv2), plat := p3\<rparr>)
                    in case r of
                         Inl x \<Rightarrow> (Inl x, if expected (config b2) x then leave True else sv2)
                       | Inr v \<Rightarrow> (Inr v, leave False))))"

section \<open>API service\<close>

record order_request =
  item :: string
  quantity :: int

definition order_request_ok :: "order_request \<Rightarrow> bool" where
  "order_request_ok r \<longleftrightarrow> 1 \<le> length (item r) \<and> length (item r) \<le> 100 \<and> 0 < quantity r \<and> quantity r \<le> 1000"

definition order_response :: "string \<Rightarrow> order_request \<Rightarrow> json" where
  "order_response order_id order =
     JObj [(''order_id'', JStr order_id), (''status'', JStr ''created''), (''item'', JStr (item order)),
           (''quantity'', JInt (quantity order))]"

definition auth_breaker_config :: breaker_config where
  "auth_breaker_config = \<lparr>failure_threshold = 5, recovery_timeout = Fin 30, success_threshold = 2,
     expected = is_Exception\<rparr>"

definition bearer_token :: "string option \<Rightarrow> string" where
  "bearer_token authorization =
     str_or (strip (removeprefix (str_or (case authorization of Some a \<Rightarrow> a | None \<Rightarrow> []) []) ''Bearer '')) ''demo-token''"

text \<open>\<open>post path payload\<close> is \<open>auth_client.post_json(path, json=payload)\<close>; \<open>uuid\<close> is \<open>uuid4().hex\<close>.
  The sleep before an order is returned changes nothing of its own.\<close>

definition create_order ::
  "(string \<Rightarrow> json \<Rightarrow> service \<Rightarrow> json result \<times> service) \<Rightarrow> pyfloat \<Rightarrow> pyfloat \<Rightarrow> string \<Rightarrow>
   order_request \<Rightarrow> string option \<Rightarrow> service \<Rightarrow> json result \<times> service" where
  "create_order post now1 now2 uuid order authorization sv =
     (let token = bearer_token authorization
      in case call_in_service ''auth'' auth_breaker_config now1 now2
                (post ''/validate'' (JObj [(''token'', JStr token)])) sv of
           (Inl (CircuitBreakerOpenError n), sv') \<Rightarrow> (Inl (CircuitBreakerOpenError n), sv')
         | (Inl x, sv') \<Rightarrow>
             (Inl (if is_Exception x then HTTPException 502 ''auth dependency unavailable'' else x), sv')
         | (Inr (JObj kvs), sv') \<Rightarrow>
             if \<not> truthy (dict_get kvs ''valid'' JNull) then (Inl (HTTPException 401 ''invalid token''), sv')
             else (Inr (order_response (''order_'' @ take 8 uuid) order), sv')
         | (Inr j, sv') \<Rightarrow> (Inl (no_get j), sv'))"

definition breaker_readiness :: "string \<Rightarrow> breaker_config \<Rightarrow> string \<Rightarrow> service \<Rightarrow> json result \<times> service" where
  "breaker_readiness n cfg key sv =
     (case get_or_create n cfg (breakers sv) (plat sv) of
        (b, reg, p) \<Rightarrow>
          (Inr (JObj [(''ready'', JBool (breaker_state_of b \<noteq> OPEN)), (key, JStr (state_text (breaker_state_of b)))]),
           sv\<lparr>breakers := reg, plat := p\<rparr>))"

definition api_readiness :: "service \<Rightarrow> json result \<times> service" where
  "api_readiness = breaker_readiness ''auth'' auth_breaker_config ''auth_breaker''"

section \<open>Auth service\<close>

definition INVALID_TOKENS :: "string list" where
  "INVALID_TOKENS = ['''', ''invalid'', ''expired'']"

record token_request =
  token :: string

definition token_request_ok :: "token_request \<Rightarrow> bool" where
  "token_request_ok r \<longleftrightarrow> 1 \<le> length (token r) \<and> length (token r) \<le> 4096"

definition identity_breaker_config :: breaker_config where
  "identity_breaker_config = \<lparr>failure_threshold = 5, recovery_timeout = Fin 20, success_threshold = 2,
     expected = is_Exception\<rparr>"

definition backend :: "(service \<Rightarrow> service) \<Rightarrow> string \<Rightarrow> service \<Rightarrow> bool result \<times> service" where
  "backend others tok sv = (Inr (tok \<notin> set INVALID_TOKENS), others sv)"

definition validate_with_backend ::
  "(service \<Rightarrow> service) \<Rightarrow> pyfloat \<Rightarrow> pyfloat \<Rightarrow> string \<Rightarrow> service \<Rightarrow> bool result \<times> service" where
  "validate_with_backend others now1 now2 tok sv =
     call_in_service ''identity-provider'' identity_breaker_config now1 now2 (backend others tok) sv"

definition validate ::
  "(service \<Rightarrow> service) \<Rightarrow> pyfloat \<Rightarrow> pyfloat \<Rightarrow> token_request \<Rightarrow> service \<Rightarrow> json result \<times> service" where
  "validate others now1 now2 req sv =
     (case validate_with_backend others now1 now2 (token req) sv of
        (Inl x, sv') \<Rightarrow> (Inl x, sv')
      | (Inr valid, sv') \<Rightarrow>
          (Inr (JObj [(''valid'', JBool valid), (''token'', JStr (token req))]),
           emit_s [CounterInc ''auth_token_validations_total''
                     [(''result'', if valid then ''valid'' else ''invalid'')]] sv'))"

definition auth_readiness :: "service \<Rightarrow> json result \<times> service" where
  "auth_readiness = breaker_readiness ''identity-provider'' identity_breaker_config ''identity_breaker''"

section \<open>Worker service\<close>

text \<open>
  One run of \<open>_process_job\<close>: what other coroutines do during its two sleeps, the readings of the
  performance counter, and the sleep (if any) in which the task is cancelled.
\<close>

datatype cancel_point = Never | In_latency | In_work

record job_run =
  during_latency :: "service \<Rightarrow> service"
  during_work :: "service \<Rightarrow> service"
  started :: pyfloat
  ended :: pyfloat
  cancelled :: cancel_point

definition finish_job :: "job_run \<Rightarrow> string \<Rightarrow> service \<Rightarrow> service" where
  "finish_job j status sv =
     emit_s [Observe ''worker_job_duration_seconds'' [] (ended j - started j),
             CounterInc ''worker_jobs_processed_total'' [(''status'', status)]] sv"

definition process_job :: "job_run \<Rightarrow> service \<Rightarrow> string result \<times> service" where
  "process_job j sv =
     (let slow = (latency_enabled (cstate (chaos sv)) \<and> 0 < latency_seconds (cstate (chaos sv)));
          sv1 = (if slow then during_latency j sv else sv)
      in if slow \<and> cancelled j = In_latency then (Inl CancelledError, finish_job j ''success'' sv1)
         else
           let (inject, s) = should_inject_error (cstate (chaos sv1));
               sv2 = sv1\<lparr>chaos := (chaos sv1)\<lparr>cstate := s\<rparr>\<rparr>
           in if inject then
                (Inr ''failed'',
                 finish_job j ''failed''
                   (sv2\<lparr>plat := record_event Source_WORKER ''job_failed'' [(''service'', JStr ''worker'')] (plat sv2)\<rparr>))
              else if cancelled j = In_work then (Inl CancelledError, finish_job j ''success'' (during_work j sv2))
              else (Inr ''success'', finish_job j ''success'' (during_work j sv2)))"

text \<open>\<open>_job_loop\<close> over a schedule of jobs, each with what happens in the pause after it; \<open>None\<close> means the
  loop is still running when the schedule ends, as it has no exit but an exception.\<close>

fun job_loop :: "(job_run \<times> (service \<Rightarrow> service)) list \<Rightarrow> service \<Rightarrow> exn option \<times> service" where
  "job_loop [] sv = (None, sv)"
| "job_loop ((j, pause) # js) sv =
     (case process_job j sv of
        (Inl x, sv') \<Rightarrow> (Some x, sv')
      | (Inr status, sv') \<Rightarrow> job_loop js (pause sv'))"

section \<open>Breakers of a service\<close>

definition breaker_phase :: "string \<Rightarrow> service \<Rightarrow> phase" where
  "breaker_phase n sv = (case map_of (breakers sv) n of Some b \<Rightarrow> phase_of b | None \<Rightarrow> SClosed 0)"

text \<open>The registry is well formed and the breaker of this name, if it exists, has this configuration.\<close>

definition breaker_ready :: "string \<Rightarrow> breaker_config \<Rightarrow> service \<Rightarrow> bool" where
  "breaker_ready n cfg sv \<longleftrightarrow>
     registry_ok (breakers sv) \<and> (case map_of (breakers sv) n of Some b \<Rightarrow> config b = cfg | None \<Rightarrow> True)"

definition admits :: "breaker_config \<Rightarrow> pyfloat \<Rightarrow> phase \<Rightarrow> bool" where
  "admits cfg now s \<longleftrightarrow> (case s of SOpen n t \<Rightarrow> \<not> now - t < recovery_timeout cfg | _ \<Rightarrow> True)"

lemma get_or_create_ready:
  assumes "breaker_ready n cfg sv" "get_or_create n cfg (breakers sv) (plat sv) = (b, reg, p)"
  shows "registry_ok reg" "name b = n" "ops b = in_memory_ops" "config b = cfg" "phase_of b = breaker_phase n sv"
    "\<And>m. m \<noteq> n \<Longrightarrow> map_of reg m = map_of (breakers sv) m"
proof -
  have ok: "registry_ok (breakers sv)" using assms(1) by (simp add: breaker_ready_def)
  show "registry_ok reg" "name b = n" "ops b = in_memory_ops" using get_or_create_ok [OF ok assms(2)] by auto
  show "config b = cfg" "phase_of b = breaker_phase n sv" "\<And>m. m \<noteq> n \<Longrightarrow> map_of reg m = map_of (breakers sv) m"
    using assms new_breaker_load [of n cfg "plat sv"]
    by (auto simp: get_or_create_def breaker_phase_def breaker_ready_def phase_of_def rec_phase_def
        new_record_def new_breaker_def Let_def split: option.splits)
qed

lemma put_breaker_lookup [simp]:
  "name b = n \<Longrightarrow> map_of (put_breaker b reg) n = Some b"
  "m \<noteq> name b \<Longrightarrow> map_of (put_breaker b reg) m = map_of reg m"
  by (auto simp: put_breaker_def)

lemma put_breaker_ready:
  assumes "registry_ok reg" "name b = n" "ops b = in_memory_ops" "config b = cfg" "breakers sv = put_breaker b reg"
  shows "breaker_ready n cfg sv" "breaker_phase n sv = phase_of b"
  using assms registry_ok_put [OF assms(1,3)] by (simp_all add: breaker_ready_def breaker_phase_def)

lemma enter_cases:
  assumes "ops b = in_memory_ops" "enter now b p = (r, b', p')"
  shows "name b' = name b \<and> ops b' = in_memory_ops \<and> config b' = config b \<and>
    phase_of b' = spec_step (config b) (Allow now) (phase_of b) \<and>
    r = (if admits (config b) now (phase_of b) then Inr () else Inl (CircuitBreakerOpenError (name b)))"
proof -
  obtain ok b1 p1 where a: "allow now b p = (ok, b1, p1)" by (metis prod_cases3)
  have "ok = admits (config b) now (phase_of b)"
    using allow_admits [of now b p] a by (simp add: admits_def split: phase.splits)
  then show ?thesis
    using assms a run_op_frame [of "Allow now" "(b, p)"] in_memory.step_refines [of b "Allow now" p]
    by (auto simp: enter_def reject_def split: bool.splits)
qed

text \<open>A guarded call whose function leaves the breakers alone.\<close>

lemma call_in_service_phase:
  assumes "breaker_ready n cfg sv" "\<And>v. breakers (snd (f v)) = breakers v"
    and "call_in_service n cfg now1 now2 f sv = (r, sv')"
  shows "breaker_ready n cfg sv' \<and>
    (\<forall>m. m \<noteq> n \<longrightarrow> map_of (breakers sv') m = map_of (breakers sv) m) \<and>
    (if admits cfg now1 (breaker_phase n sv) then
       (\<exists>reg p. r = fst (f (sv\<lparr>breakers := reg, plat := p\<rparr>))) \<and>
       breaker_phase n sv' = fold (spec_step cfg) (Allow now1 # exit_ops cfg now2 r) (breaker_phase n sv)
     else r = Inl (CircuitBreakerOpenError n) \<and> breaker_phase n sv' = breaker_phase n sv)"
proof -
  obtain b reg p where g: "get_or_create n cfg (breakers sv) (plat sv) = (b, reg, p)" by (metis prod_cases3)
  note gr = get_or_create_ready [OF assms(1) g]
  obtain e b1 p1 where e: "enter now1 b p = (e, b1, p1)" by (metis prod_cases3)
  note en = enter_cases [OF gr(3) e]
  let ?sv1 = "sv\<lparr>breakers := put_breaker b1 reg, plat := p1\<rparr>"
  have b1: "name b1 = n" "ops b1 = in_memory_ops" "config b1 = cfg"
    "phase_of b1 = spec_step cfg (Allow now1) (breaker_phase n sv)" using en gr by auto
  show ?thesis
  proof (cases "admits cfg now1 (breaker_phase n sv)")
    case False
    then have out: "r = Inl (CircuitBreakerOpenError n)" "sv' = ?sv1"
      using assms(3) g e en gr by (simp_all add: call_in_service_def)
    have "phase_of b1 = breaker_phase n sv"
      using False b1(4) by (auto simp: admits_def split: phase.splits)
    then show ?thesis using False out put_breaker_ready [OF gr(1) b1(1-3), of sv'] gr(6) b1(1) by simp
  next
    case True
    obtain r2 sv2 where f: "f ?sv1 = (r2, sv2)" by force
    have reg2: "breakers sv2 = put_breaker b1 reg" using assms(2) [of ?sv1] f by simp
    have look: "dict_get (breakers sv2) n b1 = b1" using reg2 b1(1) by (simp add: dict_get_def)
    obtain b3 p3 where x: "run_ops (exit_ops cfg now2 r2) (b1, plat sv2) = (b3, p3)" by force
    have b3: "name b3 = n" "ops b3 = in_memory_ops" "config b3 = cfg"
      "phase_of b3 = fold (spec_step cfg) (exit_ops cfg now2 r2) (phase_of b1)"
      using run_ops_frame [of "exit_ops cfg now2 r2" "(b1, plat sv2)"] x b1
        in_memory.steps_refine [of "(b1, plat sv2)" "exit_ops cfg now2 r2"] by simp_all
    have "r = r2 \<and> sv' = sv2\<lparr>breakers := put_breaker b3 (put_breaker b1 reg), plat := p3\<rparr> \<or>
        r = r2 \<and> exit_ops cfg now2 r2 = [] \<and> sv' = sv2"
      using assms(3) g e en gr True f look reg2 x b1
      by (cases r2) (auto simp: call_in_service_def exit_call_def Let_def split: prod.splits if_splits)
    then have out: "r = r2" "\<exists>reg'. registry_ok reg' \<and> breakers sv' = put_breaker b3 reg' \<and>
        (\<forall>m. m \<noteq> n \<longrightarrow> map_of reg' m = map_of reg m)"
      using registry_ok_put [OF gr(1) b1(2)] gr(1) b1(1) reg2 x by auto
    then obtain reg' where reg': "registry_ok reg'" "breakers sv' = put_breaker b3 reg'"
      "\<forall>m. m \<noteq> n \<longrightarrow> map_of reg' m = map_of reg m" by blast
    have "\<exists>reg p. r = fst (f (sv\<lparr>breakers := reg, plat := p\<rparr>))" using f out(1) by (metis fst_conv)
    then show ?thesis
      using True out(1) put_breaker_ready [OF reg'(1) b3(1-3) reg'(2)] b3(1,4) b1(4) reg' gr(6) by auto
  qed
qed

text \<open>A rejected call does not run its function: outcome and state are the same for every function.\<close>

lemma call_in_service_rejected:
  assumes "breaker_ready n cfg sv" "\<not> admits cfg now1 (breaker_phase n sv)"
  shows "call_in_service n cfg now1 now2 f sv = call_in_service n cfg now1 now2' g sv"
proof -
  obtain b reg p where g: "get_or_create n cfg (breakers sv) (plat sv) = (b, reg, p)" by (metis prod_cases3)
  note gr = get_or_create_ready [OF assms(1) g]
  obtain e b1 p1 where e: "enter now1 b p = (e, b1, p1)" by (metis prod_cases3)
  have "e = Inl (CircuitBreakerOpenError n)" using enter_cases [OF gr(3) e] gr assms(2) by simp
  then show ?thesis using g e by (simp add: call_in_service_def)
qed

section \<open>The client interface\<close>

text \<open>
  What the API service relies on of a \<open>ServiceClient\<close>: a call changes the service only by what other
  requests do meanwhile, and its outcome depends on the path, the payload and the correlation id.
\<close>

locale service_client =
  fixes post :: "string \<Rightarrow> json \<Rightarrow> service \<Rightarrow> json result \<times> service" and others :: "service \<Rightarrow> service"
  assumes post_state: "snd (post path payload sv) = others sv"
    and post_outcome: "correlation_id_var sv = correlation_id_var sv' \<Longrightarrow>
      fst (post path payload sv) = fst (post path payload sv')"
begin

lemma order_call:
  assumes "breaker_ready ''auth'' auth_breaker_config sv" "\<And>v. breakers (others v) = breakers v"
    and "call_in_service ''auth'' auth_breaker_config now1 now2 (post path payload) sv = (r, sv')"
  shows "breaker_ready ''auth'' auth_breaker_config sv' \<and>
    (if admits auth_breaker_config now1 (breaker_phase ''auth'' sv) then
       r = fst (post path payload sv) \<and>
       breaker_phase ''auth'' sv' =
         fold (spec_step auth_breaker_config) (Allow now1 # exit_ops auth_breaker_config now2 r) (breaker_phase ''auth'' sv)
     else r = Inl (CircuitBreakerOpenError ''auth'') \<and> breaker_phase ''auth'' sv' = breaker_phase ''auth'' sv)"
proof -
  have q: "breakers (snd (post path payload v)) = breakers v" for v using post_state assms(2) by metis
  have "r = fst (post path payload sv)" if "r = fst (post path payload (sv\<lparr>breakers := reg, plat := p\<rparr>))" for reg p
    using that post_outcome [of sv "sv\<lparr>breakers := reg, plat := p\<rparr>"] by simp
  then show ?thesis using call_in_service_phase [OF assms(1) q assms(3)] by (auto split: if_splits)
qed

end

interpretation http_post: service_client "\<lambda>path payload. post_json hx others c path (Some payload) []" others
  for hx others c
proof
  show "snd (post_json hx others c path (Some payload) [] sv) = others sv" for path payload sv
    by (simp add: post_json_def)
  show "fst (post_json hx others c path (Some payload) [] sv) = fst (post_json hx others c path (Some payload) [] sv')"
    if "correlation_id_var sv = correlation_id_var sv'" for path payload sv sv'
    using that by (simp add: post_json_def propagation_headers_def)
qed

text \<open>The outcome of an order, by the outcome of the validation.\<close>

fun order_outcome :: "string \<Rightarrow> order_request \<Rightarrow> json result \<Rightarrow> json result" where
  "order_outcome uuid order (Inl (CircuitBreakerOpenError n)) = Inl (CircuitBreakerOpenError n)"
| "order_outcome uuid order (Inl CancelledError) = Inl CancelledError"
| "order_outcome uuid order (Inl x) = Inl (HTTPException 502 ''auth dependency unavailable'')"
| "order_outcome uuid order (Inr (JObj kvs)) =
     (if truthy (dict_get kvs ''valid'' JNull) then Inr (order_response (''order_'' @ take 8 uuid) order)
      else Inl (HTTPException 401 ''invalid token''))"
| "order_outcome uuid order (Inr j) = Inl (no_get j)"

lemma create_order_call:
  assumes "call_in_service ''auth'' auth_breaker_config now1 now2
     (post ''/validate'' (JObj [(''token'', JStr (bearer_token a))])) sv = (r, sv')"
  shows "create_order post now1 now2 uuid order a sv = (order_outcome uuid order r, sv')"
proof (cases r)
  case (Inl x)
  then show ?thesis using assms by (cases x) (simp_all add: create_order_def)
next
  case (Inr j)
  then show ?thesis using assms by (cases j) (simp_all add: create_order_def)
qed

section \<open>Properties\<close>

text \<open>
  C24. Placing an order. If the auth breaker does not admit the call, the order fails with
  \<open>CircuitBreakerOpenError\<close>, and auth is not called: the outcome and the whole state after it are the
  same for every client, whatever a call through it would answer or do. Otherwise auth is asked for
  the caller's token and the order is created, refused with 401, or failed with 502 according to its
  answer, and the breaker moves by one success (also for a refused token) or one failure.
\<close>

theorem order_outcomes:
  assumes "breaker_ready ''auth'' auth_breaker_config sv" "\<And>v. breakers (others v) = breakers v"
    and "create_order (\<lambda>path payload. post_json hx others c path (Some payload) []) now1 now2 uuid order a sv = (r, sv')"
  defines "answer \<equiv> fst (post_json hx others c ''/validate'' (Some (JObj [(''token'', JStr (bearer_token a))])) [] sv)"
  shows "if admits auth_breaker_config now1 (breaker_phase ''auth'' sv) then
      r = order_outcome uuid order answer \<and>
      breaker_phase ''auth'' sv' =
        fold (spec_step auth_breaker_config)
          (Allow now1 # (case answer of Inr _ \<Rightarrow> [Success] | Inl x \<Rightarrow> if is_Exception x then [Failure now2] else []))
          (breaker_phase ''auth'' sv)
    else r = Inl (CircuitBreakerOpenError ''auth'') \<and> breaker_phase ''auth'' sv' = breaker_phase ''auth'' sv \<and>
      (\<forall>post t uuid' order' a'. create_order post now1 t uuid' order' a' sv = (r, sv'))"
proof -
  let ?post = "\<lambda>path payload. post_json hx others c path (Some payload) []"
  obtain r1 sv1 where call: "call_in_service ''auth'' auth_breaker_config now1 now2
      (?post ''/validate'' (JObj [(''token'', JStr (bearer_token a))])) sv = (r1, sv1)" by force
  have out: "r = order_outcome uuid order r1" "sv' = sv1"
    using create_order_call [where post = ?post, OF call, of uuid order] assms(3) by simp_all
  have ex: "exit_ops auth_breaker_config now2 answer =
      (case answer of Inr _ \<Rightarrow> [Success] | Inl x \<Rightarrow> if is_Exception x then [Failure now2] else [])"
    by (cases answer) (simp_all add: auth_breaker_config_def)
  have "create_order post now1 t uuid' order' a' sv = (order_outcome uuid' order' r1, sv')"
    if "\<not> admits auth_breaker_config now1 (breaker_phase ''auth'' sv)" for post t uuid' order' a'
    using create_order_call [where post = post] call_in_service_rejected [OF assms(1) that] call out(2) by metis
  then show ?thesis
    using http_post.order_call [OF assms(1,2) call] out ex [symmetric] unfolding answer_def [symmetric]
    by (auto split: if_splits)
qed

text \<open>A transport that always gets the same answer.\<close>

definition answering :: "json result \<Rightarrow> json result httpx" where
  "answering a = \<lparr>hx_get = (\<lambda>url hs. Inr a), hx_post = (\<lambda>url hs payload. Inr a),
     hx_raise_for_status = (\<lambda>r. Inr ()), hx_json = (\<lambda>r. r)\<rparr>"

lemma answering_post [simp]: "fst (post_json (answering a) others c path payload hs sv) = a"
  by (simp add: post_json_def answering_def finish_call_def)

lemma demo_service_sel [simp]:
  "breakers demo_service = []" "plat demo_service = boot new_year" "cstate (chaos demo_service) = new_chaos_state"
  "breaker_ready n cfg demo_service" "breaker_phase n demo_service = SClosed 0"
  by (simp_all add: demo_service_def breaker_ready_def breaker_phase_def registry_ok_def dict_ok_def)

definition demo_order :: order_request where
  "demo_order = \<lparr>item = ''book'', quantity = 2\<rparr>"

definition demo_client :: http_client where
  "demo_client = new_http_client ''http://auth:8001''"

theorem order_outcomes_witness:
  "fst (create_order (\<lambda>path payload. post_json (answering (Inr (JObj [(''valid'', JBool False)]))) id demo_client path (Some payload) [])
      (Fin 1) (Fin 2) ''0123456789abcdef'' demo_order (Some ''Bearer expired'') demo_service) =
    Inl (HTTPException 401 ''invalid token'')"
proof -
  let ?hx = "answering (Inr (JObj [(''valid'', JBool False)]))"
  let ?o = "create_order (\<lambda>path payload. post_json ?hx id demo_client path (Some payload) []) (Fin 1) (Fin 2)
      ''0123456789abcdef'' demo_order (Some ''Bearer expired'') demo_service"
  obtain r sv where o1: "?o = (r, sv)" by force
  show ?thesis
    using order_outcomes [OF _ _ o1] o1 by (simp add: admits_def dict_get_def)
qed

text \<open>A sequence of orders.\<close>

fun place_orders ::
  "(string \<Rightarrow> json \<Rightarrow> service \<Rightarrow> json result \<times> service) \<Rightarrow>
   (pyfloat \<times> pyfloat \<times> string \<times> order_request \<times> string option) list \<Rightarrow> service \<Rightarrow> json result list \<times> service" where
  "place_orders post [] sv = ([], sv)"
| "place_orders post ((t1, t2, u, order, a) # qs) sv =
     (case create_order post t1 t2 u order a sv of
        (r, sv') \<Rightarrow> (case place_orders post qs sv' of (rs, sv2) \<Rightarrow> (r # rs, sv2)))"

text \<open>The validation of this order ends in an exception, whatever the state of the service.\<close>

definition order_fails ::
  "(string \<Rightarrow> json \<Rightarrow> service \<Rightarrow> json result \<times> service) \<Rightarrow>
   pyfloat \<times> pyfloat \<times> string \<times> order_request \<times> string option \<Rightarrow> bool" where
  "order_fails post q \<longleftrightarrow> (case q of (t1, t2, u, order, a) \<Rightarrow>
     \<forall>v. \<exists>x. fst (post ''/validate'' (JObj [(''token'', JStr (bearer_token a))]) v) = Inl x \<and> is_Exception x)"

lemma failing_order_step:
  assumes "\<And>path payload v. snd (post path payload v) = others v" "\<And>v. breakers (others v) = breakers v"
    and "order_fails post (t1, t2, u, order, a)" "breaker_ready ''auth'' auth_breaker_config sv"
    and "breaker_phase ''auth'' sv = SClosed k"
  shows "breaker_ready ''auth'' auth_breaker_config (snd (create_order post t1 t2 u order a sv)) \<and>
    breaker_phase ''auth'' (snd (create_order post t1 t2 u order a sv)) =
      (if 5 \<le> k + 1 then SOpen (k + 1) t2 else SClosed (k + 1))"
proof -
  let ?f = "post ''/validate'' (JObj [(''token'', JStr (bearer_token a))])"
  obtain r sv1 where call: "call_in_service ''auth'' auth_breaker_config t1 t2 ?f sv = (r, sv1)" by force
  have quiet: "breakers (snd (?f v)) = breakers v" for v using assms(1,2) by metis
  note ph = call_in_service_phase [OF assms(4) quiet call]
  have adm: "admits auth_breaker_config t1 (breaker_phase ''auth'' sv)" using assms(5) by (simp add: admits_def)
  obtain reg p where "r = fst (?f (sv\<lparr>breakers := reg, plat := p\<rparr>))" using ph adm by auto
  then obtain x where "r = Inl x" "is_Exception x" using assms(3) unfolding order_fails_def by auto
  then show ?thesis
    using ph adm assms(5) create_order_call [where post = post, OF call, of u order]
    by (simp add: auth_breaker_config_def)
qed

lemma failing_orders_phase:
  assumes "\<And>path payload v. snd (post path payload v) = others v" "\<And>v. breakers (others v) = breakers v"
    and "list_all (order_fails post) qs" "breaker_ready ''auth'' auth_breaker_config sv"
    and "breaker_phase ''auth'' sv = SClosed k" "k + int (length qs) < 5"
  shows "breaker_ready ''auth'' auth_breaker_config (snd (place_orders post qs sv)) \<and>
    breaker_phase ''auth'' (snd (place_orders post qs sv)) = SClosed (k + int (length qs))"
  using assms(3-)
proof (induction qs arbitrary: sv k)
  case (Cons q qs)
  obtain t1 t2 u order a where q: "q = (t1, t2, u, order, a)" by (metis prod_cases5)
  let ?sv = "snd (create_order post t1 t2 u order a sv)"
  have step: "breaker_ready ''auth'' auth_breaker_config ?sv" "breaker_phase ''auth'' ?sv = SClosed (k + 1)"
    using failing_order_step [where post = post and others = others, OF assms(1,2), of t1 t2 u order a sv k] Cons.prems q
    by auto
  show ?case using Cons.IH [OF _ step] Cons.prems q by (simp add: case_prod_beta algebra_simps)
qed simp

text \<open>Five orders in a row whose validation ends in an error, any error, open the auth breaker: an order
  within the next thirty seconds fails with the breaker open and auth is not asked.\<close>

lemma failing_orders_open:
  assumes "\<And>path payload v. snd (post path payload v) = others v" "\<And>v. breakers (others v) = breakers v"
    and "list_all (order_fails post) (qs @ [(t1, Fin t, h, order, a)])" "length qs = 4"
    and "breaker_ready ''auth'' auth_breaker_config sv" "breaker_phase ''auth'' sv = SClosed 0"
    and "Fin u - Fin t < Fin 30"
  shows "let sv' = snd (place_orders post (qs @ [(t1, Fin t, h, order, a)]) sv)
    in breaker_phase ''auth'' sv' = SOpen 5 (Fin t) \<and>
       fst (create_order post (Fin u) t2 h' order' a' sv') = Inl (CircuitBreakerOpenError ''auth'')"
proof -
  let ?sv = "snd (place_orders post qs sv)" and ?c = auth_breaker_config
  let ?sv1 = "snd (create_order post t1 (Fin t) h order a ?sv)"
  have four: "breaker_ready ''auth'' ?c ?sv" "breaker_phase ''auth'' ?sv = SClosed 4"
    using failing_orders_phase [where post = post and others = others, OF assms(1,2) _ assms(5,6)] assms(3,4) by simp_all
  have app: "snd (place_orders post (qs @ [(t1, Fin t, h, order, a)]) s) =
      snd (create_order post t1 (Fin t) h order a (snd (place_orders post qs s)))" for s
    by (induction qs arbitrary: s) (auto simp: case_prod_beta)
  have last: "breaker_ready ''auth'' ?c ?sv1" "breaker_phase ''auth'' ?sv1 = SOpen 5 (Fin t)"
    using failing_order_step [where post = post and others = others, OF assms(1,2) _ four] assms(3) by simp_all
  let ?f = "post ''/validate'' (JObj [(''token'', JStr (bearer_token a'))])"
  have quiet: "breakers (snd (?f v)) = breakers v" for v using assms(1,2) by metis
  obtain r2 sv2 where call2: "call_in_service ''auth'' ?c (Fin u) t2 ?f ?sv1 = (r2, sv2)" by force
  have "\<not> admits ?c (Fin u) (breaker_phase ''auth'' ?sv1)"
    using last(2) assms(7) by (simp add: admits_def auth_breaker_config_def)
  then have "r2 = Inl (CircuitBreakerOpenError ''auth'')"
    using call_in_service_phase [OF last(1) quiet call2] by simp
  then show ?thesis
    using last(2) app [of sv] create_order_call [where post = post, OF call2, of h' order'] by (simp add: Let_def)
qed

section \<open>Worker accounting\<close>

definition jobs_done :: "string \<Rightarrow> service \<Rightarrow> nat" where
  "jobs_done status sv = count_calls (CounterInc ''worker_jobs_processed_total'' [(''status'', status)]) (calls (plat sv))"

text \<open>Concurrent activity that leaves the chaos state and the job counter alone.\<close>

definition job_quiet :: "(service \<Rightarrow> service) \<Rightarrow> bool" where
  "job_quiet f \<longleftrightarrow> (\<forall>sv. chaos (f sv) = chaos sv \<and> (\<forall>st. jobs_done st (f sv) = jobs_done st sv))"

lemma jobs_done_emit [simp]: "jobs_done st (emit_s cs sv) = jobs_done st sv +
    count_calls (CounterInc ''worker_jobs_processed_total'' [(''status'', st)]) cs"
  by (simp add: jobs_done_def)

lemma finish_job_facts [simp]:
  "chaos (finish_job j st sv) = chaos sv"
  "jobs_done st' (finish_job j st sv) = jobs_done st' sv + (if st' = st then 1 else 0)"
  by (simp_all add: finish_job_def)

lemma process_job_step:
  assumes "job_quiet (during_latency j)" "job_quiet (during_work j)" "cancelled j = Never"
    and "process_job j sv = (r, sv')"
  shows "cstate (chaos sv') = snd (should_inject_error (cstate (chaos sv)))"
    "r = Inr (if fst (should_inject_error (cstate (chaos sv))) then ''failed'' else ''success'')"
    "jobs_done st sv' = jobs_done st sv + (if r = Inr st then 1 else 0)"
proof -
  let ?slow = "latency_enabled (cstate (chaos sv)) \<and> 0 < latency_seconds (cstate (chaos sv))"
  define sv1 where "sv1 = (if ?slow then during_latency j sv else sv)"
  have q1: "chaos sv1 = chaos sv" "jobs_done st sv1 = jobs_done st sv" for st
    using assms(1) by (auto simp: sv1_def job_quiet_def)
  obtain hit s where d: "should_inject_error (cstate (chaos sv)) = (hit, s)" by force
  let ?sv2 = "sv1\<lparr>chaos := (chaos sv1)\<lparr>cstate := s\<rparr>\<rparr>"
  have j2: "jobs_done st ?sv2 = jobs_done st sv" for st using q1(2) by (simp add: jobs_done_def)
  have w: "chaos (during_work j ?sv2) = chaos ?sv2" "jobs_done st (during_work j ?sv2) = jobs_done st ?sv2" for st
    using assms(2) by (auto simp: job_quiet_def)
  have out: "process_job j sv = (if hit then (Inr ''failed'', finish_job j ''failed''
        (?sv2\<lparr>plat := record_event Source_WORKER ''job_failed'' [(''service'', JStr ''worker'')] (plat ?sv2)\<rparr>))
      else (Inr ''success'', finish_job j ''success'' (during_work j ?sv2)))"
    unfolding process_job_def Let_def sv1_def [symmetric] using assms(3) d by (simp add: q1(1))
  have rec: "jobs_done st (v\<lparr>plat := record_event a b c (plat v)\<rparr>) = jobs_done st v" for st v a b c
    by (simp add: jobs_done_def)
  have all: "cstate (chaos sv') = s \<and> r = Inr (if hit then ''failed'' else ''success'') \<and>
      jobs_done st sv' = jobs_done st sv + (if r = Inr st then 1 else 0)"
  proof (cases hit)
    case True
    then have "r = Inr ''failed''" "sv' = finish_job j ''failed''
        (?sv2\<lparr>plat := record_event Source_WORKER ''job_failed'' [(''service'', JStr ''worker'')] (plat ?sv2)\<rparr>)"
      using assms(4) out by simp_all
    then show ?thesis using True by (simp add: rec [where v = ?sv2, simplified] j2 [simplified])
  next
    case False
    then have "r = Inr ''success''" "sv' = finish_job j ''success'' (during_work j ?sv2)"
      using assms(4) out by simp_all
    then show ?thesis using False by (simp add: w j2 [simplified])
  qed
  then show "cstate (chaos sv') = snd (should_inject_error (cstate (chaos sv)))"
    "r = Inr (if fst (should_inject_error (cstate (chaos sv))) then ''failed'' else ''success'')"
    "jobs_done st sv' = jobs_done st sv + (if r = Inr st then 1 else 0)"
    using d by simp_all
qed

text \<open>
  The worker feels error chaos and nothing else: of any number of jobs that are not cancelled, exactly
  those that the chaos decision hits are counted as failed and every other one as a success, each
  job once, and the loop never stops on its own.
\<close>

lemma job_loop_counts:
  assumes "list_all (\<lambda>(j, pause). job_quiet (during_latency j) \<and> job_quiet (during_work j) \<and> job_quiet pause \<and>
     cancelled j = Never) js"
  shows "fst (job_loop js sv) = None \<and>
    jobs_done ''failed'' (snd (job_loop js sv)) = jobs_done ''failed'' sv + fst (inject_run (length js) (cstate (chaos sv))) \<and>
    jobs_done ''success'' (snd (job_loop js sv)) + fst (inject_run (length js) (cstate (chaos sv))) =
      jobs_done ''success'' sv + length js"
  using assms
proof (induction js arbitrary: sv)
  case (Cons q js)
  obtain j pause where q: "q = (j, pause)" by force
  obtain r sv1 where p: "process_job j sv = (r, sv1)" by force
  have quiet: "job_quiet (during_latency j)" "job_quiet (during_work j)" "cancelled j = Never" "job_quiet pause"
    using Cons.prems q by auto
  obtain hit s where d: "should_inject_error (cstate (chaos sv)) = (hit, s)" by force
  note st = process_job_step [OF quiet(1-3) p]
  have pz: "cstate (chaos (pause sv1)) = s" "jobs_done st (pause sv1) = jobs_done st sv1" for st
    using quiet(4) st(1) d by (auto simp: job_quiet_def)
  have IH: "fst (job_loop js (pause sv1)) = None \<and>
    jobs_done ''failed'' (snd (job_loop js (pause sv1))) = jobs_done ''failed'' sv1 + fst (inject_run (length js) s) \<and>
    jobs_done ''success'' (snd (job_loop js (pause sv1))) + fst (inject_run (length js) s) = jobs_done ''success'' sv1 + length js"
    using Cons.IH [of "pause sv1"] Cons.prems pz by simp
  show ?case using IH st(2) st(3) [of "''failed''"] st(3) [of "''success''"] p q d
    by (cases hit) (simp_all add: case_prod_beta)
qed simp

definition demo_job :: job_run where
  "demo_job = \<lparr>during_latency = id, during_work = id, started = Fin 0, ended = Fin 1, cancelled = Never\<rparr>"

lemma job_quiet_id [simp]: "job_quiet id"
  by (simp add: job_quiet_def)

text \<open>
  A job that is cancelled in the middle of its work (the service stops) is counted as processed
  successfully: \<open>status\<close> is set to success before the work and \<open>CancelledError\<close> is not an \<open>Exception\<close>.
\<close>

lemma cancelled_job_counts_as_success:
  assumes "cancelled j = In_work" "job_quiet (during_work j)" "\<not> latency_enabled (cstate (chaos sv))"
    and "\<not> fst (should_inject_error (cstate (chaos sv)))"
  shows "fst (process_job j sv) = Inl CancelledError \<and>
    jobs_done ''success'' (snd (process_job j sv)) = Suc (jobs_done ''success'' sv)"
proof -
  obtain s where d: "should_inject_error (cstate (chaos sv)) = (False, s)"
    using assms(4) by (cases "should_inject_error (cstate (chaos sv))") auto
  let ?v = "sv\<lparr>chaos := (chaos sv)\<lparr>cstate := s\<rparr>\<rparr>"
  have "jobs_done ''success'' (during_work j ?v) = jobs_done ''success'' sv"
    using assms(2) by (simp add: job_quiet_def) (simp add: jobs_done_def)
  then show ?thesis using assms(1,3) d by (simp add: process_job_def Let_def)
qed

section \<open>Auth\<close>

lemma backend_quiet: "(\<And>v. breakers (others v) = breakers v) \<Longrightarrow> breakers (snd (backend others t v)) = breakers v"
  by (simp add: backend_def)

lemma validate_outcome:
  assumes "breaker_ready ''identity-provider'' identity_breaker_config sv" "\<And>v. breakers (others v) = breakers v"
    and "admits identity_breaker_config now1 (breaker_phase ''identity-provider'' sv)"
  shows "fst (validate others now1 now2 req sv) =
    Inr (JObj [(''valid'', JBool (token req \<notin> set INVALID_TOKENS)), (''token'', JStr (token req))])"
proof -
  obtain r sv' where call: "validate_with_backend others now1 now2 (token req) sv = (r, sv')" by force
  have "r = Inr (token req \<notin> set INVALID_TOKENS)"
    using call_in_service_phase [OF assms(1) backend_quiet [OF assms(2)] call [unfolded validate_with_backend_def]]
      assms(3) by (auto simp: backend_def)
  then show ?thesis using call by (simp add: validate_def)
qed

end
