(* ===== verification/App.thy ===== *)
theory App
  imports Services
begin

text \<open>
  \<open>shared/autosre_shared/app.py\<close>, the application factory: the middleware stack in the order
  \<open>create_service_app\<close> adds it, the exception handler, the lifespan; and what the modules
  \<open>api/main.py\<close>, \<open>auth/main.py\<close> and \<open>worker/main.py\<close> do when they are imported. The router of the
  framework, which selects and runs an endpoint, is the parameter \<open>router\<close>.
\<close>

section \<open>The stack\<close>

text \<open>\<open>app.add_exception_handler(CircuitBreakerOpenError, circuit_breaker_open_handler)\<close>\<close>

definition exception_handlers :: "app \<Rightarrow> app" where
  "exception_handlers router req sv =
     (case router req sv of
        (Inl (CircuitBreakerOpenError n), req', sv') \<Rightarrow>
          (Inr (circuit_breaker_open_handler (CircuitBreakerOpenError n)), req', sv')
      | out \<Rightarrow> out)"

text \<open>What one request draws from outside: a fresh id, the clock readings, and what other requests do
  while chaos holds it.\<close>

record ambient =
  fresh_id :: string
  t_start :: pyfloat
  t_end :: pyfloat
  t_limit :: pyfloat
  meanwhile :: "service \<Rightarrow> service"

definition service_stack :: "bool \<Rightarrow> ambient \<Rightarrow> app \<Rightarrow> app" where
  "service_stack enable_rate_limit am router =
     request_context (fresh_id am)
       (security_headers
         (prometheus_dispatch (meanwhile am) (t_start am) (t_end am)
           (if enable_rate_limit then rate_limit_dispatch (t_limit am) (exception_handlers router)
            else exception_handlers router)))"

section \<open>The factory\<close>

text \<open>
  What \<open>create_service_app\<close> returns. Starlette builds the middleware objects when the application starts
  to serve; only then \<open>RateLimitMiddleware.__init__\<close> asks for the default limiter. A service without
  that middleware has no limiter in its stack and \<open>limiter\<close> is not read. \<open>configure_logging\<close> and the
  FastAPI object hold nothing that the stack reads.
\<close>

record service_app =
  rate_limited :: bool
  app_chaos :: chaos_controller
  app_breakers :: registry
  app_plat :: platform

definition create_service_app ::
  "string \<Rightarrow> bool \<Rightarrow> string list \<Rightarrow> registry \<Rightarrow> platform \<Rightarrow> service_app result" where
  "create_service_app service_name enable_rate_limit required_env reg p =
     (case validate_env required_env p of
        Inl x \<Rightarrow> Inl x
      | Inr _ \<Rightarrow>
          (case new_controller service_name p of
             (c, p1) \<Rightarrow>
               Inr \<lparr>rate_limited = enable_rate_limit, app_chaos = c, app_breakers = reg, app_plat = p1\<rparr>))"

definition build_middleware_stack :: "limiter option \<Rightarrow> service_app \<Rightarrow> service result" where
  "build_middleware_stack dflt a =
     (let with_limiter = (\<lambda>l. \<lparr>plat = app_plat a, breakers = app_breakers a, chaos = app_chaos a, limiter = l,
                            request_id_var = ''-'', correlation_id_var = ''-''\<rparr>)
      in if rate_limited a then
           (case get_limiter dflt (app_plat a) of
              (Inl x, _) \<Rightarrow> Inl x
            | (Inr l, _) \<Rightarrow> Inr (with_limiter l))
         else Inr (with_limiter (new_limiter 0 0)))"

section \<open>The lifespan\<close>

text \<open>Hooks act on \<open>app.state\<close>, of which \<open>'x\<close> is the part of the service itself, and on the process.\<close>

type_synonym 'x hook = "'x \<times> service \<Rightarrow> unit result \<times> 'x \<times> service"

definition run_hook :: "'x hook option \<Rightarrow> 'x hook" where
  "run_hook h s = (case h of None \<Rightarrow> (Inr (), s) | Some f \<Rightarrow> f s)"

definition lifespan_start :: "'x hook option \<Rightarrow> 'x hook" where
  "lifespan_start on_startup s =
     run_hook on_startup (fst s, emit_s [GaugeSet ''service_up'' [] 1] (snd s))"

definition lifespan_stop :: "'x hook option \<Rightarrow> 'x hook" where
  "lifespan_stop on_shutdown s =
     (case run_hook on_shutdown s of
        (Inl x, s1) \<Rightarrow> (Inl x, s1)
      | (Inr _, s1) \<Rightarrow> (Inr (), fst s1, emit_s [GaugeSet ''service_up'' [] 0] (snd s1)))"

text \<open>The whole life of a process; \<open>serving\<close> is all that happens between start and stop.\<close>

definition lifespan :: "'x hook option \<Rightarrow> 'x hook option \<Rightarrow> ('x \<times> service \<Rightarrow> 'x \<times> service) \<Rightarrow> 'x hook" where
  "lifespan on_startup on_shutdown serving s =
     (case lifespan_start on_startup s of
        (Inl x, s1) \<Rightarrow> (Inl x, s1)
      | (Inr _, s1) \<Rightarrow> lifespan_stop on_shutdown (serving s1))"

section \<open>Routes\<close>

text \<open>
  The routes of a service in the order \<open>create_service_app\<close> includes the routers, each with the method
  and the path its decorator declares. Dispatching to them is the framework's work.
\<close>

definition system_routes :: "(string \<times> string) list" where
  "system_routes = [(''GET'', ''/health''), (''GET'', ''/ready''), (''GET'', ''/metrics'')]"

definition chaos_routes :: "(string \<times> string) list" where
  "chaos_routes = [(''POST'', ''/chaos/latency''), (''POST'', ''/chaos/errors''), (''POST'', ''/chaos/cpu''),
     (''POST'', ''/chaos/memory''), (''POST'', ''/chaos/reset''), (''GET'', ''/chaos/status'')]"

definition breaker_routes :: "(string \<times> string) list" where
  "breaker_routes = [(''GET'', ''/breaker/status'')]"

definition rate_limit_routes :: "(string \<times> string) list" where
  "rate_limit_routes = [(''GET'', ''/rate-limit/status'')]"

definition failures_routes :: "(string \<times> string) list" where
  "failures_routes = [(''GET'', ''/failures''), (''DELETE'', ''/failures'')]"

definition api_routes :: "(string \<times> string) list" where
  "api_routes = [(''POST'', ''/orders'')]"

definition auth_routes :: "(string \<times> string) list" where
  "auth_routes = [(''POST'', ''/validate'')]"

definition service_routes :: "(string \<times> string) list \<Rightarrow> (string \<times> string) list" where
  "service_routes business =
     system_routes @ chaos_routes @ breaker_routes @ rate_limit_routes @ failures_routes @ business"

section \<open>The service modules\<close>

text \<open>\<open>auth_client\<close>, made from \<open>AUTH_URL\<close> when the API module is imported.\<close>

definition auth_client :: "platform \<Rightarrow> http_client" where
  "auth_client p = new_http_client (getenv ''AUTH_URL'' ''http://auth:8001'' p)"

definition api_module :: "platform \<Rightarrow> (http_client \<times> service_app) result" where
  "api_module p =
     (let client = auth_client p
      in case get_or_create ''auth'' auth_breaker_config [] p of
           (b, reg, p1) \<Rightarrow>
             (case create_service_app ''api'' True [] reg p1 of Inl x \<Rightarrow> Inl x | Inr a \<Rightarrow> Inr (client, a)))"

text \<open>\<open>_shutdown\<close> of the API service; \<open>closing\<close> is how \<open>aclose\<close> of the HTTP library ends.\<close>

definition api_shutdown :: "unit result \<Rightarrow> 'x hook" where
  "api_shutdown closing s = (closing, s)"

definition auth_module :: "platform \<Rightarrow> (pyfloat \<times> service_app) result" where
  "auth_module p =
     (case float_of_env (getenv ''AUTH_DEP_LATENCY'' ''0.08'' p) of
        Inl x \<Rightarrow> Inl x
      | Inr dep_latency \<Rightarrow>
          (case get_or_create ''identity-provider'' identity_breaker_config [] p of
             (b, reg, p1) \<Rightarrow>
               (case create_service_app ''auth'' True [] reg p1 of Inl x \<Rightarrow> Inl x | Inr a \<Rightarrow> Inr (dep_latency, a))))"

definition worker_module :: "platform \<Rightarrow> (pyfloat \<times> pyfloat \<times> service_app) result" where
  "worker_module p =
     (case float_of_env (getenv ''WORKER_INTERVAL'' ''5'' p) of
        Inl x \<Rightarrow> Inl x
      | Inr interval \<Rightarrow>
          (case float_of_env (getenv ''WORKER_JOB_SECONDS'' ''0.2'' p) of
             Inl x \<Rightarrow> Inl x
           | Inr job_seconds \<Rightarrow>
               (case create_service_app ''worker'' False [] [] p of
                  Inl x \<Rightarrow> Inl x
                | Inr a \<Rightarrow> Inr (interval, job_seconds, a))))"

text \<open>The port that a module run as a program listens on, \<open>int(os.getenv("PORT", default))\<close>.\<close>

definition main_port :: "string \<Rightarrow> platform \<Rightarrow> int result" where
  "main_port dflt p =
     (let raw = getenv ''PORT'' dflt p
      in case int_of_str raw of
           Some port \<Rightarrow> Inr port
         | None \<Rightarrow> Inl (PyException ''ValueError'' (''invalid literal for int() with base 10: '' @ str_repr raw)))"

section \<open>The worker's task\<close>

text \<open>\<open>app.state.job_task\<close>: the task of \<open>_job_loop\<close>, which runs until an exception ends it.\<close>

datatype job_task = Running | Ended exn

definition worker_startup :: "job_task option hook" where
  "worker_startup s = (Inr (), Some Running, snd s)"

text \<open>
  While the service runs, the task works through a schedule of jobs and pauses.
\<close>

definition worker_serving ::
  "(job_run \<times> (service \<Rightarrow> service)) list \<Rightarrow> job_task option \<times> service \<Rightarrow> job_task option \<times> service" where
  "worker_serving js s =
     (case s of
        (Some Running, sv) \<Rightarrow>
          (case job_loop js sv of (None, sv') \<Rightarrow> (Some Running, sv') | (Some x, sv') \<Rightarrow> (Some (Ended x), sv'))
      | _ \<Rightarrow> s)"

text \<open>
  \<open>task.cancel()\<close> raises \<open>CancelledError\<close> where the task waits: in a sleep of the job \<open>j\<close>, if
  \<open>inside = Some j\<close>, or in the pause after a job. What the job makes of it ends the loop; where the job
  returns all the same (an injected failure ends it before its second sleep), the cancellation is
  raised in the pause that follows. A task that has ended keeps its exception.
\<close>

definition cancel_and_await :: "job_run option \<Rightarrow> job_task \<Rightarrow> service \<Rightarrow> exn \<times> service" where
  "cancel_and_await inside task sv =
     (case task of
        Ended x \<Rightarrow> (x, sv)
      | Running \<Rightarrow>
          (case inside of
             None \<Rightarrow> (CancelledError, sv)
           | Some j \<Rightarrow>
               (case process_job j sv of
                  (Inl x, sv') \<Rightarrow> (x, sv')
                | (Inr status, sv') \<Rightarrow> (CancelledError, sv'))))"

definition worker_shutdown :: "job_run option \<Rightarrow> job_task option hook" where
  "worker_shutdown inside s =
     (case fst s of
        None \<Rightarrow> (Inr (), s)
      | Some task \<Rightarrow>
          (case cancel_and_await inside task (snd s) of
             (x, sv') \<Rightarrow> (if x = CancelledError then Inr () else Inl x, Some (Ended x), sv')))"

section \<open>Lemmas on the stack\<close>

lemma exception_handlers_never_open:
  "fst (exception_handlers router req sv) \<noteq> Inl (CircuitBreakerOpenError n)"
  by (auto simp: exception_handlers_def split: prod.splits sum.splits exn.splits)

lemma prometheus_control:
  assumes "is_control path" "req_path req = path"
  shows "fst (prometheus_dispatch others t0 t1 inner req sv) =
     fst (inner req (if path = ''/metrics'' then sv
                     else emit_s [GaugeInc ''http_requests_in_progress'' [(''method'', req_method req)]] sv))"
  using assms by (auto simp: prometheus_dispatch_def control_no_chaos Let_def split: prod.splits sum.splits)

lemma rate_limit_control: "is_control (req_path req) \<Longrightarrow> rate_limit_dispatch now inner req sv = inner req sv"
  by (simp add: rate_limit_dispatch_def control_excluded)

lemma rate_limit_quiet:
  assumes "red_quiet inner" shows "red_quiet (rate_limit_dispatch now inner)"
proof -
  have chk: "red_calls (sv\<lparr>limiter := l, plat := p\<rparr>) = red_calls sv" if "check key now (limiter sv) (plat sv) = (r, l, p)" for sv key r l p
    using that by (auto simp: check_def red_calls_def Let_def split: prod.splits sum.splits if_splits)
  have ev: "red_calls (v\<lparr>limiter := l, plat := record_event a b c p\<rparr>) = red_calls (v\<lparr>limiter := l, plat := p\<rparr>)" for v l a b c p
    by (simp add: red_calls_def)
  show ?thesis
    using chk red_quietD [OF assms]
    by (auto simp: red_quiet_def rate_limit_dispatch_def ev Let_def split: prod.splits sum.splits if_splits)
qed

lemma exception_handlers_quiet: "red_quiet router \<Longrightarrow> red_quiet (exception_handlers router)"
  by (auto simp: red_quiet_def exception_handlers_def split: prod.splits sum.splits exn.splits)

end
