(* ===== verification/Catalog.thy ===== *)
theory Catalog
  imports App
begin

text \<open>
  The metrics of the program: \<open>observability/metrics.py\<close> and the declarations beside the code of the
  other components, each with its kind and its label names. \<open>prometheus_client\<close> raises \<open>ValueError\<close> on a
  call with other labels, and a metric has only the methods of its kind; the property below is that
  no code of the services ever makes such a call.
\<close>

section \<open>Declarations\<close>

datatype metric_kind = Counter | Gauge | Histogram

type_synonym metric_decl = "string \<times> metric_kind \<times> string list"

text \<open>The bucket bounds of the request histogram. The metrics library refuses bounds that do not increase.\<close>

definition LATENCY_BUCKETS :: "rat list" where
  "LATENCY_BUCKETS = [0.005, 0.01, 0.025, 0.05, 0.075, 0.1, 0.2, 0.3, 0.5, 0.75, 1.0, 2.5, 5.0]"

definition RED_METRICS :: "metric_decl list" where
  "RED_METRICS =
     [(''http_requests_total'', Counter, [''method'', ''endpoint'', ''status'']),
      (''http_request_duration_seconds'', Histogram, [''method'', ''endpoint'']),
      (''http_requests_in_progress'', Gauge, [''method'']),
      (''http_exceptions_total'', Counter, [''method'', ''endpoint'', ''exception_type'']),
      (''service_up'', Gauge, [])]"

definition CHAOS_METRICS :: "metric_decl list" where
  "CHAOS_METRICS =
     [(''chaos_events_total'', Counter, [''type'', ''action'']),
      (''chaos_active'', Gauge, [''type'']),
      (''chaos_latency_seconds'', Histogram, []),
      (''chaos_error_injections_total'', Counter, [])]"

definition BREAKER_METRICS :: "metric_decl list" where
  "BREAKER_METRICS =
     [(''circuit_breaker_state'', Gauge, [''name'']),
      (''circuit_breaker_open_total'', Counter, [''name'']),
      (''circuit_breaker_rejections_total'', Counter, [''name''])]"

definition LIMITER_METRICS :: "metric_decl list" where
  "LIMITER_METRICS =
     [(''rate_limit_requests_total'', Counter, []),
      (''rate_limit_rejections_total'', Counter, [])]"

definition AUTH_METRICS :: "metric_decl list" where
  "AUTH_METRICS = [(''auth_token_validations_total'', Counter, [''result''])]"

definition WORKER_METRICS :: "metric_decl list" where
  "WORKER_METRICS =
     [(''worker_jobs_processed_total'', Counter, [''status'']),
      (''worker_job_duration_seconds'', Histogram, [])]"

definition METRICS :: "metric_decl list" where
  "METRICS = RED_METRICS @ CHAOS_METRICS @ BREAKER_METRICS @ LIMITER_METRICS @ AUTH_METRICS @ WORKER_METRICS"

lemma latency_buckets_increase: "sorted_wrt (<) (0 # LATENCY_BUCKETS)"
  by (simp add: LATENCY_BUCKETS_def)

section \<open>Calls that respect them\<close>

definition declared :: "string \<Rightarrow> metric_kind \<Rightarrow> labels \<Rightarrow> bool" where
  "declared n k l \<longleftrightarrow>
     (case map_of METRICS n of None \<Rightarrow> False | Some (k', ls) \<Rightarrow> k' = k \<and> map fst l = ls)"

fun call_ok :: "metric_call \<Rightarrow> bool" where
  "call_ok (CounterInc n l) = declared n Counter l"
| "call_ok (GaugeSet n l v) = declared n Gauge l"
| "call_ok (GaugeInc n l) = declared n Gauge l"
| "call_ok (GaugeDec n l) = declared n Gauge l"
| "call_ok (Observe n l v) = declared n Histogram l"
| "call_ok (Touch n l) = (declared n Counter l \<or> declared n Gauge l \<or> declared n Histogram l)"

definition catalogued :: "platform \<Rightarrow> bool" where
  "catalogued p \<longleftrightarrow> list_all call_ok (calls p)"

lemma METRICS_names: "distinct (map fst METRICS)"
  by code_simp

lemma catalogued_emit [simp]: "catalogued (emit cs p) \<longleftrightarrow> catalogued p \<and> list_all call_ok cs"
  by (simp add: catalogued_def)

lemma catalogued_record_event [simp]: "catalogued (record_event a b c p) = catalogued p"
  by (simp add: catalogued_def)

lemmas metric_defs = METRICS_def RED_METRICS_def CHAOS_METRICS_def BREAKER_METRICS_def LIMITER_METRICS_def
  AUTH_METRICS_def WORKER_METRICS_def declared_def

text \<open>Every form of call the code makes.\<close>

lemma declared_calls [simp]:
  "declared ''http_requests_total'' Counter [(''method'', a), (''endpoint'', b), (''status'', c)]"
  "declared ''http_request_duration_seconds'' Histogram [(''method'', a), (''endpoint'', b)]"
  "declared ''http_requests_in_progress'' Gauge [(''method'', a)]"
  "declared ''http_exceptions_total'' Counter [(''method'', a), (''endpoint'', b), (''exception_type'', c)]"
  "declared ''service_up'' Gauge []"
  "declared ''chaos_events_total'' Counter [(''type'', a), (''action'', b)]"
  "declared ''chaos_active'' Gauge [(''type'', a)]"
  "declared ''chaos_latency_seconds'' Histogram []"
  "declared ''chaos_error_injections_total'' Counter []"
  "declared ''circuit_breaker_state'' Gauge [(''name'', a)]"
  "declared ''circuit_breaker_open_total'' Counter [(''name'', a)]"
  "declared ''circuit_breaker_rejections_total'' Counter [(''name'', a)]"
  "declared ''rate_limit_requests_total'' Counter []"
  "declared ''rate_limit_rejections_total'' Counter []"
  "declared ''auth_token_validations_total'' Counter [(''result'', a)]"
  "declared ''worker_jobs_processed_total'' Counter [(''status'', a)]"
  "declared ''worker_job_duration_seconds'' Histogram []"
  by (simp_all add: metric_defs)

section \<open>Components\<close>

lemma enter_catalogued: "enter now b p = (r, b', p') \<Longrightarrow> catalogued p \<Longrightarrow> catalogued p'"
  by (auto simp: enter_def allow_def reject_def set_state_def Let_def split: bool.splits if_splits prod.splits)

lemma exit_catalogued: "exit_call failed now b p = (b', p') \<Longrightarrow> catalogued p \<Longrightarrow> catalogued p'"
  by (auto simp: exit_call_def record_success_def record_failure_def set_state_def opened_event_def Let_def split: if_splits)

lemma get_or_create_catalogued: "get_or_create n cfg reg p = (b, reg', p') \<Longrightarrow> catalogued p \<Longrightarrow> catalogued p'"
  by (auto simp: get_or_create_def new_breaker_def Let_def split: option.splits)

lemma check_catalogued: "check k now l p = (r, l', p') \<Longrightarrow> catalogued p \<Longrightarrow> catalogued p'"
  by (auto simp: check_def Let_def split: sum.splits prod.splits if_splits)

lemma chaos_exec_catalogued: "chaos_exec x c p = (c', p') \<Longrightarrow> catalogued p \<Longrightarrow> catalogued p'"
  by (cases x) (auto simp: set_latency_def set_errors_def trigger_cpu_def trigger_memory_def chaos_reset_def run_task_def
      run_cpu_start_def run_cpu_finish_def run_memory_start_def run_memory_finish_def Let_def
      split: sum.splits if_splits chaos_task.splits)

section \<open>Services\<close>

text \<open>Activity, and applications, that make only declared calls.\<close>

definition keeps :: "(service \<Rightarrow> service) \<Rightarrow> bool" where
  "keeps f \<longleftrightarrow> (\<forall>sv. catalogued (plat sv) \<longrightarrow> catalogued (plat (f sv)))"

definition keeps_app :: "app \<Rightarrow> bool" where
  "keeps_app a \<longleftrightarrow> (\<forall>req sv. catalogued (plat sv) \<longrightarrow> catalogued (plat (snd (snd (a req sv)))))"

lemma keepsD: "keeps f \<Longrightarrow> catalogued (plat sv) \<Longrightarrow> catalogued (plat (f sv))"
  by (simp add: keeps_def)

lemma keeps_appD: "keeps_app a \<Longrightarrow> catalogued (plat sv) \<Longrightarrow> a req sv = (r, req', sv') \<Longrightarrow> catalogued (plat sv')"
  unfolding keeps_app_def by (metis snd_conv)

lemma apply_chaos_catalogued:
  assumes "apply_request_chaos others path c p = (r, c', p')" "catalogued p"
    and "\<And>c p. catalogued p \<Longrightarrow> catalogued (snd (others c p))"
  shows "catalogued p'"
proof (cases "is_control path")
  case False
  let ?slow = "latency_enabled (cstate c) \<and> 0 < latency_seconds (cstate c)"
  obtain c1 p1 where o: "others c p = (c1, p1)" by force
  then have "catalogued p1" using assms(3) [OF assms(2), of c] by simp
  then show ?thesis
    using assms(1,2) False o by (cases ?slow) (auto simp: apply_request_chaos_def Let_def split: if_splits prod.splits)
qed (use assms(1,2) in \<open>simp add: apply_request_chaos_def\<close>)

lemma chaos_hook_catalogued:
  assumes "keeps others" "catalogued (plat sv)" "chaos_hook others path sv = (r, sv')"
  shows "catalogued (plat sv')"
proof -
  define act where "act = (\<lambda>c p. let v = others (sv\<lparr>chaos := c, plat := p\<rparr>) in (chaos v, plat v))"
  obtain r1 c1 p1 where a: "apply_request_chaos act path (chaos sv) (plat sv) = (r1, c1, p1)" by (metis prod_cases3)
  have "catalogued (snd (act c p))" if "catalogued p" for c p
    using keepsD [OF assms(1), of "sv\<lparr>chaos := c, plat := p\<rparr>"] that by (simp add: act_def Let_def)
  then have "catalogued p1" by (rule apply_chaos_catalogued [OF a assms(2)])
  moreover have "plat sv' = p1" using assms(3) a unfolding chaos_hook_def act_def [symmetric] by (auto simp: Let_def)
  ultimately show ?thesis by simp
qed

lemma prometheus_keeps:
  assumes "keeps others" "keeps_app inner" shows "keeps_app (prometheus_dispatch others t0 t1 inner)"
  unfolding keeps_app_def
proof (intro allI impI)
  fix req :: request and sv :: service
  assume ok: "catalogued (plat sv)"
  let ?sv1 = "emit_s [GaugeInc ''http_requests_in_progress'' [(''method'', req_method req)]] sv"
  obtain r sv2 where h: "chaos_hook others (req_path req) ?sv1 = (r, sv2)" by force
  have sv2: "catalogued (plat sv2)" using chaos_hook_catalogued [OF assms(1) _ h] ok by simp
  obtain r3 req' sv3 where i: "inner req sv2 = (r3, req', sv3)" by (metis prod_cases3)
  have sv3: "catalogued (plat sv3)" by (rule keeps_appD [OF assms(2) sv2 i])
  have direct: "catalogued (plat (snd (snd (inner req sv))))" using assms(2) ok by (simp add: keeps_app_def)
  show "catalogued (plat (snd (snd (prometheus_dispatch others t0 t1 inner req sv))))"
    using sv2 sv3 direct h i
    by (auto simp: prometheus_dispatch_def finish_request_def Let_def split: option.splits sum.splits)
qed

lemma rate_limit_keeps:
  assumes "keeps_app inner" shows "keeps_app (rate_limit_dispatch now inner)"
  unfolding keeps_app_def
proof (intro allI impI)
  fix req :: request and sv :: service
  assume ok: "catalogued (plat sv)"
  obtain r l p where c: "check (client_key req) now (limiter sv) (plat sv) = (r, l, p)" by (metis prod_cases3)
  have "catalogued p" by (rule check_catalogued [OF c ok])
  moreover have "catalogued (plat (snd (snd (inner req v))))" if "catalogued (plat v)" for v
    using assms that by (simp add: keeps_app_def)
  ultimately show "catalogued (plat (snd (snd (rate_limit_dispatch now inner req sv))))"
    using ok c by (auto simp: rate_limit_dispatch_def Let_def split: sum.splits if_splits prod.splits)
qed

lemma exception_handlers_keeps: "keeps_app router \<Longrightarrow> keeps_app (exception_handlers router)"
proof -
  assume r: "keeps_app router"
  have "snd (snd (exception_handlers router req sv)) = snd (snd (router req sv))" for req sv
    by (auto simp: exception_handlers_def split: prod.splits sum.splits exn.splits)
  then show ?thesis using r by (simp add: keeps_app_def)
qed

lemma security_headers_keeps: "keeps_app inner \<Longrightarrow> keeps_app (security_headers inner)"
proof -
  assume i: "keeps_app inner"
  have "snd (snd (security_headers inner req sv)) = snd (snd (inner req sv))" for req sv
    by (simp add: security_headers_def split: prod.split sum.split)
  then show ?thesis using i by (simp add: keeps_app_def)
qed

lemma request_context_keeps: "keeps_app inner \<Longrightarrow> keeps_app (request_context fresh inner)"
proof -
  assume i: "keeps_app inner"
  have "\<exists>v. plat v = plat sv \<and> plat (snd (snd (request_context fresh inner req sv))) = plat (snd (snd (inner req v)))" for req sv
    by (auto simp: request_context_def Let_def split: prod.split sum.split
        intro: exI [of _ "sv\<lparr>request_id_var := header_or req ''x-request-id'' fresh,
          correlation_id_var := header_or req ''x-correlation-id'' (header_or req ''x-request-id'' fresh)\<rparr>"])
  then show ?thesis using i unfolding keeps_app_def by metis
qed

lemma service_stack_keeps:
  assumes "keeps (meanwhile am)" "keeps_app router" shows "keeps_app (service_stack rl am router)"
proof -
  have "keeps_app (prometheus_dispatch (meanwhile am) (t_start am) (t_end am)
      (if rl then rate_limit_dispatch (t_limit am) (exception_handlers router) else exception_handlers router))"
    by (rule prometheus_keeps [OF assms(1)]) (simp add: rate_limit_keeps exception_handlers_keeps assms(2))
  then have "keeps_app (security_headers (prometheus_dispatch (meanwhile am) (t_start am) (t_end am)
      (if rl then rate_limit_dispatch (t_limit am) (exception_handlers router) else exception_handlers router)))"
    by (rule security_headers_keeps)
  then show ?thesis unfolding service_stack_def by (rule request_context_keeps)
qed

lemma call_in_service_catalogued:
  assumes "call_in_service n cfg now1 now2 f sv = (r, sv')" "catalogued (plat sv)" "keeps (\<lambda>v. snd (f v))"
  shows "catalogued (plat sv')"
proof -
  obtain b reg p where g: "get_or_create n cfg (breakers sv) (plat sv) = (b, reg, p)" by (metis prod_cases3)
  obtain e b1 p1 where e: "enter now1 b p = (e, b1, p1)" by (metis prod_cases3)
  have p1: "catalogued p1" using enter_catalogued [OF e get_or_create_catalogued [OF g assms(2)]] .
  let ?sv1 = "sv\<lparr>breakers := put_breaker b1 reg, plat := p1\<rparr>"
  obtain r2 sv2 where f: "f ?sv1 = (r2, sv2)" by force
  have sv2: "catalogued (plat sv2)" using keepsD [OF assms(3), of ?sv1] p1 f by simp
  show ?thesis
    using assms(1) g e p1 f sv2 exit_catalogued
    by (auto simp: call_in_service_def Let_def split: sum.splits prod.splits if_splits)
qed

lemma create_order_keeps:
  assumes "\<And>path payload. keeps (\<lambda>v. snd (post path payload v))"
  shows "keeps (\<lambda>sv. snd (create_order post now1 now2 uuid order a sv))"
  unfolding keeps_def
proof (intro allI impI)
  fix sv :: service
  assume ok: "catalogued (plat sv)"
  obtain r sv' where c: "call_in_service ''auth'' auth_breaker_config now1 now2
     (post ''/validate'' (JObj [(''token'', JStr (bearer_token a))])) sv = (r, sv')" by force
  show "catalogued (plat (snd (create_order post now1 now2 uuid order a sv)))"
    using call_in_service_catalogued [OF c ok assms] create_order_call [where post = post, OF c] by simp
qed

lemma validate_keeps:
  assumes "keeps others" shows "keeps (\<lambda>sv. snd (validate others now1 now2 req sv))"
  unfolding keeps_def
proof (intro allI impI)
  fix sv :: service
  assume ok: "catalogued (plat sv)"
  obtain r sv' where c: "validate_with_backend others now1 now2 (token req) sv = (r, sv')" by force
  have "catalogued (plat sv')"
    using call_in_service_catalogued [OF c [unfolded validate_with_backend_def] ok] assms by (simp add: backend_def keeps_def)
  then show "catalogued (plat (snd (validate others now1 now2 req sv)))"
    using c by (simp add: validate_def split: sum.split)
qed

definition job_keeps :: "job_run \<Rightarrow> bool" where
  "job_keeps j \<longleftrightarrow> keeps (during_latency j) \<and> keeps (during_work j)"

lemma process_job_keeps:
  assumes "job_keeps j" shows "keeps (\<lambda>sv. snd (process_job j sv))"
proof -
  have "catalogued (plat (during_latency j sv))" "catalogued (plat (during_work j sv))" if "catalogued (plat sv)" for sv
    using assms that by (auto simp: job_keeps_def keeps_def)
  then show ?thesis
    unfolding keeps_def process_job_def finish_job_def Let_def by (auto split: prod.splits)
qed

lemma job_loop_keeps:
  assumes "list_all (\<lambda>(j, pause). job_keeps j \<and> keeps pause) js"
  shows "keeps (\<lambda>sv. snd (job_loop js sv))"
  unfolding keeps_def
proof (intro allI impI)
  fix sv :: service
  assume "catalogued (plat sv)"
  with assms show "catalogued (plat (snd (job_loop js sv)))"
  proof (induction js arbitrary: sv)
    case (Cons q js)
    obtain j pause where q: "q = (j, pause)" by force
    obtain r sv1 where p: "process_job j sv = (r, sv1)" by force
    have "catalogued (plat sv1)" "catalogued (plat (pause sv1))"
      using keepsD [OF process_job_keeps [of j], of sv] Cons.prems q p keepsD by auto
    then show ?case using Cons p q by (simp split: sum.split)
  qed simp
qed

section \<open>Property\<close>

text \<open>
  C32. Every call the services make on a metric is on a declared one, of its kind and with exactly its
  labels: requests through the stack, the chaos controls, orders, token validations, worker jobs, start
  and stop, if the activity they run beside does the same. (The names are distinct, so a declaration is
  found by its name.)
\<close>

theorem metric_calls_declared:
  assumes "keeps others" "keeps (meanwhile am)" "keeps_app router"
    and "list_all (\<lambda>(j, pause). job_keeps j \<and> keeps pause) js" "catalogued (plat sv)"
  shows "distinct (map fst METRICS) \<and> list_all (\<lambda>v. catalogued (plat v))
    [snd (snd (service_stack rl am router req sv)),
     (let (c, p) = chaos_exec x (chaos sv) (plat sv) in sv\<lparr>chaos := c, plat := p\<rparr>),
     snd (create_order (\<lambda>path payload. post_json hx others cl path (Some payload) []) now1 now2 uuid order a sv),
     snd (validate others now1 now2 treq sv),
     snd (snd (lifespan (Some worker_startup) (Some (worker_shutdown None)) (worker_serving js) (None, sv)))]"
proof -
  have "catalogued (plat (snd (snd (service_stack rl am router req sv))))"
    using service_stack_keeps [OF assms(2,3)] assms(5) by (simp add: keeps_app_def)
  moreover have "catalogued (plat (let (c, p) = chaos_exec x (chaos sv) (plat sv) in sv\<lparr>chaos := c, plat := p\<rparr>))"
    using chaos_exec_catalogued assms(5) by (auto split: prod.splits)
  moreover have "keeps (\<lambda>v. snd (post_json hx others cl path (Some payload) [] v))" for path payload
    using assms(1) by (simp add: post_json_def keeps_def)
  then have "catalogued (plat (snd (create_order (\<lambda>path payload. post_json hx others cl path (Some payload) []) now1 now2 uuid order a sv)))"
    using create_order_keeps assms(5) by (simp add: keeps_def)
  moreover have "catalogued (plat (snd (validate others now1 now2 treq sv)))"
    using validate_keeps [OF assms(1)] assms(5) by (simp add: keeps_def)
  moreover have "catalogued (plat (snd (job_loop js (emit_s [GaugeSet ''service_up'' [] 1] sv))))"
    using job_loop_keeps [OF assms(4)] assms(5) by (simp add: keeps_def)
  then have "catalogued (plat (snd (snd (lifespan (Some worker_startup) (Some (worker_shutdown None)) (worker_serving js) (None, sv)))))"
    by (auto simp: lifespan_def lifespan_start_def lifespan_stop_def run_hook_def worker_startup_def worker_serving_def
        worker_shutdown_def cancel_and_await_def split: prod.splits option.splits)
  ultimately show ?thesis using METRICS_names by simp
qed

theorem metric_calls_declared_witness:
  "catalogued (plat (snd (snd (service_stack True \<lparr>fresh_id = ''abc'', t_start = Fin 1, t_end = Fin 2, t_limit = Fin 1, meanwhile = id\<rparr>
     (const_app (Inl os_error)) (demo_request ''/orders'') demo_service))))"
proof -
  let ?am = "\<lparr>fresh_id = ''abc'', t_start = Fin 1, t_end = Fin 2, t_limit = Fin 1, meanwhile = id\<rparr>"
  have "keeps id" by (simp add: keeps_def)
  moreover have "keeps_app (const_app (Inl os_error))" by (simp add: keeps_app_def const_app_def)
  moreover have "catalogued (plat demo_service)" by (simp add: catalogued_def)
  ultimately have "distinct (map fst METRICS) \<and> list_all (\<lambda>v. catalogued (plat v))
    [snd (snd (service_stack True ?am (const_app (Inl os_error)) (demo_request ''/orders'') demo_service)),
     (let (c, p) = chaos_exec Reset (chaos demo_service) (plat demo_service) in demo_service\<lparr>chaos := c, plat := p\<rparr>),
     snd (create_order (\<lambda>path payload. post_json (answering (Inr JNull)) id demo_client path (Some payload) []) 0 0 [] demo_order None demo_service),
     snd (validate id 0 0 \<lparr>token = ''x''\<rparr> demo_service),
     snd (snd (lifespan (Some worker_startup) (Some (worker_shutdown None)) (worker_serving []) (None, demo_service)))]"
    by (intro metric_calls_declared) simp_all
  then show ?thesis by simp
qed

end
