(* ===== verification/Logging.thy ===== *)
theory Logging
  imports Middleware
begin

text \<open>
  \<open>shared/autosre_shared/logging.py\<close>: the JSON formatter and the installation of its handler, over what
  they use of the standard \<open>logging\<close> module: a log record is a dictionary of attributes to which the
  \<open>extra\<close> of the logging call is added.
\<close>

section \<open>Log records\<close>

text \<open>An attribute value: one that \<open>json\<close> encodes, or another object, by its \<open>str\<close>.\<close>

datatype attr = Json_value json | Opaque string

text \<open>The attributes \<open>LogRecord.__init__\<close> sets.\<close>

definition RECORD_ATTRS :: "string list" where
  "RECORD_ATTRS = [''name'', ''msg'', ''args'', ''levelname'', ''levelno'', ''pathname'', ''filename'', ''module'',
     ''exc_info'', ''exc_text'', ''stack_info'', ''lineno'', ''funcName'', ''created'', ''msecs'', ''relativeCreated'',
     ''thread'', ''threadName'', ''processName'', ''process'', ''taskName'']"

definition RESERVED :: "string list" where
  "RESERVED = RECORD_ATTRS @ [''message'', ''asctime'']"

text \<open>
  \<open>logger_name\<close> is the attribute \<open>name\<close>; \<open>time_text\<close>, \<open>message\<close> and \<open>exception_text\<close> are what \<open>formatTime\<close>,
  \<open>getMessage\<close> and (with \<open>exc_info\<close> set) \<open>formatException\<close> give; \<open>attrs\<close> is \<open>__dict__\<close>.
\<close>

record log_record =
  time_text :: string
  levelname :: string
  logger_name :: string
  message :: string
  exception_text :: "string option"
  attrs :: "attr dict"

text \<open>\<open>Logger.makeRecord\<close> refuses an extra that would overwrite an attribute.\<close>

definition overwrite_error :: "string \<Rightarrow> exn" where
  "overwrite_error k = PyException ''KeyError'' (''Attempt to overwrite '' @ str_repr k @ '' in LogRecord'')"

fun attach_extra :: "attr dict \<Rightarrow> attr dict \<Rightarrow> attr dict result" where
  "attach_extra [] d = Inr d"
| "attach_extra ((k, v) # extra) d =
     (if k \<in> {''message'', ''asctime''} \<or> map_of d k \<noteq> None then Inl (overwrite_error k)
      else attach_extra extra (dict_set d k v))"

definition make_record ::
  "string \<Rightarrow> string \<Rightarrow> string \<Rightarrow> string \<Rightarrow> string option \<Rightarrow> (string \<Rightarrow> attr) \<Rightarrow> attr dict \<Rightarrow> log_record result" where
  "make_record ts lvl nm msg exc own extra =
     (case attach_extra extra (map (\<lambda>k. (k, own k)) RECORD_ATTRS) of
        Inl x \<Rightarrow> Inl x
      | Inr d \<Rightarrow> Inr \<lparr>time_text = ts, levelname = lvl, logger_name = nm, message = msg, exception_text = exc, attrs = d\<rparr>)"

section \<open>The formatter\<close>

definition setdefault :: "'v dict \<Rightarrow> string \<Rightarrow> 'v \<Rightarrow> 'v dict" where
  "setdefault d k v = (if map_of d k = None then dict_set d k v else d)"

definition is_extra :: "string \<Rightarrow> bool" where
  "is_extra k \<longleftrightarrow> k \<notin> set RESERVED \<and> \<not> startswith k ''_''"

definition log_payload :: "service \<Rightarrow> log_record \<Rightarrow> attr dict" where
  "log_payload sv r =
     (let base = [(''ts'', Json_value (JStr (time_text r))), (''level'', Json_value (JStr (levelname r))),
                  (''logger'', Json_value (JStr (logger_name r))), (''msg'', Json_value (JStr (message r))),
                  (''request_id'', Json_value (JStr (get_request_id sv))),
                  (''correlation_id'', Json_value (JStr (get_correlation_id sv)))];
          payload = (case exception_text r of
                       None \<Rightarrow> base
                     | Some t \<Rightarrow> dict_set base ''exc'' (Json_value (JStr t)))
      in fold (\<lambda>(k, v) d. if is_extra k then setdefault d k v else d) (attrs r) payload)"

text \<open>\<open>default=str\<close>\<close>

fun encode_attr :: "attr \<Rightarrow> json" where
  "encode_attr (Json_value j) = j"
| "encode_attr (Opaque s) = JStr s"

definition format_record :: "service \<Rightarrow> log_record \<Rightarrow> string" where
  "format_record sv r = dumps_default (JObj (map (apsnd encode_attr) (log_payload sv r)))"

section \<open>Configuration\<close>

datatype handler = Json_stdout | Other_handler string

record root_logger =
  handlers :: "handler list"
  level :: int

definition INFO :: int where
  "INFO = 20"

definition configure_logging :: "string \<Rightarrow> int \<Rightarrow> root_logger \<Rightarrow> string \<times> root_logger" where
  "configure_logging srv lvl rt = (''autosre.'' @ srv, rt\<lparr>handlers := [Json_stdout], level := lvl\<rparr>)"

section \<open>Lemmas\<close>

lemma RESERVED_attrs: "k \<in> set RESERVED \<longleftrightarrow> k \<in> {''message'', ''asctime''} \<or> k \<in> set RECORD_ATTRS"
  by (auto simp: RESERVED_def)

lemma attach_extra_cases:
  assumes "dict_ok extra"
  shows "attach_extra extra d =
    (case find (\<lambda>(k, v). k \<in> {''message'', ''asctime''} \<or> map_of d k \<noteq> None) extra of
       Some (k, v) \<Rightarrow> Inl (overwrite_error k)
     | None \<Rightarrow> Inr (d @ extra))"
  using assms
proof (induction extra d rule: attach_extra.induct)
  case (2 k v extra d)
  show ?case
  proof (cases "k \<in> {''message'', ''asctime''} \<or> map_of d k \<noteq> None")
    case False
    then have d: "dict_set d k v = d @ [(k, v)]" by (simp add: dict_set_fresh)
    let ?bad = "\<lambda>d (k', v :: attr). k' \<in> {''message'', ''asctime''} \<or> map_of d k' \<noteq> (None :: attr option)"
    have same: "find (?bad (d @ [(k, v)])) extra = find (?bad d) extra"
      using 2(2) by (intro find_cong) (auto simp: dict_ok_def map_add_def image_iff split: option.splits)
    have "attach_extra ((k, v) # extra) d = attach_extra extra (d @ [(k, v)])"
      using False d by (simp only: attach_extra.simps if_False)
    also have "\<dots> = (case find (?bad d) extra of Some (k, v) \<Rightarrow> Inl (overwrite_error k) | None \<Rightarrow> Inr ((d @ [(k, v)]) @ extra))"
      using 2(1) [OF False] 2(2) unfolding d same by (simp add: dict_ok_def)
    also have "\<dots> = (case find (?bad d) ((k, v) # extra) of Some (k, v) \<Rightarrow> Inl (overwrite_error k) | None \<Rightarrow> Inr (d @ (k, v) # extra))"
      using False by (auto split: option.split)
    finally show ?thesis .
  qed simp
qed simp

lemma payload_fold:
  "map_of (fold (\<lambda>(k, v) d. if is_extra k then setdefault d k v else d) kvs d) k =
    (case map_of d k of Some v \<Rightarrow> Some v | None \<Rightarrow> if is_extra k then map_of kvs k else None)"
proof (induction kvs arbitrary: d)
  case (Cons kv kvs)
  obtain k' v where kv: "kv = (k', v)" by force
  have "map_of (if is_extra k' then setdefault d k' v else d) k =
      (case map_of d k of Some w \<Rightarrow> Some w | None \<Rightarrow> if is_extra k' \<and> k = k' then Some v else None)"
    by (auto simp: setdefault_def update_conv' split: option.split)
  then show ?case unfolding kv fold.simps comp_apply prod.case Cons.IH by (auto split: option.split)
qed (simp split: option.split)

lemma payload_fold_inv:
  assumes "dict_ok d" "\<And>k v. (k, v) \<in> set d \<Longrightarrow> P v" "\<And>k v. (k, v) \<in> set kvs \<Longrightarrow> is_extra k \<Longrightarrow> P v"
  shows "dict_ok (fold (\<lambda>(k, v) d. if is_extra k then setdefault d k v else d) kvs d) \<and>
    (\<forall>(k, v) \<in> set (fold (\<lambda>(k, v) d. if is_extra k then setdefault d k v else d) kvs d). P v)"
  using assms
proof (induction kvs arbitrary: d)
  case (Cons kv kvs)
  obtain k v where kv: "kv = (k, v)" by force
  let ?d = "if is_extra k then setdefault d k v else d"
  have "dict_ok ?d" using Cons.prems(1) by (auto simp: setdefault_def intro: dict_set_ok)
  moreover have "P w" if "(k', w) \<in> set ?d" for k' w
    using that Cons.prems(2) Cons.prems(3) [of k v] kv dict_set_ball [of d "\<lambda>_. P" k v k' w]
    by (auto simp: setdefault_def split: if_splits)
  moreover have "fold (\<lambda>(k, v) d. if is_extra k then setdefault d k v else d) (kv # kvs) d =
      fold (\<lambda>(k, v) d. if is_extra k then setdefault d k v else d) kvs ?d" by (simp add: kv)
  moreover have "\<And>k v. (k, v) \<in> set kvs \<Longrightarrow> is_extra k \<Longrightarrow> P v" using Cons.prems(3) by (metis list.set_intros(2))
  ultimately show ?case using Cons.IH [of ?d] by presburger
qed auto

lemma map_of_apsnd: "map_of (map (apsnd f) kvs) k = map_option f (map_of kvs k)"
  by (induction kvs) auto

lemma make_record_attrs:
  assumes "dict_ok extra" "make_record ts lvl nm msg exc own extra = Inr r"
  shows "attrs r = map (\<lambda>k. (k, own k)) RECORD_ATTRS @ extra"
    "time_text r = ts" "levelname r = lvl" "logger_name r = nm" "message r = msg" "exception_text r = exc"
    "\<And>k v. (k, v) \<in> set extra \<Longrightarrow> k \<notin> set RESERVED"
proof -
  let ?own = "map (\<lambda>k. (k, own k)) RECORD_ATTRS"
  obtain d where d: "attach_extra extra ?own = Inr d" "r = \<lparr>time_text = ts, levelname = lvl, logger_name = nm,
      message = msg, exception_text = exc, attrs = d\<rparr>"
    using assms(2) by (auto simp: make_record_def split: sum.splits)
  then have f: "find (\<lambda>(k, v). k \<in> {''message'', ''asctime''} \<or> map_of ?own k \<noteq> None) extra = None" "d = ?own @ extra"
    using attach_extra_cases [OF assms(1), of ?own] by (auto split: option.splits)
  show "attrs r = ?own @ extra" "time_text r = ts" "levelname r = lvl" "logger_name r = nm" "message r = msg"
    "exception_text r = exc" using d(2) f(2) by simp_all
  have own: "map_of ?own k \<noteq> None \<longleftrightarrow> k \<in> set RECORD_ATTRS" for k by (auto simp: map_of_eq_None_iff image_image)
  show "k \<notin> set RESERVED" if "(k, v) \<in> set extra" for k v
    using f(1) that unfolding find_None_iff own RESERVED_attrs by fastforce
qed

definition STANDARD_KEYS :: "string list" where
  "STANDARD_KEYS = [''ts'', ''level'', ''logger'', ''msg'', ''request_id'', ''correlation_id'']"

lemma log_payload_lookup:
  assumes "dict_ok extra" "make_record ts lvl nm msg exc own extra = Inr r"
  shows "map_of (log_payload sv r) ''ts'' = Some (Json_value (JStr ts))"
    "map_of (log_payload sv r) ''level'' = Some (Json_value (JStr lvl))"
    "map_of (log_payload sv r) ''logger'' = Some (Json_value (JStr nm))"
    "map_of (log_payload sv r) ''msg'' = Some (Json_value (JStr msg))"
    "map_of (log_payload sv r) ''request_id'' = Some (Json_value (JStr (request_id_var sv)))"
    "map_of (log_payload sv r) ''correlation_id'' = Some (Json_value (JStr (correlation_id_var sv)))"
    "k \<notin> set STANDARD_KEYS \<Longrightarrow> map_of (log_payload sv r) k =
       (if k = ''exc'' \<and> exc \<noteq> None then map_option (\<lambda>t. Json_value (JStr t)) exc
        else if startswith k ''_'' then None else map_of extra k)"
proof -
  note r = make_record_attrs [OF assms]
  show "map_of (log_payload sv r) ''ts'' = Some (Json_value (JStr ts))"
    "map_of (log_payload sv r) ''level'' = Some (Json_value (JStr lvl))"
    "map_of (log_payload sv r) ''logger'' = Some (Json_value (JStr nm))"
    "map_of (log_payload sv r) ''msg'' = Some (Json_value (JStr msg))"
    "map_of (log_payload sv r) ''request_id'' = Some (Json_value (JStr (request_id_var sv)))"
    "map_of (log_payload sv r) ''correlation_id'' = Some (Json_value (JStr (correlation_id_var sv)))"
    by (simp_all add: log_payload_def payload_fold r get_request_id_def get_correlation_id_def update_conv' Let_def split: option.splits)
  have ex: "(if is_extra k then map_of (attrs r) k else None) = (if startswith k ''_'' then None else map_of extra k)"
  proof (cases "k \<in> set RESERVED")
    case True
    then have "map_of extra k = None" using r(7) by (auto simp: map_of_eq_None_iff)
    then show ?thesis using True by (simp add: is_extra_def)
  next
    case False
    then have "map_of (map (\<lambda>k. (k, own k)) RECORD_ATTRS) k = None" by (auto simp: map_of_eq_None_iff RESERVED_attrs)
    then show ?thesis using False r(1) by (simp add: is_extra_def map_add_def split: option.splits)
  qed
  show "map_of (log_payload sv r) k =
       (if k = ''exc'' \<and> exc \<noteq> None then map_option (\<lambda>t. Json_value (JStr t)) exc
        else if startswith k ''_'' then None else map_of extra k)" if "k \<notin> set STANDARD_KEYS"
    unfolding log_payload_def Let_def payload_fold ex using that r(6)
    by (auto simp: STANDARD_KEYS_def update_conv' split: option.splits)
qed

lemma log_payload_json_ok:
  assumes "dict_ok extra" "make_record ts lvl nm msg exc own extra = Inr r"
    and "\<And>k v. (k, v) \<in> set extra \<Longrightarrow> json_ok (encode_attr v)"
  shows "json_ok (JObj (map (apsnd encode_attr) (log_payload sv r)))"
proof -
  note r = make_record_attrs [OF assms(1,2)]
  let ?base = "[(''ts'', Json_value (JStr ts)), (''level'', Json_value (JStr lvl)), (''logger'', Json_value (JStr nm)),
    (''msg'', Json_value (JStr msg)), (''request_id'', Json_value (JStr (get_request_id sv))),
    (''correlation_id'', Json_value (JStr (get_correlation_id sv)))]"
  let ?d = "case exc of None \<Rightarrow> ?base | Some t \<Rightarrow> dict_set ?base ''exc'' (Json_value (JStr t))"
  have "dict_ok ?d" by (cases exc) (simp_all add: dict_ok_def)
  moreover have "json_ok (encode_attr v)" if "(k, v) \<in> set ?d" for k v
    using that by (cases exc) auto
  moreover have "json_ok (encode_attr v)" if "(k, v) \<in> set (attrs r)" "is_extra k" for k v
    using that assms(3) unfolding r(1) by (auto simp: is_extra_def RESERVED_attrs)
  ultimately have inv: "dict_ok (log_payload sv r) \<and> (\<forall>(k, v) \<in> set (log_payload sv r). json_ok (encode_attr v))"
    unfolding log_payload_def Let_def r(2-6) by (rule payload_fold_inv)
  have "map fst (map (apsnd encode_attr) (log_payload sv r)) = map fst (log_payload sv r)" by simp
  then show ?thesis using inv by (auto simp: dict_ok_def list_all_iff)
qed

section \<open>Properties\<close>

text \<open>
  C26. A log line is one line of printable ASCII that reads back as a JSON object; its time, level,
  logger, message and the ids of the current request are the record's, whatever extras the call
  attached (an extra of the same name is dropped); every other extra that does not start with an
  underscore is there with its value, an unencodable one as its text; and there is nothing else but the
  exception's text.
\<close>

theorem log_line_faithful:
  assumes "dict_ok extra" "make_record ts lvl nm msg exc own extra = Inr r"
    and "\<And>k v. (k, v) \<in> set extra \<Longrightarrow> json_ok (encode_attr v)"
  shows "list_all printable (format_record sv r) \<and>
    (\<exists>kvs. loads (format_record sv r) = Some (JObj kvs) \<and>
       map (map_of kvs) STANDARD_KEYS =
         map (\<lambda>s. Some (JStr s)) [ts, lvl, nm, msg, request_id_var sv, correlation_id_var sv] \<and>
       (\<forall>k. k \<notin> set STANDARD_KEYS \<longrightarrow> map_of kvs k =
          (if k = ''exc'' \<and> exc \<noteq> None then map_option JStr exc
           else if startswith k ''_'' then None else map_option encode_attr (map_of extra k))))"
proof (intro conjI exI)
  let ?kvs = "map (apsnd encode_attr) (log_payload sv r)"
  note ok = log_payload_json_ok [where sv = sv, OF assms] and look = log_payload_lookup [where sv = sv, OF assms(1,2)]
  show "list_all printable (format_record sv r)"
    unfolding format_record_def by (rule dumps_with_printable [OF _ ok]) (simp add: printable_def)
  show "loads (format_record sv r) = Some (JObj ?kvs)"
    unfolding format_record_def by (rule loads_dumps_default [OF ok])
  show "map (map_of ?kvs) STANDARD_KEYS = map (\<lambda>s. Some (JStr s)) [ts, lvl, nm, msg, request_id_var sv, correlation_id_var sv]"
    using look(1-6) by (simp add: STANDARD_KEYS_def map_of_apsnd)
  show "\<forall>k. k \<notin> set STANDARD_KEYS \<longrightarrow> map_of ?kvs k =
      (if k = ''exc'' \<and> exc \<noteq> None then map_option JStr exc
       else if startswith k ''_'' then None else map_option encode_attr (map_of extra k))"
    using look(7) by (cases exc) (simp_all add: map_of_apsnd)
qed

theorem log_line_faithful_witness:
  "\<exists>r kvs. make_record ''t'' ''INFO'' ''autosre.api'' ''hello'' None Opaque [(''level'', Opaque ''x''), (''service'', Json_value (JStr ''api''))] = Inr r \<and>
     loads (format_record demo_service r) = Some (JObj kvs) \<and> map_of kvs ''service'' = Some (JStr ''api'')"
proof -
  let ?extra = "[(''level'', Opaque ''x''), (''service'', Json_value (JStr ''api''))]"
  have "\<exists>r. make_record ''t'' ''INFO'' ''autosre.api'' ''hello'' None Opaque ?extra = Inr r"
    by (simp add: make_record_def RECORD_ATTRS_def)
  then obtain r where r: "make_record ''t'' ''INFO'' ''autosre.api'' ''hello'' None Opaque ?extra = Inr r" ..
  have "dict_ok ?extra" by (simp add: dict_ok_def)
  moreover have "json_ok (encode_attr v)" if "(k, v) \<in> set ?extra" for k v using that by auto
  ultimately obtain kvs where kvs: "loads (format_record demo_service r) = Some (JObj kvs)"
    "\<forall>k. k \<notin> set STANDARD_KEYS \<longrightarrow> map_of kvs k =
      (if k = ''exc'' \<and> (None :: string option) \<noteq> None then map_option JStr None
       else if startswith k ''_'' then None else map_option encode_attr (map_of ?extra k))"
    using log_line_faithful [OF _ r, of demo_service] by metis
  have "map_of kvs ''service'' = Some (JStr ''api'')" using kvs(2) by (simp add: STANDARD_KEYS_def startswith_def)
  with kvs(1) have "\<exists>kvs. loads (format_record demo_service r) = Some (JObj kvs) \<and> map_of kvs ''service'' = Some (JStr ''api'')" by blast
  then show ?thesis using r by blast
qed

end
