(* ===== verification/ValidateObs.thy ===== *)
theory ValidateObs
  imports Endpoints
begin

text \<open>
  \<open>scripts/validate_observability.py\<close>, the check of the Grafana provisioning, the dashboards and the
  Prometheus rules. Its input is what the files decode to (the YAML library is third-party code); a
  value of the wrong shape makes the script raise where Python would.
\<close>

section \<open>Python on decoded documents\<close>

definition bind_r :: "'a result \<Rightarrow> ('a \<Rightarrow> 'b result) \<Rightarrow> 'b result" where
  "bind_r r f = (case r of Inl x \<Rightarrow> Inl x | Inr v \<Rightarrow> f v)"

lemma bind_r_simps [simp]: "bind_r (Inl x) f = Inl x" "bind_r (Inr v) f = f v"
  by (simp_all add: bind_r_def)

text \<open>A loop that appends to a list and stops at the first exception.\<close>

fun gather :: "('a \<Rightarrow> 'b list result) \<Rightarrow> 'a list \<Rightarrow> 'b list result" where
  "gather f [] = Inr []"
| "gather f (x # xs) = bind_r (f x) (\<lambda>ys. bind_r (gather f xs) (\<lambda>zs. Inr (ys @ zs)))"

definition type_error :: "string \<Rightarrow> exn" where
  "type_error msg = PyException ''TypeError'' msg"

text \<open>\<open>x[k]\<close> for a string \<open>k\<close>, and \<open>x[0]\<close>\<close>

definition subscript :: "json \<Rightarrow> string \<Rightarrow> json result" where
  "subscript j k =
     (case j of
        JObj kvs \<Rightarrow> (case map_of kvs k of Some v \<Rightarrow> Inr v | None \<Rightarrow> Inl (PyException ''KeyError'' (str_repr k)))
      | JList _ \<Rightarrow> Inl (type_error ''list indices must be integers or slices, not str'')
      | JStr _ \<Rightarrow> Inl (type_error (''string indices must be integers, not '' @ str_repr ''str''))
      | _ \<Rightarrow> Inl (type_error (str_repr (py_type j) @ '' object is not subscriptable'')))"

definition first_item :: "json \<Rightarrow> json result" where
  "first_item j =
     (case j of
        JList (x # _) \<Rightarrow> Inr x
      | JList [] \<Rightarrow> Inl (PyException ''IndexError'' ''list index out of range'')
      | JStr (c # _) \<Rightarrow> Inr (JStr [c])
      | JStr [] \<Rightarrow> Inl (PyException ''IndexError'' ''string index out of range'')
      | JObj _ \<Rightarrow> Inl (PyException ''KeyError'' ''0'')
      | _ \<Rightarrow> Inl (type_error (str_repr (py_type j) @ '' object is not subscriptable'')))"

text \<open>\<open>x.get(k, d)\<close>\<close>

definition get_field :: "json \<Rightarrow> string \<Rightarrow> json \<Rightarrow> json result" where
  "get_field j k d = (case j of JObj kvs \<Rightarrow> Inr (dict_get kvs k d) | _ \<Rightarrow> Inl (no_get j))"

text \<open>\<open>for y in x\<close>\<close>

definition iterate :: "json \<Rightarrow> json list result" where
  "iterate j =
     (case j of
        JList js \<Rightarrow> Inr js
      | JObj kvs \<Rightarrow> Inr (map (\<lambda>(k, v). JStr k) kvs)
      | JStr s \<Rightarrow> Inr (map (\<lambda>c. JStr [c]) s)
      | _ \<Rightarrow> Inl (type_error (str_repr (py_type j) @ '' object is not iterable'')))"

text \<open>\<open>k in x\<close> for a string \<open>k\<close>\<close>

definition contains :: "json \<Rightarrow> string \<Rightarrow> bool result" where
  "contains j k =
     (case j of
        JObj kvs \<Rightarrow> Inr (map_of kvs k \<noteq> None)
      | JList js \<Rightarrow> Inr (JStr k \<in> set js)
      | JStr s \<Rightarrow> Inr (sublist k s)
      | _ \<Rightarrow> Inl (type_error (''argument of type '' @ str_repr (py_type j) @ '' is not iterable'')))"

text \<open>
  The elements of a set: lists and dictionaries are not hashable, and \<open>True\<close>, \<open>1\<close> and \<open>1.0\<close> are one
  element.
\<close>

definition hashable :: "json \<Rightarrow> bool" where
  "hashable j \<longleftrightarrow> (case j of JList _ \<Rightarrow> False | JObj _ \<Rightarrow> False | _ \<Rightarrow> True)"

definition unhashable :: "json \<Rightarrow> exn" where
  "unhashable j = type_error (''unhashable type: '' @ str_repr (py_type j))"

definition set_key :: "json \<Rightarrow> json" where
  "set_key j =
     (case j of
        JBool b \<Rightarrow> JInt (if b then 1 else 0)
      | JFloat (Fin x) \<Rightarrow> if x = of_int \<lfloor>x\<rfloor> then JInt \<lfloor>x\<rfloor> else j
      | _ \<Rightarrow> j)"

fun set_of :: "json list \<Rightarrow> json list result" where
  "set_of [] = Inr []"
| "set_of (j # js) =
     (if hashable j then bind_r (set_of js) (\<lambda>s. Inr (List.insert (set_key j) s)) else Inl (unhashable j))"

text \<open>\<open>str(x)\<close>\<close>

fun json_repr :: "json \<Rightarrow> string" where
  "json_repr JNull = ''None''"
| "json_repr (JBool b) = (if b then ''True'' else ''False'')"
| "json_repr (JInt i) = int_str i"
| "json_repr (JFloat f) = float_repr f"
| "json_repr (JStr s) = str_repr s"
| "json_repr (JList js) = ''['' @ join '', '' (map json_repr js) @ '']''"
| "json_repr (JObj kvs) = ''{'' @ join '', '' (map (\<lambda>(k, j). str_repr k @ '': '' @ json_repr j) kvs) @ ''}''"

definition json_str :: "json \<Rightarrow> string" where
  "json_str j = (case j of JStr s \<Rightarrow> s | _ \<Rightarrow> json_repr j)"

section \<open>The checks\<close>

definition check_datasource :: "json \<Rightarrow> string list result" where
  "check_datasource ds =
     bind_r (subscript ds ''datasources'') (\<lambda>l. bind_r (first_item l) (\<lambda>d. bind_r (subscript d ''uid'') (\<lambda>uid.
       Inr (if uid \<noteq> JStr ''prometheus'' then [''datasource uid must be '' @ str_repr ''prometheus''] else []))))"

definition check_provider :: "json \<Rightarrow> string list result" where
  "check_provider prov =
     bind_r (subscript prov ''providers'') (\<lambda>l. bind_r (first_item l) (\<lambda>d. bind_r (subscript d ''options'') (\<lambda>opts.
       bind_r (subscript opts ''path'') (\<lambda>path.
         Inr (if path \<noteq> JStr ''/etc/grafana/dashboards''
              then [''dashboard provider path must be /etc/grafana/dashboards''] else [])))))"

definition panel_text :: "string \<Rightarrow> json \<Rightarrow> string" where
  "panel_text nm title = nm @ '': panel '' @ [CHR 0x27] @ json_str title @ [CHR 0x27]"

definition check_target :: "string \<Rightarrow> json \<Rightarrow> json \<Rightarrow> string list result" where
  "check_target nm p t =
     bind_r (get_field t ''expr'' JNull) (\<lambda>expr.
       if truthy expr then Inr []
       else bind_r (get_field p ''title'' JNull) (\<lambda>title. Inr [panel_text nm title @ '' has a target with no expr'']))"

definition check_panel :: "string \<Rightarrow> json \<Rightarrow> string list result" where
  "check_panel nm p =
     bind_r (get_field p ''type'' JNull) (\<lambda>ty.
       if ty \<in> {JStr ''row'', JStr ''text''} then Inr []
       else
         bind_r (get_field p ''datasource'' JNull) (\<lambda>d.
         bind_r (get_field (if truthy d then d else JObj []) ''uid'' JNull) (\<lambda>uid.
         bind_r (if uid \<noteq> JStr ''prometheus''
                 then bind_r (get_field p ''title'' JNull) (\<lambda>title. Inr [panel_text nm title @ '' missing prometheus datasource''])
                 else Inr []) (\<lambda>missing.
         bind_r (get_field p ''targets'' (JList [])) (\<lambda>ts.
         bind_r (iterate ts) (\<lambda>targets.
         bind_r (gather (check_target nm p) targets) (\<lambda>bad. Inr (missing @ bad))))))))"

definition check_dashboard :: "string \<Rightarrow> json \<Rightarrow> string list result" where
  "check_dashboard nm d =
     bind_r (get_field d ''uid'' JNull) (\<lambda>uid.
     bind_r (get_field d ''panels'' (JList [])) (\<lambda>ps.
     bind_r (iterate ps) (\<lambda>panels.
     bind_r (gather (\<lambda>p. bind_r (get_field p ''id'' JNull) (\<lambda>i. Inr [i])) panels) (\<lambda>ids.
     bind_r (set_of ids) (\<lambda>s.
     bind_r (gather (check_panel nm) panels) (\<lambda>es.
       Inr ((case uid of JStr _ \<Rightarrow> [] | _ \<Rightarrow> [nm @ '': missing uid'']) @
            (if length ids \<noteq> length s then [nm @ '': duplicate panel ids''] else []) @ es)))))))"

text \<open>A dashboard file is its name and the document, or the message of the \<open>JSONDecodeError\<close>.\<close>

definition check_file :: "string \<times> (string + json) \<Rightarrow> string list result" where
  "check_file file =
     (case file of
        (nm, Inl e) \<Rightarrow> Inr [nm @ '': invalid JSON: '' @ e]
      | (nm, Inr d) \<Rightarrow> check_dashboard nm d)"

text \<open>What a rule adds: names to \<open>recorded\<close>, names to \<open>alerts\<close>, errors.\<close>

datatype rule_fact = Recorded json | Alert json | Rule_error string

definition add_to_set :: "(json \<Rightarrow> rule_fact) \<Rightarrow> json \<Rightarrow> rule_fact list result" where
  "add_to_set c j = (if hashable j then Inr [c (set_key j)] else Inl (unhashable j))"

definition ANNOTATIONS :: "string list" where
  "ANNOTATIONS = [''summary'', ''description'', ''runbook_url'']"

definition check_rule :: "json \<Rightarrow> rule_fact list result" where
  "check_rule r =
     bind_r (contains r ''record'') (\<lambda>rec.
       if rec then bind_r (subscript r ''record'') (add_to_set Recorded)
       else bind_r (contains r ''alert'') (\<lambda>al.
         if \<not> al then Inr []
         else
           bind_r (subscript r ''alert'') (\<lambda>a.
           bind_r (add_to_set Alert a) (\<lambda>fact.
           bind_r (get_field r ''annotations'' (JObj [])) (\<lambda>ann.
           bind_r (iterate ann) (\<lambda>keys.
           bind_r (set_of keys) (\<lambda>s.
             Inr (fact @ (if set (map JStr ANNOTATIONS) \<subseteq> set s then []
                          else [Rule_error (''alert '' @ json_str a @ '' missing required annotations'')])))))))))"

definition check_rule_doc :: "json \<Rightarrow> rule_fact list result" where
  "check_rule_doc doc =
     bind_r (get_field doc ''groups'' (JList [])) (\<lambda>gs. bind_r (iterate gs)
       (gather (\<lambda>g. bind_r (get_field g ''rules'' (JList [])) (\<lambda>rs. bind_r (iterate rs) (gather check_rule)))))"

definition REQUIRED_RULES :: "string list" where
  "REQUIRED_RULES = [''api:request_rate'', ''api:error_rate'', ''api:latency:p95'', ''api:availability'']"

definition recorded_of :: "rule_fact list \<Rightarrow> json list" where
  "recorded_of fs = remdups (concat (map (\<lambda>f. case f of Recorded j \<Rightarrow> [j] | _ \<Rightarrow> []) fs))"

definition alerts_of :: "rule_fact list \<Rightarrow> json list" where
  "alerts_of fs = remdups (concat (map (\<lambda>f. case f of Alert j \<Rightarrow> [j] | _ \<Rightarrow> []) fs))"

definition rule_errors :: "rule_fact list \<Rightarrow> string list" where
  "rule_errors fs = concat (map (\<lambda>f. case f of Rule_error e \<Rightarrow> [e] | _ \<Rightarrow> []) fs)"

text \<open>The whole script: its exit code and what it prints.\<close>

definition validate_observability ::
  "json \<Rightarrow> json \<Rightarrow> (string \<times> (string + json)) list \<Rightarrow> json list \<Rightarrow> (int \<times> string list) result" where
  "validate_observability ds prov dashboards rule_docs =
     bind_r (check_datasource ds) (\<lambda>e1.
     bind_r (check_provider prov) (\<lambda>e2.
     bind_r (gather check_file dashboards) (\<lambda>e3.
     bind_r (gather check_rule_doc rule_docs) (\<lambda>facts.
       let none = (if dashboards = [] then [''no dashboards found''] else []);
           missing = map (\<lambda>r. ''missing recording rule: '' @ r)
                       (filter (\<lambda>r. JStr r \<notin> set (recorded_of facts)) REQUIRED_RULES);
           errors = e1 @ e2 @ none @ e3 @ rule_errors facts @ missing;
           summary = ''dashboards: '' @ int_str (int (length dashboards)) @ ''  recorded rules: '' @
                     int_str (int (length (recorded_of facts))) @ ''  alerts: '' @ int_str (int (length (alerts_of facts)))
       in Inr (if errors \<noteq> [] then (1, [summary, ''VALIDATION FAILED:''] @ map (\<lambda>e. ''  - '' @ e) errors)
               else (0, [summary, ''observability validation OK'']))))))"

section \<open>What it accepts\<close>

definition is_obj :: "json \<Rightarrow> bool" where
  "is_obj j \<longleftrightarrow> (case j of JObj _ \<Rightarrow> True | _ \<Rightarrow> False)"

definition field :: "json \<Rightarrow> string \<Rightarrow> json \<Rightarrow> json" where
  "field j k d = (case j of JObj kvs \<Rightarrow> dict_get kvs k d | _ \<Rightarrow> d)"

definition items :: "json \<Rightarrow> json list" where
  "items j = (case j of JList js \<Rightarrow> js | _ \<Rightarrow> [])"

definition is_list :: "json \<Rightarrow> bool" where
  "is_list j \<longleftrightarrow> (case j of JList _ \<Rightarrow> True | _ \<Rightarrow> False)"

definition has :: "json \<Rightarrow> string \<Rightarrow> bool" where
  "has j k \<longleftrightarrow> (case j of JObj kvs \<Rightarrow> map_of kvs k \<noteq> None | _ \<Rightarrow> False)"

lemma obj_access:
  assumes "is_obj j"
  shows "get_field j k d = Inr (field j k d)" "contains j k = Inr (has j k)"
    "has j k \<Longrightarrow> subscript j k = Inr (field j k d)"
  using assms by (auto simp: is_obj_def get_field_def field_def contains_def has_def subscript_def dict_get_def
      split: json.splits option.splits)

lemma list_access: "is_list j \<Longrightarrow> iterate j = Inr (items j)"
  by (auto simp: is_list_def iterate_def items_def split: json.splits)

lemma gather_total:
  assumes "\<And>x. x \<in> set xs \<Longrightarrow> f x = Inr (g x)"
  shows "gather f xs = Inr (concat (map g xs))"
  using assms by (induction xs) simp_all

lemma set_of_total:
  assumes "list_all hashable js"
  shows "\<exists>s. set_of js = Inr s \<and> distinct s \<and> set s = set_key ` set js"
  using assms by (induction js) auto

text \<open>Documents whose values have the types the configuration formats prescribe.\<close>

definition panel_shaped :: "json \<Rightarrow> bool" where
  "panel_shaped p \<longleftrightarrow> is_obj p \<and> hashable (field p ''id'' JNull) \<and>
     (truthy (field p ''datasource'' JNull) \<longrightarrow> is_obj (field p ''datasource'' JNull)) \<and>
     is_list (field p ''targets'' (JList [])) \<and> list_all is_obj (items (field p ''targets'' (JList [])))"

definition dashboard_shaped :: "json \<Rightarrow> bool" where
  "dashboard_shaped d \<longleftrightarrow> is_obj d \<and> is_list (field d ''panels'' (JList [])) \<and>
     list_all panel_shaped (items (field d ''panels'' (JList [])))"

definition rule_shaped :: "json \<Rightarrow> bool" where
  "rule_shaped r \<longleftrightarrow> is_obj r \<and> (has r ''record'' \<longrightarrow> hashable (field r ''record'' JNull)) \<and>
     (has r ''alert'' \<longrightarrow> hashable (field r ''alert'' JNull)) \<and> is_obj (field r ''annotations'' (JObj []))"

definition rules_of :: "json \<Rightarrow> json list" where
  "rules_of doc = concat (map (\<lambda>g. items (field g ''rules'' (JList []))) (items (field doc ''groups'' (JList []))))"

definition doc_shaped :: "json \<Rightarrow> bool" where
  "doc_shaped doc \<longleftrightarrow> is_obj doc \<and> is_list (field doc ''groups'' (JList [])) \<and>
     list_all (\<lambda>g. is_obj g \<and> is_list (field g ''rules'' (JList []))) (items (field doc ''groups'' (JList []))) \<and>
     list_all rule_shaped (rules_of doc)"

text \<open>What each part promises.\<close>

definition panel_ok :: "json \<Rightarrow> bool" where
  "panel_ok p \<longleftrightarrow> field p ''type'' JNull \<in> {JStr ''row'', JStr ''text''} \<or>
     (field (field p ''datasource'' JNull) ''uid'' JNull = JStr ''prometheus'' \<and>
      (\<forall>t \<in> set (items (field p ''targets'' (JList []))). truthy (field t ''expr'' JNull)))"

definition dashboard_ok :: "json \<Rightarrow> bool" where
  "dashboard_ok d \<longleftrightarrow> (\<exists>u. field d ''uid'' JNull = JStr u) \<and>
     distinct (map (\<lambda>p. set_key (field p ''id'' JNull)) (items (field d ''panels'' (JList [])))) \<and>
     (\<forall>p \<in> set (items (field d ''panels'' (JList []))). panel_ok p)"

definition alert_ok :: "json \<Rightarrow> bool" where
  "alert_ok r \<longleftrightarrow> (\<forall>a \<in> set ANNOTATIONS. has (field r ''annotations'' (JObj [])) a)"

section \<open>Equivalence with the checks\<close>

lemma gather_errors:
  assumes "\<And>x. x \<in> set xs \<Longrightarrow> \<exists>es. f x = Inr es \<and> (es = [] \<longleftrightarrow> P x)"
  shows "\<exists>es. gather f xs = Inr es \<and> (es = [] \<longleftrightarrow> (\<forall>x \<in> set xs. P x))"
  using assms
proof (induction xs)
  case (Cons x xs)
  obtain es where "f x = Inr es" "es = [] \<longleftrightarrow> P x" using Cons.prems [of x] by auto
  moreover obtain es' where "gather f xs = Inr es'" "es' = [] \<longleftrightarrow> (\<forall>x \<in> set xs. P x)" using Cons by auto
  ultimately show ?case by auto
qed simp

lemma check_target_total:
  assumes "is_obj p" "is_obj t"
  shows "\<exists>es. check_target nm p t = Inr es \<and> (es = [] \<longleftrightarrow> truthy (field t ''expr'' JNull))"
  using assms by (simp add: check_target_def obj_access)

lemma check_panel_total:
  assumes "panel_shaped p"
  shows "\<exists>es. check_panel nm p = Inr es \<and> (es = [] \<longleftrightarrow> panel_ok p)"
proof (cases "field p ''type'' JNull \<in> {JStr ''row'', JStr ''text''}")
  case True
  then show ?thesis using assms by (auto simp: check_panel_def obj_access panel_shaped_def panel_ok_def)
next
  case False
  let ?d = "field p ''datasource'' JNull" and ?ts = "field p ''targets'' (JList [])"
  have p: "is_obj p" "is_list ?ts" "list_all is_obj (items ?ts)" using assms by (auto simp: panel_shaped_def)
  have uid: "get_field (if truthy ?d then ?d else JObj []) ''uid'' JNull = Inr (field ?d ''uid'' JNull)"
    using assms by (cases ?d) (auto simp: panel_shaped_def get_field_def is_obj_def field_def dict_get_def)
  obtain bad where "gather (check_target nm p) (items ?ts) = Inr bad"
    "bad = [] \<longleftrightarrow> (\<forall>t \<in> set (items ?ts). truthy (field t ''expr'' JNull))"
    using gather_errors [of "items ?ts" "check_target nm p" "\<lambda>t. truthy (field t ''expr'' JNull)"] check_target_total [OF p(1)] p(3)
    by (auto simp: list_all_iff)
  then show ?thesis
    using False p uid by (auto simp: check_panel_def obj_access list_access panel_ok_def)
qed

lemma length_set_distinct:
  assumes "distinct s" "set s = f ` set xs" shows "length xs = length s \<longleftrightarrow> distinct (map f xs)"
proof -
  have "length s = card (set (map f xs))" using assms distinct_card [of s] by simp
  moreover have "distinct (map f xs) \<longleftrightarrow> card (set (map f xs)) = length xs"
    using card_distinct [of "map f xs"] distinct_card [of "map f xs"] by (metis length_map)
  ultimately show ?thesis by metis
qed

lemma check_dashboard_total:
  assumes "dashboard_shaped d"
  shows "\<exists>es. check_dashboard nm d = Inr es \<and> (es = [] \<longleftrightarrow> dashboard_ok d)"
proof -
  let ?ps = "items (field d ''panels'' (JList []))" and ?id = "\<lambda>p. field p ''id'' JNull"
  have d: "is_obj d" "is_list (field d ''panels'' (JList []))" "list_all panel_shaped ?ps"
    using assms by (auto simp: dashboard_shaped_def)
  have "gather (\<lambda>p. bind_r (get_field p ''id'' JNull) (\<lambda>i. Inr [i])) ?ps = Inr (concat (map (\<lambda>p. [?id p]) ?ps))"
    using d(3) by (intro gather_total) (auto simp: list_all_iff panel_shaped_def obj_access)
  then have ids: "gather (\<lambda>p. bind_r (get_field p ''id'' JNull) (\<lambda>i. Inr [i])) ?ps = Inr (map ?id ?ps)"
    by (simp add: concat_map_singleton)
  obtain s where s: "set_of (map ?id ?ps) = Inr s" "distinct s" "set s = set_key ` set (map ?id ?ps)"
    using set_of_total [of "map ?id ?ps"] d(3) by (auto simp: list_all_iff panel_shaped_def)
  have dup: "length ?ps = length s \<longleftrightarrow> distinct (map (\<lambda>p. set_key (?id p)) ?ps)"
    using length_set_distinct [OF s(2,3)] by (simp add: comp_def)
  have uid: "(case field d ''uid'' JNull of JStr _ \<Rightarrow> [] | _ \<Rightarrow> [nm @ '': missing uid'']) = [] \<longleftrightarrow> (\<exists>u. field d ''uid'' JNull = JStr u)"
    by (cases "field d ''uid'' JNull") simp_all
  obtain es where es: "gather (check_panel nm) ?ps = Inr es" "es = [] \<longleftrightarrow> (\<forall>p \<in> set ?ps. panel_ok p)"
    using gather_errors [of ?ps "check_panel nm" panel_ok] check_panel_total d(3) by (auto simp: list_all_iff)
  then show ?thesis
    using d ids s(1) dup uid by (simp add: check_dashboard_def obj_access list_access dashboard_ok_def es)
qed

lemma rule_errors_append [simp]: "rule_errors (xs @ ys) = rule_errors xs @ rule_errors ys"
  by (simp add: rule_errors_def)

lemma set_key_str [simp]: "set_key j = JStr n \<longleftrightarrow> j = JStr n"
  by (auto simp: set_key_def split: json.splits pyfloat.splits if_splits)

text \<open>What one rule, or a group of them, contributes.\<close>

definition contributes :: "rule_fact list result \<Rightarrow> (string \<Rightarrow> bool) \<Rightarrow> bool \<Rightarrow> bool" where
  "contributes r names ok \<longleftrightarrow>
     (\<exists>fs. r = Inr fs \<and> (\<forall>n. Recorded (JStr n) \<in> set fs \<longleftrightarrow> names n) \<and> (rule_errors fs = [] \<longleftrightarrow> ok))"

lemma gather_contributes:
  assumes "\<And>x. x \<in> set xs \<Longrightarrow> contributes (f x) (names x) (good x)"
  shows "contributes (gather f xs) (\<lambda>n. \<exists>x \<in> set xs. names x n) (\<forall>x \<in> set xs. good x)"
  using assms
proof (induction xs)
  case (Cons x xs)
  have "contributes (f x) (names x) (good x)"
    "contributes (gather f xs) (\<lambda>n. \<exists>x \<in> set xs. names x n) (\<forall>x \<in> set xs. good x)" using Cons by auto
  then show ?case unfolding contributes_def by auto
qed (simp add: contributes_def rule_errors_def)

definition records :: "json \<Rightarrow> string \<Rightarrow> bool" where
  "records r n \<longleftrightarrow> has r ''record'' \<and> field r ''record'' JNull = JStr n"

definition rule_ok :: "json \<Rightarrow> bool" where
  "rule_ok r \<longleftrightarrow> has r ''alert'' \<and> \<not> has r ''record'' \<longrightarrow> alert_ok r"

lemma annotation_keys:
  assumes "is_obj ann"
  shows "\<exists>keys s. iterate ann = Inr keys \<and> set_of keys = Inr s \<and> (\<forall>a. JStr a \<in> set s \<longleftrightarrow> has ann a)"
proof -
  obtain kvs where ann: "ann = JObj kvs" using assms by (cases ann) (auto simp: is_obj_def)
  let ?keys = "map (\<lambda>(k, v). JStr k) kvs"
  obtain s where s: "set_of ?keys = Inr s" "set s = set_key ` set ?keys"
    using set_of_total [of ?keys] by (force simp: list_all_iff hashable_def)
  have "JStr a \<in> set s \<longleftrightarrow> has ann a" for a
  proof -
    have "JStr a \<in> set s \<longleftrightarrow> (\<exists>k \<in> set ?keys. set_key k = JStr a)" unfolding s(2) image_iff by metis
    also have "\<dots> \<longleftrightarrow> has ann a" by (force simp: ann has_def map_of_eq_None_iff)
    finally show ?thesis .
  qed
  then show ?thesis using s(1) ann by (simp add: iterate_def)
qed

lemma check_rule_total:
  assumes "rule_shaped r"
  shows "contributes (check_rule r) (records r) (rule_ok r)"
proof -
  have r: "is_obj r" "is_obj (field r ''annotations'' (JObj []))" using assms by (auto simp: rule_shaped_def)
  note acc = obj_access(1,2) [OF r(1)] obj_access(3) [OF r(1), where d = JNull]
  show ?thesis
  proof (cases "has r ''record''")
    case True
    then show ?thesis
      using assms acc by (simp add: check_rule_def add_to_set_def rule_shaped_def contributes_def records_def rule_ok_def rule_errors_def)
         (metis set_key_str)
  next
    case norec: False
    show ?thesis
    proof (cases "has r ''alert''")
      case True
      obtain keys s where k: "iterate (field r ''annotations'' (JObj [])) = Inr keys" "set_of keys = Inr s"
        "\<And>a. JStr a \<in> set s \<longleftrightarrow> has (field r ''annotations'' (JObj [])) a" using annotation_keys [OF r(2)] by blast
      have ann: "set (map JStr ANNOTATIONS) \<subseteq> set s \<longleftrightarrow> alert_ok r" using k(3) by (auto simp: alert_ok_def)
      show ?thesis
        using norec True assms acc k(1,2) ann
        by (simp add: check_rule_def add_to_set_def rule_shaped_def contributes_def records_def rule_ok_def rule_errors_def)
    next
      case False
      then show ?thesis using norec acc by (simp add: check_rule_def contributes_def records_def rule_ok_def rule_errors_def)
    qed
  qed
qed

lemma check_rule_doc_total:
  assumes "doc_shaped doc"
  shows "contributes (check_rule_doc doc) (\<lambda>n. \<exists>r \<in> set (rules_of doc). records r n) (\<forall>r \<in> set (rules_of doc). rule_ok r)"
proof -
  let ?gs = "items (field doc ''groups'' (JList []))" and ?rs = "\<lambda>g. items (field g ''rules'' (JList []))"
  let ?f = "\<lambda>g. bind_r (get_field g ''rules'' (JList [])) (\<lambda>rs. bind_r (iterate rs) (gather check_rule))"
  have "contributes (?f g) (\<lambda>n. \<exists>r \<in> set (?rs g). records r n) (\<forall>r \<in> set (?rs g). rule_ok r)" if "g \<in> set ?gs" for g
    using that assms gather_contributes [of "?rs g" check_rule records rule_ok] check_rule_total
    by (auto simp: doc_shaped_def list_all_iff obj_access list_access rules_of_def)
  then have "contributes (gather ?f ?gs) (\<lambda>n. \<exists>g \<in> set ?gs. \<exists>r \<in> set (?rs g). records r n)
      (\<forall>g \<in> set ?gs. \<forall>r \<in> set (?rs g). rule_ok r)" by (rule gather_contributes)
  then show ?thesis
    using assms by (simp add: check_rule_doc_def doc_shaped_def obj_access list_access rules_of_def)
qed

section \<open>Property\<close>

definition first_entry :: "json \<Rightarrow> string \<Rightarrow> json" where
  "first_entry j k = (case items (field j k JNull) of [] \<Rightarrow> JNull | x # _ \<Rightarrow> x)"

definition provisioning_shaped :: "json \<Rightarrow> json \<Rightarrow> bool" where
  "provisioning_shaped ds prov \<longleftrightarrow>
     is_obj ds \<and> items (field ds ''datasources'' JNull) \<noteq> [] \<and> has (first_entry ds ''datasources'') ''uid'' \<and>
     is_obj prov \<and> items (field prov ''providers'' JNull) \<noteq> [] \<and> has (first_entry prov ''providers'') ''options'' \<and>
     has (field (first_entry prov ''providers'') ''options'' JNull) ''path''"

definition observability_ok :: "json \<Rightarrow> json \<Rightarrow> (string \<times> (string + json)) list \<Rightarrow> json list \<Rightarrow> bool" where
  "observability_ok ds prov dashboards docs \<longleftrightarrow>
     field (first_entry ds ''datasources'') ''uid'' JNull = JStr ''prometheus'' \<and>
     field (field (first_entry prov ''providers'') ''options'' JNull) ''path'' JNull = JStr ''/etc/grafana/dashboards'' \<and>
     dashboards \<noteq> [] \<and> (\<forall>(nm, d) \<in> set dashboards. \<exists>j. d = Inr j \<and> dashboard_ok j) \<and>
     (\<forall>doc \<in> set docs. \<forall>r \<in> set (rules_of doc). rule_ok r) \<and>
     (\<forall>n \<in> set REQUIRED_RULES. \<exists>doc \<in> set docs. \<exists>r \<in> set (rules_of doc). records r n)"

lemma has_access: "has j k \<Longrightarrow> subscript j k = Inr (field j k JNull)"
  by (auto simp: has_def subscript_def field_def dict_get_def split: json.splits option.splits)

lemma first_entry_access:
  assumes "is_obj j" "items (field j k JNull) \<noteq> []"
  shows "subscript j k = Inr (field j k JNull)" "first_item (field j k JNull) = Inr (first_entry j k)"
proof -
  have "has j k" using assms by (auto simp: has_def is_obj_def items_def field_def dict_get_def split: json.splits option.splits)
  then show "subscript j k = Inr (field j k JNull)" by (rule has_access)
  show "first_item (field j k JNull) = Inr (first_entry j k)"
    using assms(2) by (auto simp: first_item_def first_entry_def items_def split: json.splits list.splits)
qed

lemma check_provisioning:
  assumes "provisioning_shaped ds prov"
  shows "\<exists>es. check_datasource ds = Inr es \<and>
      (es = [] \<longleftrightarrow> field (first_entry ds ''datasources'') ''uid'' JNull = JStr ''prometheus'')"
    "\<exists>es. check_provider prov = Inr es \<and>
      (es = [] \<longleftrightarrow> field (field (first_entry prov ''providers'') ''options'' JNull) ''path'' JNull = JStr ''/etc/grafana/dashboards'')"
  using assms has_access
  by (simp_all add: provisioning_shaped_def check_datasource_def check_provider_def first_entry_access)

lemma check_file_total:
  assumes "case d of Inl _ \<Rightarrow> True | Inr j \<Rightarrow> dashboard_shaped j"
  shows "\<exists>es. check_file (nm, d) = Inr es \<and> (es = [] \<longleftrightarrow> (\<exists>j. d = Inr j \<and> dashboard_ok j))"
  using assms check_dashboard_total by (cases d) (simp_all add: check_file_def)

text \<open>
  C27. On documents whose values have the prescribed types the script raises nothing and exits with 0 or
  1, and it exits with 0 exactly when the configuration is sound: the data source and the dashboard path
  are the provisioned ones, there is a dashboard, every dashboard is valid JSON with a uid, distinct
  panel ids and panels on Prometheus whose targets all have a query, every alert has its three
  annotations, and the four recording rules the SLO dashboards use exist.
\<close>

theorem validator_decides:
  assumes "provisioning_shaped ds prov"
    and "\<And>nm d. (nm, d) \<in> set dashboards \<Longrightarrow> case d of Inl _ \<Rightarrow> True | Inr j \<Rightarrow> dashboard_shaped j"
    and "list_all doc_shaped docs"
  shows "\<exists>code out. validate_observability ds prov dashboards docs = Inr (code, out) \<and> code \<in> {0, 1} \<and>
    (code = 0 \<longleftrightarrow> observability_ok ds prov dashboards docs)"
proof -
  obtain e1 e2 where e: "check_datasource ds = Inr e1" "check_provider prov = Inr e2"
    "e1 = [] \<longleftrightarrow> field (first_entry ds ''datasources'') ''uid'' JNull = JStr ''prometheus''"
    "e2 = [] \<longleftrightarrow> field (field (first_entry prov ''providers'') ''options'' JNull) ''path'' JNull = JStr ''/etc/grafana/dashboards''"
    using check_provisioning [OF assms(1)] by blast
  have "\<exists>es. gather check_file dashboards = Inr es \<and>
      (es = [] \<longleftrightarrow> (\<forall>x \<in> set dashboards. \<exists>j. snd x = Inr j \<and> dashboard_ok j))"
    by (rule gather_errors) (use assms(2) check_file_total in \<open>metis prod.collapse\<close>)
  then obtain e3 where e3: "gather check_file dashboards = Inr e3"
    "e3 = [] \<longleftrightarrow> (\<forall>x \<in> set dashboards. \<exists>j. snd x = Inr j \<and> dashboard_ok j)" by blast
  have "contributes (gather check_rule_doc docs) (\<lambda>n. \<exists>doc \<in> set docs. \<exists>r \<in> set (rules_of doc). records r n)
      (\<forall>doc \<in> set docs. \<forall>r \<in> set (rules_of doc). rule_ok r)"
    by (rule gather_contributes [OF check_rule_doc_total]) (use assms(3) in \<open>auto simp: list_all_iff\<close>)
  then obtain facts where f: "gather check_rule_doc docs = Inr facts"
    "\<And>n. Recorded (JStr n) \<in> set facts \<longleftrightarrow> (\<exists>doc \<in> set docs. \<exists>r \<in> set (rules_of doc). records r n)"
    "rule_errors facts = [] \<longleftrightarrow> (\<forall>doc \<in> set docs. \<forall>r \<in> set (rules_of doc). rule_ok r)"
    unfolding contributes_def by blast
  have rec: "JStr n \<in> set (recorded_of facts) \<longleftrightarrow> Recorded (JStr n) \<in> set facts" for n
    by (force simp: recorded_of_def split: rule_fact.splits)
  have missing: "filter (\<lambda>r. JStr r \<notin> set (recorded_of facts)) REQUIRED_RULES = [] \<longleftrightarrow>
      (\<forall>n \<in> set REQUIRED_RULES. \<exists>doc \<in> set docs. \<exists>r \<in> set (rules_of doc). records r n)"
    unfolding filter_empty_conv rec f(2) by simp
  have dash: "(\<forall>(nm, d) \<in> set dashboards. \<exists>j. d = Inr j \<and> dashboard_ok j) \<longleftrightarrow> e3 = []"
    unfolding e3(2) by (simp add: case_prod_beta)
  show ?thesis
    unfolding observability_ok_def dash missing [symmetric] f(3) [symmetric] e(3,4) [symmetric]
    by (simp add: validate_observability_def e(1,2) e3(1) f(1) Let_def)
qed

text \<open>A small sound configuration.\<close>

definition demo_datasources :: json where
  "demo_datasources = JObj [(''datasources'', JList [JObj [(''uid'', JStr ''prometheus'')]])]"

definition demo_providers :: json where
  "demo_providers = JObj [(''providers'', JList [JObj [(''options'', JObj [(''path'', JStr ''/etc/grafana/dashboards'')])]])]"

definition demo_dashboard :: json where
  "demo_dashboard = JObj [(''uid'', JStr ''slo''), (''panels'', JList [JObj [(''id'', JInt 1), (''type'', JStr ''graph''),
     (''datasource'', JObj [(''uid'', JStr ''prometheus'')]), (''targets'', JList [JObj [(''expr'', JStr ''up'')]])]])]"

definition demo_rules :: json where
  "demo_rules = JObj [(''groups'', JList [JObj [(''rules'', JList
     (JObj [(''alert'', JStr ''Down''), (''annotations'', JObj (map (\<lambda>a. (a, JStr ''x'')) ANNOTATIONS))] #
      map (\<lambda>n. JObj [(''record'', JStr n)]) REQUIRED_RULES))]])]"

theorem validator_decides_witness:
  "\<exists>out. validate_observability demo_datasources demo_providers [(''slo.json'', Inr demo_dashboard)] [demo_rules] = Inr (0, out)"
proof -
  have "provisioning_shaped demo_datasources demo_providers" by code_simp
  moreover have "dashboard_shaped demo_dashboard" by code_simp
  then have "case d of Inl _ \<Rightarrow> True | Inr j \<Rightarrow> dashboard_shaped j" if "(nm, d) \<in> set [(''slo.json'', Inr demo_dashboard)]" for nm d
    using that by simp
  moreover have "list_all doc_shaped [demo_rules]" by code_simp
  ultimately obtain code out where v: "validate_observability demo_datasources demo_providers [(''slo.json'', Inr demo_dashboard)] [demo_rules] =
      Inr (code, out)" "code = 0 \<longleftrightarrow> observability_ok demo_datasources demo_providers [(''slo.json'', Inr demo_dashboard)] [demo_rules]"
    using validator_decides by metis
  have d: "dashboard_ok demo_dashboard"
    by (simp add: dashboard_ok_def demo_dashboard_def panel_ok_def field_def items_def dict_get_def)
  have r: "set (rules_of demo_rules) = insert (JObj [(''alert'', JStr ''Down''), (''annotations'', JObj (map (\<lambda>a. (a, JStr ''x'')) ANNOTATIONS))])
      ((\<lambda>n. JObj [(''record'', JStr n)]) ` set REQUIRED_RULES)"
    by (simp add: rules_of_def demo_rules_def field_def items_def dict_get_def)
  have "observability_ok demo_datasources demo_providers [(''slo.json'', Inr demo_dashboard)] [demo_rules]"
    using d by (simp add: observability_ok_def r first_entry_def demo_datasources_def demo_providers_def field_def items_def dict_get_def
        records_def has_def rule_ok_def alert_ok_def ANNOTATIONS_def)
  then show ?thesis using v by auto
qed

end
