(* ===== verification/Process.thy ===== *)
theory Process
  imports App
begin

text \<open>
  A running process of any of the three services at the granularity of the event loop. A request is a task that runs from one
  \<open>await\<close> expression to the next; between its segments any other task may run, also where the awaited
  coroutine would not really suspend, so every interleaving of the code is one of the model. \<open>pexec\<close>
  makes one step of the process: a list of events is an interleaving of requests to all routes of the
  service, of disconnecting clients, of the background tasks of chaos and, in the worker, of the job
  loop. Each task has its own context variables, as \<open>contextvars\<close> gives them.
\<close>

section \<open>Segments\<close>

text \<open>\<open>RateLimitMiddleware.dispatch\<close> up to \<open>call_next\<close>: the answer, or \<open>None\<close> where it calls on.\<close>

definition limit_step :: "pyfloat \<Rightarrow> request \<Rightarrow> service \<Rightarrow> response result option \<times> service" where
  "limit_step now req sv =
     (if excluded (req_path req) then (None, sv)
      else
        let key = client_key req
        in case check key now (limiter sv) (plat sv) of
             (Inl x, l, p) \<Rightarrow> (Some (Inl x), sv\<lparr>limiter := l, plat := p\<rparr>)
           | (Inr result, l, p) \<Rightarrow>
               let sv1 = sv\<lparr>limiter := l, plat := p\<rparr>
               in if \<not> allowed result then
                    (case pyceil (retry_after result) of
                       Inl x \<Rightarrow> (Some (Inl x), sv1)
                     | Inr c \<Rightarrow>
                         let retry = max 1 c
                         in (Some (Inr (JSONResponse 429
                                (JObj [(''detail'', JStr ''rate limit exceeded''), (''retry_after'', JInt retry)])
                                [(''Retry-After'', int_str retry)])),
                             sv1\<lparr>plat := record_event Source_RATE_LIMIT ''rejected''
                               [(''client'', JStr key), (''path'', JStr (req_path req)), (''retry_after'', JInt retry)]
                               (plat sv1)\<rparr>))
                  else (None, sv1))"

text \<open>\<open>breaker.call\<close> up to the await of the guarded function, and from its end on. The task holds the
  breaker object.\<close>

definition enter_step :: "string \<Rightarrow> breaker_config \<Rightarrow> pyfloat \<Rightarrow> service \<Rightarrow> breaker result \<times> service" where
  "enter_step n cfg now sv =
     (case get_or_create n cfg (breakers sv) (plat sv) of
        (b, reg, p) \<Rightarrow>
          (case enter now b p of
             (r, b1, p1) \<Rightarrow>
               (case r of Inl x \<Rightarrow> Inl x | Inr _ \<Rightarrow> Inr b1, sv\<lparr>breakers := put_breaker b1 reg, plat := p1\<rparr>)))"

definition exit_step :: "string \<Rightarrow> breaker \<Rightarrow> pyfloat \<Rightarrow> 'a result \<Rightarrow> service \<Rightarrow> service" where
  "exit_step n b1 now r sv =
     (let b = dict_get (breakers sv) n b1;
          leave = (\<lambda>failed. case exit_call failed now b (plat sv) of
                     (b2, p2) \<Rightarrow> sv\<lparr>breakers := put_breaker b2 (breakers sv), plat := p2\<rparr>)
      in case r of
           Inl x \<Rightarrow> if expected (config b) x then leave True else sv
         | Inr _ \<Rightarrow> leave False)"

lemma rate_limit_split:
  "rate_limit_dispatch now call_next req sv =
     (case limit_step now req sv of (Some r, sv') \<Rightarrow> (r, req, sv') | (None, sv') \<Rightarrow> call_next req sv')"
  by (auto simp: rate_limit_dispatch_def limit_step_def Let_def split: prod.splits sum.splits)

lemma call_in_service_split:
  "call_in_service n cfg now1 now2 f sv =
     (case enter_step n cfg now1 sv of
        (Inl x, sv1) \<Rightarrow> (Inl x, sv1)
      | (Inr b, sv1) \<Rightarrow> (case f sv1 of (r, sv2) \<Rightarrow> (r, exit_step n b now2 r sv2)))"
  by (auto simp: call_in_service_def enter_step_def exit_step_def Let_def split: prod.splits sum.splits)

section \<open>The services\<close>

text \<open>What a service module hands to \<open>create_service_app\<close>, and the breaker that guards its dependency.\<close>

datatype role = API | AUTH | WORKER

fun role_name :: "role \<Rightarrow> string" where
  "role_name API = ''api''"
| "role_name AUTH = ''auth''"
| "role_name WORKER = ''worker''"

fun role_limited :: "role \<Rightarrow> bool" where
  "role_limited API = True"
| "role_limited AUTH = True"
| "role_limited WORKER = False"

fun role_readiness :: "role \<Rightarrow> (service \<Rightarrow> json result \<times> service) option" where
  "role_readiness API = Some api_readiness"
| "role_readiness AUTH = Some auth_readiness"
| "role_readiness WORKER = None"

fun role_guard :: "role \<Rightarrow> (string \<times> breaker_config) option" where
  "role_guard API = Some (''auth'', auth_breaker_config)"
| "role_guard AUTH = Some (''identity-provider'', identity_breaker_config)"
| "role_guard WORKER = None"

section \<open>Tasks\<close>

text \<open>The handlers of the services by route. Only \<open>create_order\<close> and \<open>validate\<close> await anything: every other
  handler runs in one go. The framework itself answers requests for unknown routes, with invalid payloads and for the docs.\<close>

datatype control = Latency latency_config | Errors error_config | Cpu cpu_config | Memory memory_config | Reset_all | Status

datatype plain_handler =
    Chaos_control control
  | Health
  | Ready
  | Breaker_status
  | Rate_limit_status
  | List_failures int "string option"
  | Clear_failures
  | By_framework "response result"

datatype endpoint =
    Create_order order_request "string option"
  | Validate token_request
  | At_once plain_handler

text \<open>Where a task waits: before the chaos hook, in injected latency, before the limiter, before the
  endpoint, for the answer of auth (with the breaker it entered), in the sleep of a created order, and
  for the simulated identity provider.\<close>

datatype pc =
    Hook
  | Sleeping
  | Limiting
  | Entering
  | Calling order_request "string option" breaker
  | Creating json
  | Validating token_request breaker

record flight =
  freq :: request
  fend :: endpoint
  frid :: string
  fcid :: string
  fstart :: pyfloat
  fpc :: pc

text \<open>
  What lies outside the program: the HTTP library, as it behaves at a reading of the clock (so that
  auth may answer, fail or time out differently every time), how the framework turns the outcome of an
  endpoint into a response, and the route it enters into the scope; and which service this is, with
  the client that its module makes.
\<close>

record 'r world =
  w_role :: role
  w_httpx :: "pyfloat \<Rightarrow> 'r httpx"
  w_client :: http_client
  w_render :: "json result \<Rightarrow> response result"
  w_route :: "request \<Rightarrow> string option"

text \<open>The other tasks run between the segments, so that the call itself changes nothing.\<close>

definition auth_post :: "'r world \<Rightarrow> pyfloat \<Rightarrow> string \<Rightarrow> json \<Rightarrow> service \<Rightarrow> json result \<times> service" where
  "auth_post w now path payload = post_json (w_httpx w now) id (w_client w) path (Some payload) []"

lemma auth_post_state [simp]: "snd (auth_post w now path payload sv) = sv"
  by (simp add: auth_post_def post_json_def)

definition matched :: "'r world \<Rightarrow> request \<Rightarrow> request" where
  "matched w req = req\<lparr>route := w_route w req\<rparr>"

fun handle_control :: "control \<Rightarrow> chaos_controller \<Rightarrow> platform \<Rightarrow> json result \<times> chaos_controller \<times> platform" where
  "handle_control (Latency cfg) c p = (case set_latency cfg c p of (j, cp) \<Rightarrow> (Inr j, cp))"
| "handle_control (Errors cfg) c p = set_errors cfg c p"
| "handle_control (Cpu cfg) c p = (case trigger_cpu cfg c p of (j, cp) \<Rightarrow> (Inr j, cp))"
| "handle_control (Memory cfg) c p = trigger_memory cfg c p"
| "handle_control Reset_all c p = (case chaos_reset c p of (j, cp) \<Rightarrow> (Inr j, cp))"
| "handle_control Status c p = (Inr (chaos_status c), c, p)"

fun handle_at_once :: "'r world \<Rightarrow> pyfloat \<Rightarrow> plain_handler \<Rightarrow> service \<Rightarrow> response result \<times> service" where
  "handle_at_once w now (Chaos_control x) sv =
     (case handle_control x (chaos sv) (plat sv) of (r, c, p) \<Rightarrow> (w_render w r, sv\<lparr>chaos := c, plat := p\<rparr>))"
| "handle_at_once w now Health sv = (w_render w (Inr (health (role_name (w_role w)) sv)), sv)"
| "handle_at_once w now Ready sv = ready (role_name (w_role w)) (role_readiness (w_role w)) sv"
| "handle_at_once w now Breaker_status sv = (w_render w (Inr (breaker_status now (breakers sv))), sv)"
| "handle_at_once w now Rate_limit_status sv =
     (w_render w (fst (rate_limit_status (if role_limited (w_role w) then Some (limiter sv) else None) (plat sv))), sv)"
| "handle_at_once w now (List_failures limit src) sv =
     (case list_failures limit src (plat sv) of (r, p) \<Rightarrow> (w_render w r, sv\<lparr>plat := p\<rparr>))"
| "handle_at_once w now Clear_failures sv =
     (case clear_failures (plat sv) of (r, p) \<Rightarrow> (w_render w r, sv\<lparr>plat := p\<rparr>))"
| "handle_at_once w now (By_framework r) sv = (r, sv)"

text \<open>Without the middleware, a worker asks for the default limiter only to show it, and finds it as the
  environment makes it, since nothing takes a token from it.\<close>

text \<open>A segment ends at the next await, or with the outcome that the metrics middleware sees.\<close>

datatype progress = Next pc | Done request "response result"

definition handled :: "response result \<Rightarrow> response result" where
  "handled r =
     (case r of Inl (CircuitBreakerOpenError n) \<Rightarrow> Inr (circuit_breaker_open_handler (CircuitBreakerOpenError n)) | _ \<Rightarrow> r)"

definition decide_step :: "request \<Rightarrow> service \<Rightarrow> progress \<times> service" where
  "decide_step req sv =
     (let (inject, s) = should_inject_error (cstate (chaos sv));
          sv1 = sv\<lparr>chaos := (chaos sv)\<lparr>cstate := s\<rparr>\<rparr>
      in if inject then (Done req (Inr injected_error), emit_s [CounterInc ''chaos_error_injections_total'' []] sv1)
         else (Next Limiting, sv1))"

definition segment :: "'r world \<Rightarrow> pyfloat \<Rightarrow> string \<Rightarrow> flight \<Rightarrow> service \<Rightarrow> progress \<times> service" where
  "segment w now uuid fl sv =
     (let req = freq fl; s = cstate (chaos sv); ended = (\<lambda>r. Done (matched w req) (handled r))
      in case fpc fl of
           Hook \<Rightarrow>
             if is_control (req_path req) then (Next Limiting, sv)
             else if latency_enabled s \<and> 0 < latency_seconds s then (Next Sleeping, sv)
             else decide_step req sv
         | Sleeping \<Rightarrow> decide_step req (emit_s [Observe ''chaos_latency_seconds'' [] (latency_seconds s)] sv)
         | Limiting \<Rightarrow>
             (case (if role_limited (w_role w) then limit_step now req sv else (None, sv)) of
                (Some r, sv') \<Rightarrow> (Done req r, sv')
              | (None, sv') \<Rightarrow> (Next Entering, sv'))
         | Entering \<Rightarrow>
             (case fend fl of
                At_once h \<Rightarrow> (case handle_at_once w now h sv of (r, sv') \<Rightarrow> (ended r, sv'))
              | Create_order order a \<Rightarrow>
                  (case enter_step ''auth'' auth_breaker_config now sv of
                     (Inl x, sv') \<Rightarrow> (ended (w_render w (Inl x)), sv')
                   | (Inr b, sv') \<Rightarrow> (Next (Calling order a b), sv'))
              | Validate tr \<Rightarrow>
                  (case enter_step ''identity-provider'' identity_breaker_config now sv of
                     (Inl x, sv') \<Rightarrow> (ended (w_render w (Inl x)), sv')
                   | (Inr b, sv') \<Rightarrow> (Next (Validating tr b), sv')))
         | Calling order a b \<Rightarrow>
             (let r = fst (auth_post w now ''/validate'' (JObj [(''token'', JStr (bearer_token a))]) sv);
                  sv' = exit_step ''auth'' b now r sv
              in case order_outcome uuid order r of
                   Inl x \<Rightarrow> (ended (w_render w (Inl x)), sv')
                 | Inr j \<Rightarrow> (Next (Creating j), sv'))
         | Creating j \<Rightarrow> (ended (w_render w (Inr j)), sv)
         | Validating tr b \<Rightarrow>
             (let r = fst (backend id (token tr) sv);
                  sv' = exit_step ''identity-provider'' b now r sv
              in case r of
                   Inl x \<Rightarrow> (ended (w_render w (Inl x)), sv')
                 | Inr valid \<Rightarrow>
                     (ended (w_render w (Inr (JObj [(''valid'', JBool valid), (''token'', JStr (token tr))]))),
                      emit_s [CounterInc ''auth_token_validations_total''
                                [(''result'', if valid then ''valid'' else ''invalid'')]] sv')))"

text \<open>The way out through metrics, security headers and request context.\<close>

definition response_headers :: "flight \<Rightarrow> (string \<times> string) list" where
  "response_headers fl =
     SECURITY_HEADERS @
     (if list_ex (\<lambda>d. startswith (req_path (freq fl)) d) DOCS_PATHS then [] else [(''content-security-policy'', CSP)]) @
     [(''x-request-id'', frid fl), (''x-correlation-id'', fcid fl)]"

definition conclude :: "pyfloat \<Rightarrow> request \<Rightarrow> flight \<Rightarrow> response result \<Rightarrow> service \<Rightarrow> response result \<times> service" where
  "conclude tick req' fl r sv =
     (let m = req_method (freq fl);
          sv1 = (case r of
                   Inl x \<Rightarrow>
                     if is_Exception x
                     then emit_s [CounterInc ''http_exceptions_total''
                            [(''method'', m), (''endpoint'', route_label req'), (''exception_type'', type_name x)]] sv
                     else sv
                 | Inr _ \<Rightarrow> sv);
          status = (case r of Inl _ \<Rightarrow> ''500'' | Inr resp \<Rightarrow> int_str (status_code resp))
      in (map_sum id (append_headers (response_headers fl)) r, finish_request status (tick - fstart fl) req' sv1))"

section \<open>The job loop\<close>

text \<open>
  The task of \<open>_job_loop\<close> by where it waits: before the next job, in the latency of chaos, in the work
  (both with the reading of the performance counter at the start of the job) and in the pause; over with
  an exception. Only the worker has one. A step takes the readings at the start and at the end of a
  job and gives the status of the job it ends.
\<close>

datatype job_pc = No_job | Job_due | Job_latency pyfloat | Job_working pyfloat | Job_pausing | Job_over exn

definition finish_at :: "pyfloat \<Rightarrow> pyfloat \<Rightarrow> string \<Rightarrow> service \<Rightarrow> service" where
  "finish_at start tick status sv =
     emit_s [Observe ''worker_job_duration_seconds'' [] (tick - start),
             CounterInc ''worker_jobs_processed_total'' [(''status'', status)]] sv"

definition job_decide :: "pyfloat \<Rightarrow> pyfloat \<Rightarrow> service \<Rightarrow> job_pc \<times> string list \<times> service" where
  "job_decide start tick sv =
     (let (inject, s) = should_inject_error (cstate (chaos sv));
          sv1 = sv\<lparr>chaos := (chaos sv)\<lparr>cstate := s\<rparr>\<rparr>
      in if inject then
           (Job_pausing, [''failed''],
            finish_at start tick ''failed''
              (sv1\<lparr>plat := record_event Source_WORKER ''job_failed'' [(''service'', JStr ''worker'')] (plat sv1)\<rparr>))
         else (Job_working start, [], sv1))"

fun job_move :: "pyfloat \<Rightarrow> pyfloat \<Rightarrow> job_pc \<Rightarrow> service \<Rightarrow> job_pc \<times> string list \<times> service" where
  "job_move now tick Job_due sv =
     (if latency_enabled (cstate (chaos sv)) \<and> 0 < latency_seconds (cstate (chaos sv)) then (Job_latency now, [], sv)
      else job_decide now tick sv)"
| "job_move now tick (Job_latency start) sv = job_decide start tick sv"
| "job_move now tick (Job_working start) sv = (Job_pausing, [''success''], finish_at start tick ''success'' sv)"
| "job_move now tick Job_pausing sv = (Job_due, [], sv)"
| "job_move now tick c sv = (c, [], sv)"

text \<open>\<open>task.cancel()\<close> of the worker's shutdown. The status of a job is success until an \<open>Exception\<close> says otherwise,
  and \<open>CancelledError\<close> is none.\<close>

fun job_cancel :: "pyfloat \<Rightarrow> job_pc \<Rightarrow> service \<Rightarrow> job_pc \<times> string list \<times> service" where
  "job_cancel tick (Job_latency start) sv = (Job_over CancelledError, [''success''], finish_at start tick ''success'' sv)"
| "job_cancel tick (Job_working start) sv = (Job_over CancelledError, [''success''], finish_at start tick ''success'' sv)"
| "job_cancel tick Job_due sv = (Job_over CancelledError, [], sv)"
| "job_cancel tick Job_pausing sv = (Job_over CancelledError, [], sv)"
| "job_cancel tick c sv = (c, [], sv)"

section \<open>The process\<close>

text \<open>\<open>served\<close> and \<open>finished\<close> are the history: the requests answered and the status of the jobs done.\<close>

record process =
  svc :: service
  next_id :: nat
  flights :: "(nat \<times> flight) list"
  served :: "(nat \<times> flight \<times> request \<times> response result) list"
  job :: job_pc
  finished :: "string list"

text \<open>
  \<open>Resume\<close> carries a reading of the monotonic clock, one of the performance counter and a fresh
  \<open>uuid4().hex\<close>; \<open>Cancel\<close> is a client that disconnects, \<open>Outside\<close> what
  the machine does: the disk fails or recovers, the wall clock moves. A scrape of \<open>/metrics\<close> is not measured and
  leaves no trace.
\<close>

datatype pevent =
    Arrive request endpoint string pyfloat
  | Resume nat pyfloat pyfloat string
  | Cancel nat pyfloat pyfloat
  | Background nat
  | Job_step pyfloat pyfloat
  | Job_cancel pyfloat
  | Outside bool datetime

definition new_flight :: "request \<Rightarrow> endpoint \<Rightarrow> string \<Rightarrow> pyfloat \<Rightarrow> flight" where
  "new_flight req e fresh t =
     (let rid = header_or req ''x-request-id'' fresh
      in \<lparr>freq = req, fend = e, frid = rid, fcid = header_or req ''x-correlation-id'' rid, fstart = t, fpc = Hook\<rparr>)"

definition in_context :: "flight \<Rightarrow> service \<Rightarrow> service" where
  "in_context fl sv = sv\<lparr>request_id_var := frid fl, correlation_id_var := fcid fl\<rparr>"

definition out_of_context :: "service \<Rightarrow> service \<Rightarrow> service" where
  "out_of_context outer sv = sv\<lparr>request_id_var := request_id_var outer, correlation_id_var := correlation_id_var outer\<rparr>"

definition end_flight :: "nat \<Rightarrow> pyfloat \<Rightarrow> request \<Rightarrow> flight \<Rightarrow> response result \<Rightarrow> service \<Rightarrow> process \<Rightarrow> process" where
  "end_flight k tick req' fl r sv p =
     (case conclude tick req' fl r sv of
        (r', sv') \<Rightarrow> p\<lparr>svc := out_of_context (svc p) sv', flights := AList.delete k (flights p),
                      served := served p @ [(k, fl, req', r')]\<rparr>)"

text \<open>
  One step of the event loop: a request arrives and its task runs up to the chaos hook, a waiting task is
  resumed to its next \<open>await\<close> or cancelled where it waits, a chaos workload or the worker's loop moves
  on, or the disk and the wall clock change. A scrape of \<open>/metrics\<close> is passed on by the metrics layer
  unmeasured and changes nothing of the process, so it does not become a task.
\<close>

fun pexec :: "'r world \<Rightarrow> pevent \<Rightarrow> process \<Rightarrow> process" where
  "pexec w (Arrive req e fresh t) p =
     (if req_path req = ''/metrics'' then p
      else p\<lparr>svc := emit_s [GaugeInc ''http_requests_in_progress'' [(''method'', req_method req)]] (svc p),
             next_id := Suc (next_id p), flights := flights p @ [(next_id p, new_flight req e fresh t)]\<rparr>)"
| "pexec w (Resume k now tick uuid) p =
     (case map_of (flights p) k of
        None \<Rightarrow> p
      | Some fl \<Rightarrow>
          (case segment w now uuid fl (in_context fl (svc p)) of
             (Next c, sv) \<Rightarrow> p\<lparr>svc := out_of_context (svc p) sv, flights := AList.update k (fl\<lparr>fpc := c\<rparr>) (flights p)\<rparr>
           | (Done req' r, sv) \<Rightarrow> end_flight k tick req' fl r sv p))"
| "pexec w (Cancel k now tick) p =
     (case map_of (flights p) k of
        None \<Rightarrow> p
      | Some fl \<Rightarrow>
          (let end_with = (\<lambda>req' sv. end_flight k tick req' fl (Inl CancelledError) sv p)
           in case fpc fl of
                Calling order a b \<Rightarrow>
                  end_with (matched w (freq fl)) (exit_step ''auth'' b now (Inl CancelledError :: json result) (svc p))
              | Validating tr b \<Rightarrow>
                  end_with (matched w (freq fl))
                    (exit_step ''identity-provider'' b now (Inl CancelledError :: bool result) (svc p))
              | Creating j \<Rightarrow> end_with (matched w (freq fl)) (svc p)
              | _ \<Rightarrow> end_with (freq fl) (svc p)))"
| "pexec w (Background i) p =
     (case run_task i (chaos (svc p)) (plat (svc p)) of (c, pl) \<Rightarrow> p\<lparr>svc := (svc p)\<lparr>chaos := c, plat := pl\<rparr>\<rparr>)"
| "pexec w (Job_step now tick) p =
     (case job_move now tick (job p) (svc p) of (c, st, sv) \<Rightarrow> p\<lparr>svc := sv, job := c, finished := finished p @ st\<rparr>)"
| "pexec w (Job_cancel tick) p =
     (case job_cancel tick (job p) (svc p) of (c, st, sv) \<Rightarrow> p\<lparr>svc := sv, job := c, finished := finished p @ st\<rparr>)"
| "pexec w (Outside disk now) p = p\<lparr>svc := (svc p)\<lparr>plat := (plat (svc p))\<lparr>disk_ok := disk, wall := now\<rparr>\<rparr>\<rparr>"

definition start_process :: "role \<Rightarrow> service \<Rightarrow> process" where
  "start_process role sv =
     \<lparr>svc = sv, next_id = 0, flights = [], served = [], job = (if role = WORKER then Job_due else No_job), finished = []\<rparr>"

text \<open>The process that a service module starts: the module, the middleware stack, the lifespan up to
  \<open>yield\<close>, where the worker has made the task of its job loop.\<close>

fun service_module :: "role \<Rightarrow> platform \<Rightarrow> service_app result" where
  "service_module API p = map_sum id snd (api_module p)"
| "service_module AUTH p = map_sum id snd (auth_module p)"
| "service_module WORKER p = map_sum id (snd \<circ> snd) (worker_module p)"

definition serving_process :: "role \<Rightarrow> platform \<Rightarrow> process result" where
  "serving_process role p0 =
     (case service_module role p0 of
        Inl x \<Rightarrow> Inl x
      | Inr a \<Rightarrow>
          (case build_middleware_stack None a of
             Inl x \<Rightarrow> Inl x
           | Inr sv \<Rightarrow> Inr (start_process role (snd (snd (lifespan_start None ((), sv)))))))"

definition prun :: "'r world \<Rightarrow> pevent list \<Rightarrow> process \<Rightarrow> process" where
  "prun w es p = fold (pexec w) es p"

section \<open>Reachable processes\<close>

text \<open>Payloads reach a handler only when the framework has validated them.\<close>

fun control_op :: "control \<Rightarrow> chaos_op option" where
  "control_op (Latency cfg) = Some (SetLatency cfg)"
| "control_op (Errors cfg) = Some (SetErrors cfg)"
| "control_op (Cpu cfg) = Some (TriggerCpu cfg)"
| "control_op (Memory cfg) = Some (TriggerMemory cfg)"
| "control_op Reset_all = Some Reset"
| "control_op Status = None"

fun endpoint_ok :: "role \<Rightarrow> endpoint \<Rightarrow> bool" where
  "endpoint_ok role (Create_order order a) = (role = API \<and> order_request_ok order)"
| "endpoint_ok role (Validate tr) = (role = AUTH \<and> token_request_ok tr)"
| "endpoint_ok role (At_once (Chaos_control x)) = (case control_op x of None \<Rightarrow> True | Some op \<Rightarrow> payload_ok op)"
| "endpoint_ok role (At_once h) = True"

fun event_ok :: "role \<Rightarrow> pevent \<Rightarrow> bool" where
  "event_ok role (Arrive req e fresh t) = endpoint_ok role e"
| "event_ok role ev = True"

text \<open>The network may behave differently at every step.\<close>

inductive preach :: "'r world \<Rightarrow> process \<Rightarrow> bool" for w where
  started: "serving_process (w_role w) p0 = Inr p \<Longrightarrow> calls p0 = [] \<Longrightarrow> preach w p"
| stepped: "preach w p \<Longrightarrow> event_ok (w_role w) ev \<Longrightarrow> preach w (pexec (w\<lparr>w_httpx := hx\<rparr>) ev p)"

inductive_cases preachE: "preach w p"

lemma preach_step: "preach w p \<Longrightarrow> event_ok (w_role w) ev \<Longrightarrow> preach w (pexec w ev p)"
  using preach.stepped [of w p ev "w_httpx w"] by simp

section \<open>A request on its own\<close>

text \<open>The endpoint as the router runs it.\<close>

definition service_router :: "'r world \<Rightarrow> pyfloat \<Rightarrow> pyfloat \<Rightarrow> string \<Rightarrow> endpoint \<Rightarrow> app" where
  "service_router w now1 now2 uuid e req sv =
     (case e of
        Create_order order a \<Rightarrow>
          (case create_order (auth_post w now2) now1 now2 uuid order a sv of (r, sv') \<Rightarrow> (w_render w r, matched w req, sv'))
      | Validate tr \<Rightarrow>
          (case validate id now1 now2 tr sv of (r, sv') \<Rightarrow> (w_render w r, matched w req, sv'))
      | At_once h \<Rightarrow> (case handle_at_once w now1 h sv of (r, sv') \<Rightarrow> (r, matched w req, sv')))"

text \<open>The readings of the monotonic clock that the segments of one request take.\<close>

definition stage_clock :: "pyfloat \<Rightarrow> pyfloat \<Rightarrow> pyfloat \<Rightarrow> pc \<Rightarrow> pyfloat" where
  "stage_clock t0 t1 t2 c = (case c of Limiting \<Rightarrow> t0 | Entering \<Rightarrow> t1 | Calling _ _ _ \<Rightarrow> t2 | Validating _ _ \<Rightarrow> t2 | _ \<Rightarrow> 0)"

text \<open>The limiter is only in the stack of a service that enables it.\<close>

definition limit_layer :: "'r world \<Rightarrow> pyfloat \<Rightarrow> app \<Rightarrow> app" where
  "limit_layer w t0 inner = (if role_limited (w_role w) then rate_limit_dispatch t0 inner else inner)"

lemma limit_layer_split:
  "limit_layer w now call_next req sv =
     (case (if role_limited (w_role w) then limit_step now req sv else (None, sv)) of
        (Some r, sv') \<Rightarrow> (r, req, sv') | (None, sv') \<Rightarrow> call_next req sv')"
  by (simp add: limit_layer_def rate_limit_split)

text \<open>What is left of a request, as the composed layers compute it.\<close>

definition rest_of ::
  "'r world \<Rightarrow> pyfloat \<Rightarrow> pyfloat \<Rightarrow> pyfloat \<Rightarrow> string \<Rightarrow> flight \<Rightarrow> service \<Rightarrow> response result \<times> request \<times> service" where
  "rest_of w t0 t1 t2 uuid fl sv =
     (let req = freq fl;
          endpoint = exception_handlers (service_router w t1 t2 uuid (fend fl));
          limited = limit_layer w t0 endpoint;
          hooked = (\<lambda>out. case out of (Some injected, sv') \<Rightarrow> (Inr injected, req, sv') | (None, sv') \<Rightarrow> limited req sv')
      in case fpc fl of
           Hook \<Rightarrow> hooked (chaos_hook id (req_path req) sv)
         | Sleeping \<Rightarrow>
             (case decide_step req (emit_s [Observe ''chaos_latency_seconds'' [] (latency_seconds (cstate (chaos sv)))] sv) of
                (Done req' r, sv') \<Rightarrow> (r, req', sv')
              | (Next _, sv') \<Rightarrow> limited req sv')
         | Limiting \<Rightarrow> limited req sv
         | Entering \<Rightarrow> endpoint req sv
         | Calling order a b \<Rightarrow>
             (let r = fst (auth_post w t2 ''/validate'' (JObj [(''token'', JStr (bearer_token a))]) sv)
              in (handled (w_render w (order_outcome uuid order r)), matched w req, exit_step ''auth'' b t2 r sv))
         | Creating j \<Rightarrow> (handled (w_render w (Inr j)), matched w req, sv)
         | Validating tr b \<Rightarrow>
             (let valid = (token tr \<notin> set INVALID_TOKENS)
              in (handled (w_render w (Inr (JObj [(''valid'', JBool valid), (''token'', JStr (token tr))]))), matched w req,
                  emit_s [CounterInc ''auth_token_validations_total'' [(''result'', if valid then ''valid'' else ''invalid'')]]
                    (exit_step ''identity-provider'' b t2 (Inr valid :: bool result) sv))))"

lemma exception_handlers_handled:
  "exception_handlers router req sv = (case router req sv of (r, req', sv') \<Rightarrow> (handled r, req', sv'))"
  by (auto simp: exception_handlers_def handled_def split: prod.splits sum.splits exn.splits)

lemma chaos_hook_segments:
  "chaos_hook id path sv =
     (if is_control path then (None, sv)
      else
        let s = cstate (chaos sv);
            sv0 = (if latency_enabled s \<and> 0 < latency_seconds s
                   then emit_s [Observe ''chaos_latency_seconds'' [] (latency_seconds s)] sv else sv)
        in case decide_step req sv0 of
             (Done _ r, sv') \<Rightarrow> (Some injected_error, sv')
           | (Next _, sv') \<Rightarrow> (None, sv'))"
  by (auto simp: chaos_hook_def apply_request_chaos_def decide_step_def emit_s_def emit_def Let_def split: prod.splits)

lemma decide_step_cases:
  obtains sv' where "decide_step req sv = (Done req (Inr injected_error), sv')" | sv' where "decide_step req sv = (Next Limiting, sv')"
proof (cases "should_inject_error (cstate (chaos sv))")
  case (Pair inject s)
  then show thesis using that by (cases inject) (simp_all add: decide_step_def Let_def)
qed

lemma create_order_split:
  "create_order (auth_post w t2) t1 t2 uuid order a sv =
    (case enter_step ''auth'' auth_breaker_config t1 sv of
       (Inl x, sv1) \<Rightarrow> (order_outcome uuid order (Inl x), sv1)
     | (Inr b, sv1) \<Rightarrow>
         (let r = fst (auth_post w t2 ''/validate'' (JObj [(''token'', JStr (bearer_token a))]) sv1)
          in (order_outcome uuid order r, exit_step ''auth'' b t2 r sv1)))"
proof -
  let ?f = "auth_post w t2 ''/validate'' (JObj [(''token'', JStr (bearer_token a))])"
  obtain r sv' where c: "call_in_service ''auth'' auth_breaker_config t1 t2 ?f sv = (r, sv')" by force
  have f: "?f v = (fst (?f v), v)" for v using auth_post_state [of w t2 "''/validate''" _ v] by (metis prod.collapse)
  obtain e sv1 where e: "enter_step ''auth'' auth_breaker_config t1 sv = (e, sv1)" by force
  show ?thesis
    using create_order_call [where post = "auth_post w t2", OF c, of uuid order] c e f [of sv1]
    by (cases e) (auto simp: call_in_service_split Let_def split: prod.splits)
qed

lemma validate_split:
  "validate id t1 t2 tr sv =
    (case enter_step ''identity-provider'' identity_breaker_config t1 sv of
       (Inl x, sv1) \<Rightarrow> (Inl x, sv1)
     | (Inr b, sv1) \<Rightarrow>
         (let valid = (token tr \<notin> set INVALID_TOKENS)
          in (Inr (JObj [(''valid'', JBool valid), (''token'', JStr (token tr))]),
              emit_s [CounterInc ''auth_token_validations_total'' [(''result'', if valid then ''valid'' else ''invalid'')]]
                (exit_step ''identity-provider'' b t2 (Inr valid :: bool result) sv1))))"
  by (auto simp: validate_def validate_with_backend_def call_in_service_split backend_def Let_def split: prod.splits sum.splits)

lemma enter_step_rejects: "enter_step n cfg now sv = (Inl x, sv') \<Longrightarrow> \<exists>m. x = CircuitBreakerOpenError m"
  by (auto simp: enter_step_def enter_def reject_def split: prod.splits sum.splits bool.splits)

lemma rest_segment:
  "case segment w (stage_clock t0 t1 t2 (fpc fl)) uuid fl sv of
      (Next c, sv') \<Rightarrow> rest_of w t0 t1 t2 uuid fl sv = rest_of w t0 t1 t2 uuid (fl\<lparr>fpc := c\<rparr>) sv'
    | (Done req' r, sv') \<Rightarrow> rest_of w t0 t1 t2 uuid fl sv = (r, req', sv')"
proof (cases "fpc fl")
  case Hook
  show ?thesis
  proof (cases "is_control (req_path (freq fl))")
    case True
    then show ?thesis using Hook by (simp add: segment_def rest_of_def chaos_hook_segments [where req = "freq fl"] Let_def)
  next
    case False
    let ?s = "cstate (chaos sv)"
    let ?e = "emit_s [Observe ''chaos_latency_seconds'' [] (latency_seconds ?s)] sv"
    consider "latency_enabled ?s" "0 < latency_seconds ?s" | "\<not> latency_enabled ?s" | "\<not> 0 < latency_seconds ?s" by blast
    then show ?thesis
    proof cases
      case 1
      show ?thesis
        by (rule decide_step_cases [of "freq fl" ?e])
          (use Hook False 1 in \<open>simp_all add: segment_def rest_of_def chaos_hook_segments [where req = "freq fl"] Let_def\<close>)
    qed (rule decide_step_cases [of "freq fl" sv]; use Hook False in
          \<open>simp add: segment_def rest_of_def chaos_hook_segments [where req = "freq fl"] Let_def\<close>)+
  qed
next
  case Sleeping
  show ?thesis
    by (rule decide_step_cases [of "freq fl" "emit_s [Observe ''chaos_latency_seconds'' [] (latency_seconds (cstate (chaos sv)))] sv"])
      (use Sleeping in \<open>simp_all add: segment_def rest_of_def Let_def\<close>)
next
  case Limiting
  then show ?thesis
    by (auto simp: segment_def rest_of_def limit_layer_split stage_clock_def Let_def split: prod.splits option.splits)
next
  case Entering
  then show ?thesis
    using enter_step_rejects [of "''auth''" auth_breaker_config t1 sv]
    by (auto simp: segment_def rest_of_def exception_handlers_handled service_router_def create_order_split
        validate_split stage_clock_def Let_def
        split: prod.splits sum.splits endpoint.splits)
next
  case (Calling order a b)
  then show ?thesis by (auto simp: segment_def rest_of_def stage_clock_def Let_def split: prod.splits sum.splits)
next
  case (Creating j)
  then show ?thesis by (simp add: segment_def rest_of_def Let_def)
next
  case (Validating tr b)
  then show ?thesis by (simp add: segment_def rest_of_def stage_clock_def backend_def Let_def)
qed

lemma decide_step_context:
  "request_id_var (snd (decide_step req sv)) = request_id_var sv"
  "correlation_id_var (snd (decide_step req sv)) = correlation_id_var sv"
  by (simp_all add: decide_step_def Let_def split: prod.split)

lemma limit_step_context:
  "request_id_var (snd (limit_step now req sv)) = request_id_var sv"
  "correlation_id_var (snd (limit_step now req sv)) = correlation_id_var sv"
  by (auto simp: limit_step_def Let_def split: prod.splits sum.splits)

lemma enter_step_context:
  "request_id_var (snd (enter_step n cfg now sv)) = request_id_var sv"
  "correlation_id_var (snd (enter_step n cfg now sv)) = correlation_id_var sv"
  by (simp_all add: enter_step_def split: prod.split)

lemma exit_step_context:
  "request_id_var (exit_step n b now r sv) = request_id_var sv"
  "correlation_id_var (exit_step n b now r sv) = correlation_id_var sv"
  by (simp_all add: exit_step_def Let_def split: prod.split sum.split)

lemma handle_at_once_context:
  "request_id_var (snd (handle_at_once w now h sv)) = request_id_var sv"
  "correlation_id_var (snd (handle_at_once w now h sv)) = correlation_id_var sv"
  by (cases h; cases "w_role w"; simp add: ready_def api_readiness_def auth_readiness_def breaker_readiness_def Let_def
      split: prod.split sum.split json.split)+

text \<open>The endpoints with a guarded call: their breaker, and where they wait once it has let them in.\<close>

fun guard_of :: "endpoint \<Rightarrow> (string \<times> breaker_config) option" where
  "guard_of (Create_order order a) = role_guard API"
| "guard_of (Validate tr) = role_guard AUTH"
| "guard_of (At_once h) = None"

fun after_entry :: "endpoint \<Rightarrow> breaker \<Rightarrow> pc" where
  "after_entry (Create_order order a) b = Calling order a b"
| "after_entry (Validate tr) b = Validating tr b"
| "after_entry (At_once h) b = Entering"

text \<open>The primitive step behind a segment.\<close>

lemma segment_cases:
  assumes "segment w now uuid fl sv = (x, sv')"
  obtains (pass) "fpc fl = Hook" "x = Next Limiting \<or> x = Next Sleeping" "sv' = sv"
  | (decide) sv0 where "fpc fl = Hook \<or> fpc fl = Sleeping" "decide_step (freq fl) sv0 = (x, sv')"
      "sv0 = sv \<or> sv0 = emit_s [Observe ''chaos_latency_seconds'' [] (latency_seconds (cstate (chaos sv)))] sv"
  | (limit) r where "fpc fl = Limiting" "(if role_limited (w_role w) then limit_step now (freq fl) sv else (None, sv)) = (r, sv')"
      "x = (case r of None \<Rightarrow> Next Entering | Some out \<Rightarrow> Done (freq fl) out)"
  | (at_once) h r where "fpc fl = Entering" "fend fl = At_once h" "handle_at_once w now h sv = (r, sv')"
      "x = Done (matched w (freq fl)) (handled r)"
  | (enter) n cfg r where "fpc fl = Entering" "guard_of (fend fl) = Some (n, cfg)" "enter_step n cfg now sv = (r, sv')"
      "x = (case r of Inl e \<Rightarrow> Done (matched w (freq fl)) (handled (w_render w (Inl e))) | Inr b \<Rightarrow> Next (after_entry (fend fl) b))"
  | (answer) order a b r where "fpc fl = Calling order a b" "sv' = exit_step ''auth'' b now (r :: json result) sv"
      "r = fst (auth_post w now ''/validate'' (JObj [(''token'', JStr (bearer_token a))]) sv)"
      "x = (case order_outcome uuid order r of
              Inl e \<Rightarrow> Done (matched w (freq fl)) (handled (w_render w (Inl e))) | Inr j \<Rightarrow> Next (Creating j))"
  | (created) j where "fpc fl = Creating j" "sv' = sv" "x = Done (matched w (freq fl)) (handled (w_render w (Inr j)))"
  | (validated) tr b valid where "fpc fl = Validating tr b" "valid = (token tr \<notin> set INVALID_TOKENS)"
      "sv' = emit_s [CounterInc ''auth_token_validations_total'' [(''result'', if valid then ''valid'' else ''invalid'')]]
         (exit_step ''identity-provider'' b now (Inr valid :: bool result) sv)"
      "x = Done (matched w (freq fl)) (handled (w_render w (Inr (JObj [(''valid'', JBool valid), (''token'', JStr (token tr))]))))"
proof (cases "fpc fl")
  case Hook
  then show thesis using assms pass decide [of sv] by (auto simp: segment_def Let_def split: if_splits)
next
  case Sleeping
  then show thesis using assms decide by (auto simp: segment_def Let_def)
next
  case Limiting
  obtain r s where l: "(if role_limited (w_role w) then limit_step now (freq fl) sv else (None, sv)) = (r, s)" by force
  then have "(case r of None \<Rightarrow> Next Entering | Some out \<Rightarrow> Done (freq fl) out, s) = (x, sv')"
    using assms Limiting by (simp add: segment_def Let_def split: option.splits)
  then show thesis using limit [OF Limiting, of r] l by simp
next
  case Entering
  show thesis
  proof (cases "fend fl")
    case (Create_order order a)
    obtain r s where "enter_step ''auth'' auth_breaker_config now sv = (r, s)" by force
    then show thesis using assms Entering Create_order enter by (auto simp: segment_def Let_def split: sum.splits)
  next
    case (Validate tr)
    obtain r s where "enter_step ''identity-provider'' identity_breaker_config now sv = (r, s)" by force
    then show thesis using assms Entering Validate enter by (auto simp: segment_def Let_def split: sum.splits)
  next
    case (At_once h)
    obtain r s where "handle_at_once w now h sv = (r, s)" by force
    then show thesis using assms Entering At_once at_once by (auto simp: segment_def Let_def)
  qed
next
  case (Calling order a b)
  then show thesis using assms answer [OF Calling] by (auto simp: segment_def Let_def split: sum.splits)
next
  case (Creating j)
  then show thesis using assms created by (simp add: segment_def Let_def)
next
  case (Validating tr b)
  then show thesis using assms validated [OF Validating refl] by (auto simp: segment_def backend_def Let_def)
qed

lemma segment_context:
  assumes "segment w now uuid fl sv = (x, sv')"
  shows "request_id_var sv' = request_id_var sv \<and> correlation_id_var sv' = correlation_id_var sv"
  using assms
proof (cases rule: segment_cases)
  case (decide sv0)
  then show ?thesis using decide_step_context [of "freq fl" sv0] by auto
next
  case (limit r)
  then show ?thesis using limit_step_context [of now "freq fl" sv] by (auto split: if_splits)
next
  case (at_once h r)
  then show ?thesis using handle_at_once_context [of w now h sv] by simp
next
  case (enter n cfg r)
  then show ?thesis using enter_step_context [of n cfg now sv] by simp
next
  case (answer order a b r)
  then show ?thesis by (simp add: exit_step_context)
next
  case (validated tr b valid)
  then show ?thesis by (simp add: exit_step_context)
qed simp_all

lemma context_sel [simp]:
  "request_id_var (in_context fl sv) = frid fl" "correlation_id_var (in_context fl sv) = fcid fl"
  "plat (in_context fl sv) = plat sv" "breakers (in_context fl sv) = breakers sv"
  "chaos (in_context fl sv) = chaos sv" "limiter (in_context fl sv) = limiter sv"
  "plat (out_of_context o1 sv) = plat sv" "breakers (out_of_context o1 sv) = breakers sv"
  "chaos (out_of_context o1 sv) = chaos sv" "limiter (out_of_context o1 sv) = limiter sv"
  "request_id_var (out_of_context o1 sv) = request_id_var o1" "correlation_id_var (out_of_context o1 sv) = correlation_id_var o1"
  by (simp_all add: in_context_def out_of_context_def)

lemma context_switch:
  "request_id_var sv = frid fl \<Longrightarrow> correlation_id_var sv = fcid fl \<Longrightarrow> in_context fl (out_of_context outer sv) = sv"
  "out_of_context (out_of_context o1 sv1) sv = out_of_context o1 sv"
  by (simp_all add: in_context_def out_of_context_def)

text \<open>How many segments a task has left, at most.\<close>

fun segments_left :: "pc \<Rightarrow> nat" where
  "segments_left Hook = 6"
| "segments_left Sleeping = 5"
| "segments_left Limiting = 4"
| "segments_left Entering = 3"
| "segments_left (Calling order a b) = 2"
| "segments_left (Creating j) = 1"
| "segments_left (Validating tr b) = 1"

lemma segments_left_pos [simp]: "0 < segments_left c"
  by (cases c) simp_all

lemma segment_progress:
  assumes "segment w now uuid fl sv = (Next c, sv')"
  shows "segments_left c < segments_left (fpc fl)"
  using assms
proof (cases rule: segment_cases)
  case (decide sv0)
  show ?thesis by (rule decide_step_cases [of "freq fl" sv0]) (use decide in auto)
next
  case (enter n cfg r)
  then show ?thesis by (cases "fend fl") (auto split: sum.splits)
qed (auto split: option.splits sum.splits)

text \<open>Resuming one task again and again, with nothing in between.\<close>

fun drive :: "'r world \<Rightarrow> (pc \<Rightarrow> pyfloat) \<Rightarrow> pyfloat \<Rightarrow> string \<Rightarrow> nat \<Rightarrow> nat \<Rightarrow> process \<Rightarrow> process" where
  "drive w clk tick uuid k 0 p = p"
| "drive w clk tick uuid k (Suc n) p =
     (case map_of (flights p) k of
        None \<Rightarrow> p
      | Some fl \<Rightarrow> drive w clk tick uuid k n (pexec w (Resume k (clk (fpc fl)) tick uuid) p))"

definition answers :: "process \<Rightarrow> (nat \<times> response result) list" where
  "answers p = map (\<lambda>(k, fl, req', r). (k, r)) (served p)"

lemma conclude_pc [simp]: "conclude tick req' (fl\<lparr>fpc := c\<rparr>) r sv = conclude tick req' fl r sv"
  by (simp add: conclude_def response_headers_def)

lemma end_flight_gone: "map_of (flights (end_flight k tick req' fl r sv p)) k = None"
  by (simp add: end_flight_def delete_conv' split: prod.split)

lemma drive_finished: "map_of (flights p) k = None \<Longrightarrow> drive w clk tick uuid k n p = p"
  by (cases n) simp_all

lemma drive_rest:
  assumes "map_of (flights p) k = Some fl" "segments_left (fpc fl) \<le> n"
    and "rest_of w t0 t1 t2 uuid fl (in_context fl (svc p)) = (r, req', sv')"
    and "conclude tick req' fl r sv' = (r2, sv2)"
  defines "p' \<equiv> drive w (stage_clock t0 t1 t2) tick uuid k n p"
  shows "svc p' = out_of_context (svc p) sv2 \<and> flights p' = AList.delete k (flights p) \<and>
    answers p' = answers p @ [(k, r2)] \<and> next_id p' = next_id p"
  using assms(1-4) unfolding p'_def
proof (induction n arbitrary: p fl)
  case 0
  then show ?case using segments_left_pos [of "fpc fl"] by simp
next
  case (Suc n)
  let ?now = "stage_clock t0 t1 t2 (fpc fl)"
  obtain x sv1 where seg: "segment w ?now uuid fl (in_context fl (svc p)) = (x, sv1)" by force
  note rs = rest_segment [where w = w and sv = "in_context fl (svc p)" and fl = fl and uuid = uuid and ?t0.0 = t0 and ?t1.0 = t1 and ?t2.0 = t2, unfolded seg prod.case]
  show ?case
  proof (cases x)
    case (Done req1 r1)
    then have e: "(r, req', sv') = (r1, req1, sv1)" using rs Suc.prems(3) by simp
    let ?p = "end_flight k tick req1 fl r1 sv1 p"
    have "drive w (stage_clock t0 t1 t2) tick uuid k (Suc n) p = ?p"
      using Suc.prems(1) seg Done drive_finished [OF end_flight_gone] by simp
    then show ?thesis using e Suc.prems(4) by (simp add: end_flight_def answers_def)
  next
    case (Next c)
    let ?fl = "fl\<lparr>fpc := c\<rparr>"
    let ?p = "p\<lparr>svc := out_of_context (svc p) sv1, flights := AList.update k ?fl (flights p)\<rparr>"
    have ctx: "in_context ?fl (out_of_context (svc p) sv1) = sv1"
      using segment_context [OF seg] by (intro context_switch) simp_all
    have "drive w (stage_clock t0 t1 t2) tick uuid k (Suc n) p = drive w (stage_clock t0 t1 t2) tick uuid k n ?p"
      using Suc.prems(1) seg Next by simp
    moreover have "let q = drive w (stage_clock t0 t1 t2) tick uuid k n ?p in
      svc q = out_of_context (svc ?p) sv2 \<and> flights q = AList.delete k (flights ?p) \<and>
      answers q = answers ?p @ [(k, r2)] \<and> next_id q = next_id ?p"
      unfolding Let_def
      by (rule Suc.IH [of _ ?fl]) (use Suc.prems segment_progress [OF seg [unfolded Next]] rs Next ctx in \<open>auto simp: update_conv'\<close>)
    ultimately show ?thesis by (simp add: Let_def context_switch(2) delete_update_same answers_def)
  qed
qed

lemma prometheus_rest:
  assumes "req_path (freq fl) \<noteq> ''/metrics''" "fpc fl = Hook"
  shows "prometheus_dispatch id (fstart fl) tick
      (limit_layer w t0 (exception_handlers (service_router w t1 t2 uuid (fend fl)))) (freq fl) sv =
    (case rest_of w t0 t1 t2 uuid fl (emit_s [GaugeInc ''http_requests_in_progress'' [(''method'', req_method (freq fl))]] sv) of
       (r, req', sv') \<Rightarrow> (r, req', snd (conclude tick req' fl r sv')))"
proof -
  let ?inc = "emit_s [GaugeInc ''http_requests_in_progress'' [(''method'', req_method (freq fl))]] sv"
  obtain inj sv2 where h: "chaos_hook id (req_path (freq fl)) ?inc = (inj, sv2)" by force
  show ?thesis
  proof (cases inj)
    case (Some resp)
    then show ?thesis using assms h by (simp add: prometheus_dispatch_def rest_of_def conclude_def Let_def)
  next
    case None
    obtain r req' sv3 where c: "limit_layer w t0
        (exception_handlers (service_router w t1 t2 uuid (fend fl))) (freq fl) sv2 = (r, req', sv3)"
      by (metis prod_cases3)
    then show ?thesis
      using assms h None by (cases r) (simp_all add: prometheus_dispatch_def rest_of_def conclude_def Let_def)
  qed
qed

lemma conclude_answer: "fst (conclude tick req' fl r sv) = map_sum id (append_headers (response_headers fl)) r"
  by (simp add: conclude_def Let_def)

lemma stack_rest:
  assumes "req_path req \<noteq> ''/metrics''" "fl = new_flight req e fresh t"
    and "rest_of w t0 t1 t2 uuid fl
      (in_context fl (emit_s [GaugeInc ''http_requests_in_progress'' [(''method'', req_method req)]] sv)) = (r, req', sv')"
  shows "service_stack (role_limited (w_role w)) \<lparr>fresh_id = fresh, t_start = t, t_end = tick, t_limit = t0, meanwhile = id\<rparr>
      (service_router w t1 t2 uuid e) req sv =
    (fst (conclude tick req' fl r sv'), req', out_of_context sv (snd (conclude tick req' fl r sv')))"
proof -
  have fl: "freq fl = req" "fpc fl = Hook" "fend fl = e" "fstart fl = t"
    "frid fl = header_or req ''x-request-id'' fresh"
    "fcid fl = header_or req ''x-correlation-id'' (header_or req ''x-request-id'' fresh)"
    by (simp_all add: assms(2) new_flight_def Let_def)
  have sw: "emit_s cs (in_context fl sv) = in_context fl (emit_s cs sv)" for cs by (simp add: emit_s_def in_context_def)
  let ?d = "prometheus_dispatch id t tick (limit_layer w t0 (exception_handlers (service_router w t1 t2 uuid e)))"
  have "?d req (in_context fl sv) = (r, req', snd (conclude tick req' fl r sv'))"
    using prometheus_rest [of fl tick w t0 t1 t2 uuid "in_context fl sv"] assms(1,3) fl by (simp add: sw)
  then have "?d req (sv\<lparr>request_id_var := header_or req ''x-request-id'' fresh,
      correlation_id_var := header_or req ''x-correlation-id'' (header_or req ''x-request-id'' fresh)\<rparr>) =
      (r, req', snd (conclude tick req' fl r sv'))"
    by (simp add: in_context_def fl)
  then show ?thesis
    by (cases r) (simp_all add: service_stack_def limit_layer_def [symmetric] request_context_def security_headers_def conclude_answer fl
        out_of_context_def response_headers_def append_headers_def Let_def)
qed

text \<open>An outside world in which every token is valid.\<close>

definition demo_world :: "json result world" where
  "demo_world = \<lparr>w_role = API, w_httpx = (\<lambda>now. answering (Inr (JObj [(''valid'', JBool True)]))), w_client = demo_client,
     w_render = map_sum id (\<lambda>j. JSONResponse 200 j []), w_route = (\<lambda>req. Some (req_path req))\<rparr>"

text \<open>
  C7. The steps of the process are the composed layers, cut at the awaits: a request on any route but
  \<open>/metrics\<close>, which the metrics layer passes on unmeasured, that arrives and is resumed until it ends,
  with nothing else in between, leaves the state and gives the answer that the middleware stack around
  its endpoint computes.
\<close>

theorem request_alone_is_stack:
  fixes w :: "'r world" and p :: process and t0 t1 t2 t tick :: pyfloat and uuid fresh :: string
    and req :: request and e :: endpoint
  assumes "req_path req \<noteq> ''/metrics''" "next_id p \<notin> fst ` set (flights p)"
  defines "p' \<equiv> drive w (stage_clock t0 t1 t2) tick uuid (next_id p) 6 (pexec w (Arrive req e fresh t) p)"
  shows "case service_stack (role_limited (w_role w)) \<lparr>fresh_id = fresh, t_start = t, t_end = tick, t_limit = t0, meanwhile = id\<rparr>
      (service_router w t1 t2 uuid e) req (svc p) of
    (r, req', sv') \<Rightarrow> svc p' = sv' \<and> answers p' = answers p @ [(next_id p, r)] \<and> flights p' = flights p"
proof -
  let ?fl = "new_flight req e fresh t" and ?k = "next_id p"
  let ?inc = "emit_s [GaugeInc ''http_requests_in_progress'' [(''method'', req_method req)]] (svc p)"
  let ?p = "pexec w (Arrive req e fresh t) p"
  have p: "map_of (flights ?p) ?k = Some ?fl" "svc ?p = ?inc" "answers ?p = answers p" "AList.delete ?k (flights ?p) = flights p"
    using assms(1,2) by (simp_all add: arrival_last answers_def del: map_of_append)
  have pc: "segments_left (fpc ?fl) \<le> 6" by (simp add: new_flight_def Let_def)
  obtain r req' sv' where rest: "rest_of w t0 t1 t2 uuid ?fl (in_context ?fl ?inc) = (r, req', sv')" by (metis prod_cases3)
  obtain r2 sv2 where c: "conclude tick req' ?fl r sv' = (r2, sv2)" by force
  have "svc p' = out_of_context ?inc sv2 \<and> flights p' = AList.delete ?k (flights ?p) \<and> answers p' = answers ?p @ [(?k, r2)]"
    using drive_rest [where w = w and p = ?p and k = ?k and fl = ?fl and n = 6, OF p(1) pc rest [folded p(2)] c]
    unfolding p'_def p(2) by blast
  moreover have "out_of_context ?inc sv2 = out_of_context (svc p) sv2" by (simp add: out_of_context_def)
  ultimately show ?thesis using stack_rest [OF assms(1) refl rest, of tick] c p by simp
qed

theorem request_alone_is_stack_witness:
  "let p' = drive demo_world (stage_clock (Fin 1) (Fin 2) (Fin 3)) (Fin 9) ''9c'' (next_id (start_process API demo_service)) 6
      (pexec demo_world (Arrive (demo_request ''/orders'') (Create_order demo_order None) ''4f2a'' (Fin 5)) (start_process API demo_service))
   in case service_stack True \<lparr>fresh_id = ''4f2a'', t_start = Fin 5, t_end = Fin 9, t_limit = Fin 1, meanwhile = id\<rparr>
        (service_router demo_world (Fin 2) (Fin 3) ''9c'' (Create_order demo_order None)) (demo_request ''/orders'') (svc (start_process API demo_service)) of
     (r, req', sv') \<Rightarrow> svc p' = sv' \<and> answers p' = answers (start_process API demo_service) @ [(next_id (start_process API demo_service), r)] \<and> flights p' = flights (start_process API demo_service)"
proof -
  have req: "req_path (demo_request ''/orders'') \<noteq> ''/metrics''" by (simp add: demo_request_def)
  have id: "next_id (start_process API demo_service) \<notin> fst ` set (flights (start_process API demo_service))" by (simp add: start_process_def)
  have "role_limited (w_role demo_world)" by (simp add: demo_world_def)
  then show ?thesis
    unfolding Let_def
    using request_alone_is_stack [OF req id, of demo_world "Fin 1" "Fin 2" "Fin 3" "Fin 9" "''9c''" "Create_order demo_order None" "''4f2a''" "Fin 5"]
    by simp
qed

end
