(* ===== verification/ProcessInvariants.thy ===== *)
theory ProcessInvariants
  imports Process
begin

text \<open>
  Invariants of a running process. The locale \<open>service_invariant\<close> states what every kind of step does
  to the state that the tasks share, \<open>process_invariant\<close> adds what the request middleware counts and
  how a process starts; an invariant that satisfies these laws holds in every reachable process. It
  is interpreted for the chaos controller and the breaker of each service, and through the locale
  \<open>untouched\<close> for the counters of the requests and of the jobs.
\<close>

section \<open>Invariants of a process\<close>

text \<open>The metrics of the request middleware, those that the limiter, the request hook and the endpoints use,
  and those of the job loop.\<close>

definition red_metrics :: "string list" where
  "red_metrics = [''http_requests_total'', ''http_request_duration_seconds'', ''http_requests_in_progress'', ''http_exceptions_total'']"

definition inner_metrics :: "string list" where
  "inner_metrics = [''rate_limit_requests_total'', ''rate_limit_rejections_total'', ''chaos_latency_seconds'', ''chaos_error_injections_total'',
     ''auth_token_validations_total'']"

definition worker_metrics :: "string list" where
  "worker_metrics = [''worker_job_duration_seconds'', ''worker_jobs_processed_total'']"

definition adds :: "string list \<Rightarrow> platform \<Rightarrow> platform \<Rightarrow> bool" where
  "adds ns p p' \<longleftrightarrow> prefix (calls p) (calls p') \<and> list_all (\<lambda>c. metric_name c \<in> set ns) (drop (length (calls p)) (calls p'))"

lemma addsI: "calls p' = calls p @ cs \<Longrightarrow> list_all (\<lambda>c. metric_name c \<in> set ns) cs \<Longrightarrow> adds ns p p'"
  by (simp add: adds_def)

lemma addsE:
  assumes "adds ns p p'"
  obtains cs where "calls p' = calls p @ cs" "list_all (\<lambda>c. metric_name c \<in> set ns) cs"
  using assms by (auto simp: adds_def prefix_def)

lemma adds_same: "calls p' = calls p \<Longrightarrow> adds ns p p'"
  by (rule addsI [of _ _ "[]"]) simp_all

lemma adds_trans:
  assumes "adds ns p q" "adds ns q r"
  shows "adds ns p r"
proof -
  obtain cs ds where "calls q = calls p @ cs" "calls r = calls q @ ds"
    "list_all (\<lambda>c. metric_name c \<in> set ns) cs" "list_all (\<lambda>c. metric_name c \<in> set ns) ds"
    using assms by (elim addsE) blast
  then show ?thesis by (intro addsI [of _ _ "cs @ ds"]) simp_all
qed

lemma adds_mono: "adds ns p q \<Longrightarrow> set ns \<subseteq> set ms \<Longrightarrow> adds ms p q"
  by (elim addsE) (rule addsI, auto simp: list_all_iff)

lemma last_gauge_other: "list_all (\<lambda>c. metric_name c \<noteq> n) cs \<Longrightarrow> last_gauge n l cs = None"
  by (induction cs) (auto split: metric_call.splits)

lemma adds_gauge:
  assumes "adds ns p p'" "n \<notin> set ns"
  shows "last_gauge n l (calls p') = last_gauge n l (calls p)"
proof -
  obtain cs where cs: "calls p' = calls p @ cs" "list_all (\<lambda>c. metric_name c \<in> set ns) cs" using assms(1) by (elim addsE)
  then have "last_gauge n l cs = None" using assms(2) by (intro last_gauge_other) (auto simp: list_all_iff)
  then show ?thesis by (simp add: cs last_gauge_append)
qed

text \<open>
  The tasks of a process are those of its service: its own endpoints, waiting only for its own
  dependency.
\<close>

fun pc_ok :: "role \<Rightarrow> pc \<Rightarrow> bool" where
  "pc_ok role (Calling order a b) = (role = API)"
| "pc_ok role (Validating tr b) = (role = AUTH)"
| "pc_ok role c = True"

definition flight_ok :: "role \<Rightarrow> flight \<Rightarrow> bool" where
  "flight_ok role fl \<longleftrightarrow> endpoint_ok role (fend fl) \<and> pc_ok role (fpc fl)"

lemma guard_of_role: "endpoint_ok role e \<Longrightarrow> guard_of e = Some g \<Longrightarrow> role_guard role = Some g"
  by (cases e) auto

lemma flight_ok_segment:
  assumes "flight_ok role fl" "segment w now uuid fl sv = (Next c, sv')"
  shows "flight_ok role (fl\<lparr>fpc := c\<rparr>)"
  using assms(2)
proof (cases rule: segment_cases)
  case (decide sv0)
  show ?thesis by (rule decide_step_cases [of "freq fl" sv0]) (use decide assms(1) in \<open>auto simp: flight_ok_def\<close>)
next
  case (enter n cfg r)
  then show ?thesis using assms(1) by (cases "fend fl") (auto simp: flight_ok_def split: sum.splits)
qed (use assms(1) in \<open>auto simp: flight_ok_def split: option.splits sum.splits\<close>)

lemma exit_step_unit: "exit_step n b now r sv = exit_step n b now (map_sum id (\<lambda>_. ()) r) sv"
  by (cases r) (simp_all add: exit_step_def Let_def)

text \<open>
  What every task of the process does to the shared state, step by step. An invariant of the
  service that these laws keep is kept by every segment.
\<close>

locale service_invariant =
  fixes role :: role and I :: "service \<Rightarrow> bool"
  assumes frame: "I sv \<Longrightarrow> chaos sv' = chaos sv \<Longrightarrow> breakers sv' = breakers sv \<Longrightarrow> adds inner_metrics (plat sv) (plat sv') \<Longrightarrow> I sv'"
    and decided: "I sv \<Longrightarrow> I (sv\<lparr>chaos := (chaos sv)\<lparr>cstate := snd (should_inject_error (cstate (chaos sv)))\<rparr>\<rparr>)"
    and control: "I sv \<Longrightarrow> endpoint_ok role (At_once (Chaos_control x)) \<Longrightarrow> handle_control x (chaos sv) (plat sv) = (r, c, pl) \<Longrightarrow>
      I (sv\<lparr>chaos := c, plat := pl\<rparr>)"
    and background: "I sv \<Longrightarrow> run_task i (chaos sv) (plat sv) = (c, pl) \<Longrightarrow> I (sv\<lparr>chaos := c, plat := pl\<rparr>)"
    and readiness: "I sv \<Longrightarrow> role_readiness role = Some f \<Longrightarrow> I (snd (f sv))"
    and entered: "I sv \<Longrightarrow> role_guard role = Some (n, cfg) \<Longrightarrow> I (snd (enter_step n cfg now sv))"
    and left: "I sv \<Longrightarrow> role_guard role = Some (n, cfg) \<Longrightarrow> I (exit_step n b now (u :: unit result) sv)"
begin

lemma quiet: "I sv \<Longrightarrow> chaos sv' = chaos sv \<Longrightarrow> breakers sv' = breakers sv \<Longrightarrow> calls (plat sv') = calls (plat sv) \<Longrightarrow> I sv'"
  by (erule frame) (simp_all add: adds_same)

lemma keeps_decide_step:
  assumes "I sv" "decide_step req sv = (x, sv')"
  shows "I sv'"
proof -
  let ?sv = "sv\<lparr>chaos := (chaos sv)\<lparr>cstate := snd (should_inject_error (cstate (chaos sv)))\<rparr>\<rparr>"
  have "I ?sv" by (rule decided [OF assms(1)])
  moreover have "I (emit_s [CounterInc ''chaos_error_injections_total'' []] ?sv)"
    by (rule frame [OF \<open>I ?sv\<close>]) (auto simp: emit_s_def inner_metrics_def intro: addsI)
  ultimately show ?thesis using assms(2) by (auto simp: decide_step_def Let_def split: prod.splits if_splits)
qed

lemma keeps_limit_step:
  assumes "I sv" "limit_step now req sv = (r, sv')"
  shows "I sv'"
proof (rule frame [OF assms(1)])
  show "chaos sv' = chaos sv" "breakers sv' = breakers sv"
    using assms(2) by (auto simp: limit_step_def Let_def split: prod.splits sum.splits if_splits)
  have "adds inner_metrics (plat sv) p" if "check key now (limiter sv) (plat sv) = (r, l, p)" for key r l p
    using that by (auto simp: check_def inner_metrics_def Let_def intro: addsI adds_same split: prod.splits sum.splits if_splits)
  moreover have "adds inner_metrics p q \<Longrightarrow> adds inner_metrics p (record_event a b c q)" for p q a b c
    by (erule adds_trans) (simp add: adds_same)
  ultimately show "adds inner_metrics (plat sv) (plat sv')"
    using assms(2) by (auto simp: limit_step_def Let_def adds_same split: prod.splits sum.splits if_splits)
qed

lemma keeps_exit: "I sv \<Longrightarrow> role_guard role = Some (n, cfg) \<Longrightarrow> I (exit_step n b now r sv)"
  using left exit_step_unit [of n b now r sv] by simp

lemma keeps_at_once:
  assumes "I sv" "w_role w = role" "endpoint_ok role (At_once h)" "handle_at_once w now h sv = (r, sv')"
  shows "I sv'"
proof (cases h)
  case (Chaos_control x)
  then show ?thesis using assms control by (auto split: prod.splits)
next
  case Ready
  then show ?thesis
    using assms readiness [OF assms(1)]
    by (auto simp: ready_def Let_def split: if_splits option.splits prod.splits sum.splits json.splits)
next
  case (List_failures limit src)
  have "calls (snd (list_failures limit src (plat sv))) = calls (plat sv)"
    by (auto simp: list_failures_def get_failure_store_def split: prod.splits sum.splits option.splits)
  then show ?thesis using assms List_failures by (intro quiet [OF assms(1)]) (auto split: prod.splits)
next
  case Clear_failures
  have "calls (snd (clear_failures (plat sv))) = calls (plat sv)"
    by (auto simp: clear_failures_def get_failure_store_def clear_events_def split: prod.splits sum.splits option.splits)
  then show ?thesis using assms Clear_failures by (intro quiet [OF assms(1)]) (auto split: prod.splits)
qed (use assms in auto)

lemma keeps_segment:
  assumes "I sv" "w_role w = role" "flight_ok role fl" "segment w now uuid fl sv = (x, sv')"
  shows "I sv'"
  using assms(4)
proof (cases rule: segment_cases)
  case (decide sv0)
  have "I sv0"
    using decide(3) assms(1) by (auto simp: emit_s_def inner_metrics_def intro!: frame [OF assms(1)] addsI)
  then show ?thesis using decide(2) by (rule keeps_decide_step)
next
  case (limit r)
  then show ?thesis using keeps_limit_step [OF assms(1)] assms(1) by (auto split: if_splits)
next
  case (at_once h r)
  then show ?thesis using keeps_at_once [OF assms(1,2) _ at_once(3)] assms(3) by (simp add: flight_ok_def)
next
  case (enter n cfg r)
  have "role_guard role = Some (n, cfg)" using guard_of_role [OF _ enter(2)] assms(3) by (simp add: flight_ok_def)
  then show ?thesis using entered [OF assms(1), of n cfg now] enter(3) by simp
next
  case (answer order a b r)
  then have "role = API" using assms(3) by (simp add: flight_ok_def)
  then show ?thesis unfolding answer(2) by (intro keeps_exit [OF assms(1)]) simp
next
  case (validated tr b valid)
  have "I (exit_step ''identity-provider'' b now (Inr valid :: bool result) sv)"
    using assms(3) validated(1) by (intro keeps_exit [OF assms(1)]) (simp add: flight_ok_def)
  then show ?thesis unfolding validated(3) by (rule frame) (auto simp: emit_s_def inner_metrics_def intro!: addsI)
qed (use assms in simp_all)

lemma keeps_context [simp]:
  "I (in_context fl sv) = I sv" "I (out_of_context outer sv) = I sv"
  by (auto intro: quiet)

end

text \<open>The events, by what they do to the tasks: nothing, a new task, a task that goes on, a task that ends.\<close>

lemma pexec_cases:
  obtains (same) "flights (pexec w ev p) = flights p" "served (pexec w ev p) = served p" "next_id (pexec w ev p) = next_id p"
      "\<And>k now tick uuid. ev = Resume k now tick uuid \<Longrightarrow> map_of (flights p) k = None"
      "pexec w ev p = p \<or> (\<exists>i c pl. run_task i (chaos (svc p)) (plat (svc p)) = (c, pl) \<and> svc (pexec w ev p) = (svc p)\<lparr>chaos := c, plat := pl\<rparr>) \<or>
        (\<exists>d t. svc (pexec w ev p) = (svc p)\<lparr>plat := (plat (svc p))\<lparr>disk_ok := d, wall := t\<rparr>\<rparr>)"
      "job (pexec w ev p) = job p" "finished (pexec w ev p) = finished p"
  | (work) now tick c st sv where "ev = Job_step now tick \<or> ev = Job_cancel tick"
      "job_move now tick (job p) (svc p) = (c, st, sv) \<or> job_cancel tick (job p) (svc p) = (c, st, sv)"
      "pexec w ev p = p\<lparr>svc := sv, job := c, finished := finished p @ st\<rparr>"
  | (arrive) req e fresh t where "ev = Arrive req e fresh t" "req_path req \<noteq> ''/metrics''"
      "pexec w ev p = p\<lparr>svc := emit_s [GaugeInc ''http_requests_in_progress'' [(''method'', req_method req)]] (svc p),
             next_id := Suc (next_id p), flights := flights p @ [(next_id p, new_flight req e fresh t)]\<rparr>"
  | (suspend) k now tick uuid fl c sv where "ev = Resume k now tick uuid" "map_of (flights p) k = Some fl"
      "segment w now uuid fl (in_context fl (svc p)) = (Next c, sv)"
      "pexec w ev p = p\<lparr>svc := out_of_context (svc p) sv, flights := AList.update k (fl\<lparr>fpc := c\<rparr>) (flights p)\<rparr>"
  | (finish) k now tick uuid fl req' r sv where "ev = Resume k now tick uuid" "map_of (flights p) k = Some fl"
      "segment w now uuid fl (in_context fl (svc p)) = (Done req' r, sv)" "pexec w ev p = end_flight k tick req' fl r sv p"
  | (cancel) k now tick fl req' sv where "ev = Cancel k now tick" "map_of (flights p) k = Some fl"
      "req' = freq fl \<or> req' = matched w (freq fl)"
      "sv = svc p \<or> (\<exists>order a b. fpc fl = Calling order a b \<and> sv = exit_step ''auth'' b now (Inl CancelledError :: json result) (svc p)) \<or>
        (\<exists>tr b. fpc fl = Validating tr b \<and> sv = exit_step ''identity-provider'' b now (Inl CancelledError :: bool result) (svc p))"
      "pexec w ev p = end_flight k tick req' fl (Inl CancelledError) sv p"
proof (cases ev)
  case (Arrive req e fresh t)
  then show thesis using same arrive [OF Arrive] by (cases "req_path req = ''/metrics''") simp_all
next
  case (Resume k now tick uuid)
  show thesis
  proof (cases "map_of (flights p) k")
    case None
    then show thesis using same Resume by simp
  next
    case (Some fl)
    obtain x sv where seg: "segment w now uuid fl (in_context fl (svc p)) = (x, sv)" by force
    show thesis using suspend [OF Resume Some] finish [OF Resume Some] Resume Some seg by (cases x) simp_all
  qed
next
  case (Cancel k now tick)
  show thesis
  proof (cases "map_of (flights p) k")
    case None
    then show thesis using same Cancel by simp
  next
    case (Some fl)
    then show thesis using Cancel cancel [OF Cancel Some] by (cases "fpc fl") auto
  qed
next
  case (Background i)
  obtain c pl where "run_task i (chaos (svc p)) (plat (svc p)) = (c, pl)" by force
  then show thesis using same Background by auto
next
  case (Job_step now tick)
  obtain c st sv where "job_move now tick (job p) (svc p) = (c, st, sv)" by (metis prod_cases3)
  then show thesis using work [of now tick c st sv] Job_step by simp
next
  case (Job_cancel tick)
  obtain c st sv where "job_cancel tick (job p) (svc p) = (c, st, sv)" by (metis prod_cases3)
  then show thesis using work [of _ tick c st sv] Job_cancel by simp
next
  case (Outside d t)
  have "svc (pexec w ev p) = (svc p)\<lparr>plat := (plat (svc p))\<lparr>disk_ok := d, wall := t\<rparr>\<rparr>" using Outside by simp
  then show thesis by (intro same) (use Outside in \<open>simp_all, blast\<close>)
qed

lemma end_flight_sel:
  "svc (end_flight k tick req' fl r sv p) = out_of_context (svc p) (snd (conclude tick req' fl r sv))"
  "flights (end_flight k tick req' fl r sv p) = AList.delete k (flights p)"
  "served (end_flight k tick req' fl r sv p) = served p @ [(k, fl, req', map_sum id (append_headers (response_headers fl)) r)]"
  "next_id (end_flight k tick req' fl r sv p) = next_id p"
  "job (end_flight k tick req' fl r sv p) = job p" "finished (end_flight k tick req' fl r sv p) = finished p"
  using conclude_answer [of tick req' fl r sv] by (simp_all add: end_flight_def case_prod_beta)

text \<open>What a request brings along stays with it.\<close>

lemma flights_step:
  assumes "\<forall>(k, fl) \<in> set (flights p). P fl" "event_ok (w_role w) ev"
    and "\<And>req e fresh t. endpoint_ok (w_role w) e \<Longrightarrow> P (new_flight req e fresh t)"
    and "\<And>fl now uuid sv c sv'. P fl \<Longrightarrow> segment w now uuid fl sv = (Next c, sv') \<Longrightarrow> P (fl\<lparr>fpc := c\<rparr>)"
  shows "\<forall>(k, fl) \<in> set (flights (pexec w ev p)). P fl"
proof (cases rule: pexec_cases [where w = w and ev = ev and p = p])
  case (arrive req e fresh t)
  then show ?thesis using assms(1-3) by simp
next
  case (suspend k now tick uuid fl c sv)
  have "P (fl\<lparr>fpc := c\<rparr>)" using map_of_ball [OF suspend(2), of P] assms(1) assms(4) [OF _ suspend(3)] by simp
  then show ?thesis using assms(1) suspend(4) update_ball [of "flights p" "\<lambda>k fl. P fl" k "fl\<lparr>fpc := c\<rparr>"] by simp
next
  case (finish k now tick uuid fl req' r sv)
  then show ?thesis using assms(1) delete_ball [of "flights p" "\<lambda>k fl. P fl" k] by (simp add: end_flight_sel)
next
  case (cancel k now tick fl req' sv)
  then show ?thesis using assms(1) delete_ball [of "flights p" "\<lambda>k fl. P fl" k] by (simp add: end_flight_sel)
qed (use assms(1) in simp_all)

lemma served_step:
  assumes "\<forall>(k, fl) \<in> set (flights p). P fl" "\<forall>(k, fl, out) \<in> set (served p). P fl"
  shows "\<forall>(k, fl, out) \<in> set (served (pexec w ev p)). P fl"
proof (cases rule: pexec_cases [where w = w and ev = ev and p = p])
  case (finish k now tick uuid fl req' r sv)
  then show ?thesis using assms map_of_ball [OF finish(2), of P] by (simp add: end_flight_sel)
next
  case (cancel k now tick fl req' sv)
  then show ?thesis using assms map_of_ball [OF cancel(2), of P] by (simp add: end_flight_sel)
qed (use assms(2) in simp_all)

lemma reachable_flights:
  assumes "preach w p"
    and "\<And>req e fresh t. endpoint_ok (w_role w) e \<Longrightarrow> P (new_flight req e fresh t)"
    and "\<And>hx fl now uuid sv c sv'. P fl \<Longrightarrow> segment (w\<lparr>w_httpx := hx\<rparr>) now uuid fl sv = (Next c, sv') \<Longrightarrow> P (fl\<lparr>fpc := c\<rparr>)"
  shows "(\<forall>(k, fl) \<in> set (flights p). P fl) \<and> (\<forall>(k, fl, out) \<in> set (served p). P fl)"
  using assms(1)
proof (induction rule: preach.induct)
  case (started p0 p)
  then show ?case by (auto simp: serving_process_def start_process_def split: sum.splits prod.splits)
next
  case (stepped p ev hx)
  let ?w = "w\<lparr>w_httpx := hx\<rparr>"
  have "\<forall>(k, fl) \<in> set (flights (pexec ?w ev p)). P fl"
    by (rule flights_step) (use stepped assms(2) in \<open>simp_all add: assms(3)\<close>)
  then show ?case using stepped.IH served_step [where p = p and w = ?w and ev = ev and P = P] by blast
qed

lemma payloads_step:
  assumes "\<forall>(k, fl) \<in> set (flights p). flight_ok (w_role w) fl" "event_ok (w_role w) ev"
  shows "\<forall>(k, fl) \<in> set (flights (pexec w ev p)). flight_ok (w_role w) fl"
  by (rule flights_step [OF assms]) (simp add: new_flight_def flight_ok_def Let_def, rule flight_ok_segment)

lemma reachable_payloads: "preach w p \<Longrightarrow> \<forall>(k, fl) \<in> set (flights p). flight_ok (w_role w) fl"
proof (induction rule: preach.induct)
  case (started p0 p)
  then show ?case by (auto simp: serving_process_def start_process_def split: sum.splits)
next
  case (stepped p ev hx)
  then show ?case using payloads_step [of p "w\<lparr>w_httpx := hx\<rparr>" ev] by simp
qed

locale process_invariant = service_invariant +
  assumes counted: "I sv \<Longrightarrow> chaos sv' = chaos sv \<Longrightarrow> breakers sv' = breakers sv \<Longrightarrow> adds (red_metrics @ worker_metrics) (plat sv) (plat sv') \<Longrightarrow> I sv'"
    and booted: "serving_process role p0 = Inr p \<Longrightarrow> calls p0 = [] \<Longrightarrow> I (svc p)"
begin

lemma keeps_conclude: "I sv \<Longrightarrow> I (snd (conclude tick req' fl r sv))"
  by (erule counted; cases r)
    (auto simp: conclude_def finish_request_def emit_s_def red_metrics_def Let_def intro!: addsI)

lemma keeps_finish_at: "I sv \<Longrightarrow> I (finish_at start tick st sv)"
  by (erule counted) (auto simp: finish_at_def emit_s_def worker_metrics_def intro!: addsI)

lemma keeps_job_decide:
  assumes "I sv" "job_decide start tick sv = (c, st, sv')"
  shows "I sv'"
proof -
  let ?sv = "sv\<lparr>chaos := (chaos sv)\<lparr>cstate := snd (should_inject_error (cstate (chaos sv)))\<rparr>\<rparr>"
  have d: "I ?sv" by (rule decided [OF assms(1)])
  then have "I (?sv\<lparr>plat := record_event a b c (plat ?sv)\<rparr>)" for a b c by (rule quiet) simp_all
  with d show ?thesis using assms(2) by (auto simp: job_decide_def Let_def keeps_finish_at split: prod.splits if_splits)
qed

lemma keeps_job:
  assumes "I sv" "job_move now tick c0 sv = (c, st, sv') \<or> job_cancel tick c0 sv = (c, st, sv')"
  shows "I sv'"
  using assms keeps_job_decide [OF assms(1)] keeps_finish_at [OF assms(1)]
  by (cases c0) (auto split: if_splits)

lemma keeps_pexec:
  assumes "I (svc p)" "w_role w = role" "\<forall>(k, fl) \<in> set (flights p). flight_ok role fl"
  shows "I (svc (pexec w ev p))"
proof (cases rule: pexec_cases [where w = w and ev = ev and p = p])
  case same
  then show ?thesis using assms(1) background [OF assms(1)] quiet [OF assms(1)] by auto
next
  case (work now tick c st sv)
  then show ?thesis using keeps_job [OF assms(1) work(2)] by simp
next
  case (arrive req e fresh t)
  then show ?thesis by (simp, intro counted [OF assms(1)]) (auto simp: emit_s_def red_metrics_def intro: addsI)
next
  case (suspend k now tick uuid fl c sv)
  then show ?thesis using keeps_segment [OF _ assms(2) map_of_ball [OF suspend(2) assms(3)] suspend(3)] assms(1) by simp
next
  case (finish k now tick uuid fl req' r sv)
  then show ?thesis
    using keeps_segment [OF _ assms(2) map_of_ball [OF finish(2) assms(3)] finish(3)] assms(1) by (simp add: end_flight_sel keeps_conclude)
next
  case (cancel k now tick fl req' sv)
  have ok: "pc_ok role (fpc fl)" using map_of_ball [OF cancel(2) assms(3)] by (simp add: flight_ok_def)
  have "I sv" using cancel(4) assms(1) ok by (auto intro: keeps_exit)
  then show ?thesis using cancel(5) by (simp add: end_flight_sel keeps_conclude)
qed

lemma holds_reachable:
  assumes "preach w p" "w_role w = role"
  shows "I (svc p)"
  using assms(1)
proof (induction rule: preach.induct)
  case (started p0 p)
  then show ?case using booted assms(2) by simp
next
  case (stepped p ev hx)
  then show ?case using keeps_pexec [of p "w\<lparr>w_httpx := hx\<rparr>" ev] reachable_payloads [OF stepped.hyps(1)] assms(2) by simp
qed

end

section \<open>What the components count\<close>

definition breaker_metrics :: "string list" where
  "breaker_metrics = [''circuit_breaker_state'', ''circuit_breaker_open_total'', ''circuit_breaker_rejections_total'']"

definition chaos_metrics :: "string list" where
  "chaos_metrics = [''chaos_active'', ''chaos_events_total'']"

lemma adds_refl [simp]: "adds ns p p"
  by (simp add: adds_same)

lemma adds_event [simp]: "adds ns p (record_event a b c q) = adds ns p q"
  by (simp add: adds_def)

lemma adds_emit: "adds ns p q \<Longrightarrow> list_all (\<lambda>c. metric_name c \<in> set ns) cs \<Longrightarrow> adds ns p (emit cs q)"
  by (erule adds_trans) (rule addsI, simp_all)

lemma enter_adds: "enter now b p = (r, b', p') \<Longrightarrow> adds breaker_metrics p p'"
  by (auto simp: enter_def allow_def reject_def set_state_def breaker_metrics_def Let_def intro!: adds_emit
      split: bool.splits if_splits prod.splits)

lemma exit_adds: "exit_call failed now b p = (b', p') \<Longrightarrow> adds breaker_metrics p p'"
  by (auto simp: exit_call_def record_success_def record_failure_def set_state_def opened_event_def breaker_metrics_def Let_def
      intro!: adds_emit split: if_splits)

lemma get_or_create_adds: "get_or_create n cfg reg p = (b, reg', p') \<Longrightarrow> adds breaker_metrics p p'"
  by (auto simp: get_or_create_def new_breaker_def breaker_metrics_def Let_def intro!: adds_emit split: option.splits)

lemma chaos_exec_adds: "chaos_exec x c p = (c', p') \<Longrightarrow> adds chaos_metrics p p'"
  by (cases x) (auto simp: set_latency_def set_errors_def trigger_cpu_def trigger_memory_def chaos_reset_def run_task_def
      run_cpu_start_def run_cpu_finish_def run_memory_start_def run_memory_finish_def chaos_metrics_def Let_def
      intro!: adds_emit split: sum.splits if_splits chaos_task.splits)

lemma enter_step_adds:
  "adds breaker_metrics (plat sv) (plat (snd (enter_step n cfg now sv)))" "chaos (snd (enter_step n cfg now sv)) = chaos sv"
proof -
  obtain b reg p where g: "get_or_create n cfg (breakers sv) (plat sv) = (b, reg, p)" by (metis prod_cases3)
  obtain r b1 p1 where e: "enter now b p = (r, b1, p1)" by (metis prod_cases3)
  show "adds breaker_metrics (plat sv) (plat (snd (enter_step n cfg now sv)))" "chaos (snd (enter_step n cfg now sv)) = chaos sv"
    using g e adds_trans [OF get_or_create_adds [OF g] enter_adds [OF e]] by (simp_all add: enter_step_def)
qed

lemma exit_step_adds: "adds breaker_metrics (plat sv) (plat (exit_step n b now r sv))" "chaos (exit_step n b now r sv) = chaos sv"
  by (auto simp: exit_step_def Let_def intro: exit_adds split: prod.splits sum.splits)

lemma readiness_adds:
  assumes "role_readiness role = Some f"
  shows "adds breaker_metrics (plat sv) (plat (snd (f sv)))" "chaos (snd (f sv)) = chaos sv"
  using assms
  by (cases role; force simp: api_readiness_def auth_readiness_def breaker_readiness_def intro: get_or_create_adds split: prod.splits)+

lemma handle_control_exec:
  "snd (handle_control x c p) = (case control_op x of Some op \<Rightarrow> chaos_exec op c p | None \<Rightarrow> (c, p))"
  by (cases x) (simp_all split: prod.split)

lemma control_adds: "handle_control x c p = (r, c', p') \<Longrightarrow> adds chaos_metrics p p'"
  using handle_control_exec [of x c p] by (auto split: option.splits dest: chaos_exec_adds [OF sym])

section \<open>Invariants\<close>

text \<open>A metric of which no handler and no component knows: its calls stay as they are.\<close>

definition metric_calls :: "string list \<Rightarrow> service \<Rightarrow> metric_call list" where
  "metric_calls ns sv = filter (\<lambda>c. metric_name c \<in> set ns) (calls (plat sv))"

lemma adds_apart: "adds ms (plat sv) (plat sv') \<Longrightarrow> set ns \<inter> set ms = {} \<Longrightarrow> metric_calls ns sv' = metric_calls ns sv"
  by (elim addsE) (auto simp: metric_calls_def filter_empty_conv list_all_iff)

lemma metric_calls_context [simp]:
  "metric_calls ns (in_context fl sv) = metric_calls ns sv" "metric_calls ns (out_of_context outer sv) = metric_calls ns sv"
  by (simp_all add: metric_calls_def)

lemma metric_calls_emit [simp]:
  "metric_calls ns (emit_s cs sv) = metric_calls ns sv @ filter (\<lambda>c. metric_name c \<in> set ns) cs"
  by (simp add: metric_calls_def emit_s_def)

lemma count_metric_calls: "metric_name c \<in> set ns \<Longrightarrow> count_calls c (calls (plat sv)) = count_calls c (metric_calls ns sv)"
  by (auto simp: count_calls_def metric_calls_def intro: arg_cong [where f = length] filter_cong)

locale untouched =
  fixes ns :: "string list"
  assumes apart: "set ns \<inter> set (inner_metrics @ breaker_metrics @ chaos_metrics) = {}"
begin

lemma others_apart: "set ns \<inter> set inner_metrics = {}" "set ns \<inter> set breaker_metrics = {}" "set ns \<inter> set chaos_metrics = {}"
  using apart by auto

lemma untouched_exit [simp]: "metric_calls ns (exit_step n b now r sv) = metric_calls ns sv"
  by (rule adds_apart [OF exit_step_adds(1) others_apart(2)])

lemma untouched_task: "run_task i (chaos sv) (plat sv) = (c, pl) \<Longrightarrow> metric_calls ns (sv\<lparr>chaos := c, plat := pl\<rparr>) = metric_calls ns sv"
  using chaos_exec_adds [of "RunTask i" "chaos sv" "plat sv" c pl] by (intro adds_apart [OF _ others_apart(3)]) simp

end

sublocale untouched \<subseteq> kept: service_invariant role "\<lambda>sv. metric_calls ns sv = cs" for role cs
proof
  show "metric_calls ns sv' = cs" if "metric_calls ns sv = cs" "adds inner_metrics (plat sv) (plat sv')" for sv sv'
    using adds_apart [OF that(2) others_apart(1)] that(1) by simp
  show "metric_calls ns (sv\<lparr>chaos := c\<rparr>) = cs" if "metric_calls ns sv = cs" for sv c using that by (simp add: metric_calls_def)
  show "metric_calls ns (sv\<lparr>chaos := c, plat := pl\<rparr>) = cs"
    if "metric_calls ns sv = cs" "handle_control x (chaos sv) (plat sv) = (r, c, pl)" for sv x r c pl
    using adds_apart [of chaos_metrics sv "sv\<lparr>chaos := c, plat := pl\<rparr>" ns] control_adds [OF that(2)] others_apart(3) that(1) by simp
  show "metric_calls ns (sv\<lparr>chaos := c, plat := pl\<rparr>) = cs" if "metric_calls ns sv = cs" "run_task i (chaos sv) (plat sv) = (c, pl)" for sv i c pl
    using untouched_task [OF that(2)] that(1) by simp
  show "metric_calls ns (snd (f sv)) = cs" if "metric_calls ns sv = cs" "role_readiness role = Some f" for sv f
    using adds_apart [OF readiness_adds(1) [OF that(2)] others_apart(2)] that(1) by simp
  show "metric_calls ns (snd (enter_step n cfg now sv)) = cs" if "metric_calls ns sv = cs" for sv now n cfg
    using adds_apart [OF enter_step_adds(1) others_apart(2)] that by simp
  show "metric_calls ns (exit_step n b now r sv) = cs" if "metric_calls ns sv = cs" for sv n b now and r :: "unit result"
    using that by simp
qed

text \<open>The counters of the request middleware and those of the job loop.\<close>

interpretation red: untouched "[''http_requests_total'', ''http_requests_in_progress'', ''http_exceptions_total'']"
  by unfold_locales (simp add: inner_metrics_def breaker_metrics_def chaos_metrics_def)

interpretation jobs: untouched worker_metrics
  by unfold_locales (simp add: inner_metrics_def breaker_metrics_def chaos_metrics_def worker_metrics_def)

lemma red_metric_calls: "red_calls sv = metric_calls [''http_requests_total'', ''http_requests_in_progress'', ''http_exceptions_total''] sv"
  by (simp add: red_calls_def metric_calls_def)

lemma chaos_reach_adds:
  assumes "chaos_reach allowed_op srv c p" "adds ns p p'" "''chaos_active'' \<notin> set ns"
  shows "chaos_reach allowed_op srv c p'"
  using adds_gauge [OF assms(2,3)] by (intro chaos_reach.others [OF assms(1)])

text \<open>What the modules make of an empty process: the breaker of the dependency, if there is one, and the controller.\<close>

fun module_breakers :: "(string \<times> breaker_config) option \<Rightarrow> platform \<Rightarrow> (string \<times> breaker) list \<times> platform" where
  "module_breakers None p = ([], p)"
| "module_breakers (Some (n, cfg)) p = (case new_breaker n cfg in_memory_ops in_memory_new p of (b, p') \<Rightarrow> ([(n, b)], p'))"

lemma serving_process_cases:
  assumes "serving_process role p0 = Inr p"
  obtains reg p1 c p2 l where "module_breakers (role_guard role) p0 = (reg, p1)" "new_controller (role_name role) p1 = (c, p2)"
    "p = start_process role \<lparr>plat = emit [GaugeSet ''service_up'' [] 1] p2, breakers = reg,
       chaos = c, limiter = l, request_id_var = ''-'', correlation_id_var = ''-''\<rparr>"
proof -
  obtain reg p1 where b: "module_breakers (role_guard role) p0 = (reg, p1)" by force
  obtain c p2 where c: "new_controller (role_name role) p1 = (c, p2)" by force
  show thesis
    using assms b c
    by (cases role) (auto simp: serving_process_def api_module_def auth_module_def worker_module_def create_service_app_def
        build_middleware_stack_def lifespan_start_def run_hook_def emit_s_def get_or_create_def Let_def
        intro!: that split: sum.splits prod.splits)
qed

lemma breaker_chaos_apart [simp]: "''chaos_active'' \<notin> set breaker_metrics"
  by (simp add: breaker_metrics_def)

text \<open>The controller of a running process is one of the reachable ones, whatever else runs.\<close>

interpretation process_chaos: process_invariant role "\<lambda>sv. chaos_reach (\<lambda>x s. True) (role_name role) (chaos sv) (plat sv)" for role
proof
  let ?I = "\<lambda>sv. chaos_reach (\<lambda>x s. True) (role_name role) (chaos sv) (plat sv)"
  show "?I (sv\<lparr>chaos := c, plat := pl\<rparr>)"
    if "?I sv" "endpoint_ok role (At_once (Chaos_control x))" "handle_control x (chaos sv) (plat sv) = (r, c, pl)" for sv x r c pl
    using that handle_control_exec [of x "chaos sv" "plat sv"] by (auto split: option.splits intro: chaos_reach.exec)
  show "?I (sv\<lparr>chaos := c, plat := pl\<rparr>)" if "?I sv" "run_task i (chaos sv) (plat sv) = (c, pl)" for sv i c pl
    using chaos_reach.exec [OF that(1), of "RunTask i"] that(2) by simp
  show "?I (snd (f sv))" if "?I sv" "role_readiness role = Some f" for sv f
    using chaos_reach_adds [OF that(1) readiness_adds(1) [OF that(2)]] readiness_adds(2) [OF that(2)] by simp
  show "?I (svc p)" if "serving_process role p0 = Inr p" for p0 p
    using that
  proof (rule serving_process_cases)
    fix reg p1 c p2 l
    assume c: "new_controller (role_name role) p1 = (c, p2)"
      and p: "p = start_process role \<lparr>plat = emit [GaugeSet ''service_up'' [] 1] p2, breakers = reg,
       chaos = c, limiter = l, request_id_var = ''-'', correlation_id_var = ''-''\<rparr>"
    show ?thesis
      using chaos_reach_adds [OF chaos_reach.start [OF c], of "[''service_up'']"] by (simp add: p start_process_def adds_emit)
  qed
qed (auto simp: inner_metrics_def red_metrics_def worker_metrics_def enter_step_adds(2) exit_step_adds(2)
    intro: chaos_reach_adds chaos_reach_adds [OF _ enter_step_adds(1)] chaos_reach_adds [OF _ exit_step_adds(1)]
      breaker_chaos_apart chaos_reach.exec [where x = Decide])

lemma breaker_reach_adds:
  assumes "breaker_reach n cfg b p" "adds ns p p'" "''circuit_breaker_state'' \<notin> set ns"
  shows "breaker_reach n cfg b p'"
  using adds_gauge [OF assms(2,3)] by (intro breaker_reach.others [OF assms(1)])

definition guarded :: "role \<Rightarrow> service \<Rightarrow> bool" where
  "guarded role sv \<longleftrightarrow>
     (case role_guard role of
        None \<Rightarrow> breakers sv = []
      | Some (n, cfg) \<Rightarrow> (\<exists>b. breakers sv = [(n, b)] \<and> breaker_reach n cfg b (plat sv)))"

lemma guardedE:
  assumes "guarded role sv" "role_guard role = Some (n, cfg)"
  obtains b where "breakers sv = [(n, b)]" "breaker_reach n cfg b (plat sv)"
  using assms by (auto simp: guarded_def)

lemma guardedI: "role_guard role = Some (n, cfg) \<Longrightarrow> breakers sv = [(n, b)] \<Longrightarrow> breaker_reach n cfg b (plat sv) \<Longrightarrow> guarded role sv"
  by (simp add: guarded_def)

lemma guarded_adds:
  assumes "guarded role sv" "breakers sv' = breakers sv" "adds ns (plat sv) (plat sv')" "''circuit_breaker_state'' \<notin> set ns"
  shows "guarded role sv'"
  using assms breaker_reach_adds [OF _ assms(3,4)] by (auto simp: guarded_def split: option.splits)

lemma guarded_enter:
  assumes "guarded role sv" "role_guard role = Some (n, cfg)"
  shows "guarded role (snd (enter_step n cfg now sv))"
proof -
  obtain b where b: "breakers sv = [(n, b)]" "breaker_reach n cfg b (plat sv)" using assms by (rule guardedE)
  obtain ok b1 p1 where a: "allow now b (plat sv) = (ok, b1, p1)" by (metis prod_cases3)
  have b1: "breaker_reach n cfg b1 p1" using breaker_reach.stepped [OF b(2), of "Allow now"] a by simp
  then have n: "name b1 = n" using reach_invariant by blast
  obtain x p2 where r: "reject b1 p1 = (x, p2)" by force
  have "breaker_reach n cfg b1 p2" by (rule breaker_reach.rejected [OF b1 r])
  then show ?thesis
    using b(1) a b1 n r
    by (cases ok; intro guardedI [OF assms(2)]) (simp_all add: enter_step_def get_or_create_def enter_def put_breaker_def)
qed

lemma guarded_exit:
  assumes "guarded role sv" "role_guard role = Some (n, cfg)"
  shows "guarded role (exit_step n b0 now r sv)"
proof -
  obtain b where b: "breakers sv = [(n, b)]" "breaker_reach n cfg b (plat sv)" using assms by (rule guardedE)
  have step: "breaker_reach n cfg b2 p2" if "exit_call failed now b (plat sv) = (b2, p2)" for failed b2 p2
    using breaker_reach.stepped [OF b(2), of Success] breaker_reach.stepped [OF b(2), of "Failure now"] that
    by (cases failed) (simp_all add: exit_call_def)
  have left: "guarded role (sv\<lparr>breakers := put_breaker b2 (breakers sv), plat := p2\<rparr>)"
    if "exit_call failed now b (plat sv) = (b2, p2)" for failed b2 p2
    using reach_invariant [OF step [OF that]] step [OF that] b(1) by (simp add: guarded_def assms(2) put_breaker_def)
  show ?thesis
    using assms(1) b(1) left by (cases r) (simp_all add: exit_step_def dict_get_def Let_def split: prod.split)
qed

lemma guarded_readiness:
  assumes "guarded role sv" "role_readiness role = Some f"
  shows "guarded role (snd (f sv))"
  using assms
  by (cases role) (auto simp: guarded_def api_readiness_def auth_readiness_def breaker_readiness_def get_or_create_def)

lemma guarded_module:
  assumes "module_breakers (role_guard role) p0 = (reg, p1)" "breakers sv = reg" "adds ns p1 (plat sv)" "''circuit_breaker_state'' \<notin> set ns"
  shows "guarded role sv"
proof (cases "role_guard role")
  case None
  then show ?thesis using assms by (simp add: guarded_def)
next
  case (Some g)
  obtain n cfg where g: "g = (n, cfg)" by force
  let ?n = "new_breaker n cfg in_memory_ops in_memory_new p0"
  have "0 < success_threshold cfg" using Some g by (cases role) (auto simp: auth_breaker_config_def identity_breaker_config_def)
  then have "breaker_reach n cfg (fst ?n) (snd ?n)" by (intro breaker_reach.created) simp_all
  then show ?thesis
    using assms Some g by (intro guardedI [of role n cfg _ "fst ?n"] breaker_reach_adds [OF _ assms(3,4)]) (auto split: prod.splits)
qed

text \<open>A process has no breaker but the one for its dependency, and that is one of the reachable ones.\<close>

interpretation process_breaker: process_invariant role "guarded role" for role
proof
  show "guarded role (sv\<lparr>chaos := c, plat := pl\<rparr>)"
    if "guarded role sv" "handle_control x (chaos sv) (plat sv) = (r, c, pl)" for sv x r c pl
    by (rule guarded_adds [OF that(1) _ control_adds]) (use that in \<open>auto simp: chaos_metrics_def\<close>)
  show "guarded role (sv\<lparr>chaos := c, plat := pl\<rparr>)" if "guarded role sv" "run_task i (chaos sv) (plat sv) = (c, pl)" for sv i c pl
    by (rule guarded_adds [OF that(1) _ chaos_exec_adds [of "RunTask i"]]) (use that in \<open>auto simp: chaos_metrics_def\<close>)
  show "guarded role (svc p)" if "serving_process role p0 = Inr p" for p0 p
    using that
  proof (rule serving_process_cases)
    fix reg p1 c p2 l
    assume reg: "module_breakers (role_guard role) p0 = (reg, p1)" and c: "new_controller (role_name role) p1 = (c, p2)"
      and p: "p = start_process role \<lparr>plat = emit [GaugeSet ''service_up'' [] 1] p2, breakers = reg,
       chaos = c, limiter = l, request_id_var = ''-'', correlation_id_var = ''-''\<rparr>"
    have "adds [''chaos_active'', ''service_up''] p1 (emit [GaugeSet ''service_up'' [] 1] p2)"
      using c by (auto simp: new_controller_def intro!: adds_emit)
    then show ?thesis using guarded_module [OF reg] by (simp add: p start_process_def)
  qed
qed (auto simp: guarded_enter guarded_exit guarded_readiness inner_metrics_def red_metrics_def worker_metrics_def
    intro: guarded_adds elim: guarded_adds [where ns = "[]"])

end
