(* ===== verification/ProcessProperties.thy ===== *)
theory ProcessProperties
  imports ProcessInvariants
begin

text \<open>
  What holds of a running process of each service under every interleaving: the request metrics are an
  exact account, every request is answered once and ends, the components keep their promises, and an
  open breaker shields the dependency.
\<close>

section \<open>The account of requests\<close>

definition status_text :: "response result \<Rightarrow> string" where
  "status_text r = (case r of Inl x \<Rightarrow> ''500'' | Inr resp \<Rightarrow> int_str (status_code resp))"

definition open_with :: "string \<Rightarrow> process \<Rightarrow> nat" where
  "open_with m p = length (filter (\<lambda>(k, fl). req_method (freq fl) = m) (flights p))"

definition served_with :: "string \<Rightarrow> string \<Rightarrow> string \<Rightarrow> process \<Rightarrow> nat" where
  "served_with m e s p =
     length (filter (\<lambda>(k, fl, req', r). req_method (freq fl) = m \<and> route_label req' = e \<and> status_text r = s) (served p))"

lemma count_red:
  "metric_name c \<in> {''http_requests_total'', ''http_requests_in_progress'', ''http_exceptions_total''} \<Longrightarrow>
   count_calls c (calls (plat sv)) = count_calls c (red_calls sv)"
  by (auto simp: count_calls_def red_calls_def intro: arg_cong [where f = length] filter_cong)

lemma conclude_red:
  assumes "req_method req' = req_method (freq fl)"
  shows "count_calls (GaugeInc ''http_requests_in_progress'' l) (red_calls (snd (conclude tick req' fl r sv))) =
      count_calls (GaugeInc ''http_requests_in_progress'' l) (red_calls sv)"
    "count_calls (GaugeDec ''http_requests_in_progress'' [(''method'', m)]) (red_calls (snd (conclude tick req' fl r sv))) =
      count_calls (GaugeDec ''http_requests_in_progress'' [(''method'', m)]) (red_calls sv) +
      (if m = req_method (freq fl) then 1 else 0)"
    "count_calls (CounterInc ''http_requests_total'' [(''method'', m), (''endpoint'', e), (''status'', s)])
        (red_calls (snd (conclude tick req' fl r sv))) =
      count_calls (CounterInc ''http_requests_total'' [(''method'', m), (''endpoint'', e), (''status'', s)]) (red_calls sv) +
      (if m = req_method (freq fl) \<and> e = route_label req' \<and> s = status_text r then 1 else 0)"
  using assms by (cases r; auto simp: conclude_def finish_request_def status_text_def Let_def)+

lemma decide_step_done: "decide_step req sv = (Done req' r, sv') \<Longrightarrow> req' = req \<and> r = Inr injected_error"
  by (rule decide_step_cases [of req sv]) auto

lemma handled_not_open: "handled r \<noteq> Inl (CircuitBreakerOpenError n)"
  by (simp add: handled_def split: sum.split exn.split)

lemma segment_done:
  assumes "segment w now uuid fl sv = (Done req' r, sv')"
  shows "req' = freq fl \<or> req' = matched w (freq fl)"
  using assms
proof (cases rule: segment_cases)
  case (decide sv0)
  then show ?thesis using decide_step_done by blast
qed (auto split: option.splits sum.splits)

lemma matched_method [simp]: "req_method (matched w req) = req_method req"
  by (simp add: matched_def)

definition ids_ok :: "process \<Rightarrow> bool" where
  "ids_ok p \<longleftrightarrow> distinct (map fst (flights p) @ map fst (served p)) \<and>
     set (map fst (flights p) @ map fst (served p)) = {..<next_id p}"

lemma ids_ok_end:
  assumes "ids_ok p" "map_of (flights p) k = Some fl"
  shows "ids_ok (end_flight k tick req' fl r sv p)"
proof -
  have k: "k \<in> set (map fst (flights p))" using assms(2) by (metis domI dom_map_of_conv_image_fst set_map)
  show ?thesis using assms(1) k by (auto simp: ids_ok_def end_flight_sel delete_map_fst)
qed

lemma ids_ok_exec:
  assumes "ids_ok p"
  shows "ids_ok (pexec w ev p)"
proof (cases rule: pexec_cases [where w = w and ev = ev and p = p])
  case (arrive req e fresh t)
  then show ?thesis using assms by (auto simp: ids_ok_def)
next
  case (suspend k now tick uuid fl c sv)
  have "k \<in> set (map fst (flights p))" using suspend(2) by (metis domI dom_map_of_conv_image_fst set_map)
  then have "map fst (AList.update k (fl\<lparr>fpc := c\<rparr>) (flights p)) = map fst (flights p)" by (simp add: AList.update_keys)
  then show ?thesis using assms suspend(4) by (simp add: ids_ok_def)
qed (use assms ids_ok_end in \<open>auto simp: ids_ok_def\<close>)

lemma serving_process_empty: "serving_process role p0 = Inr p \<Longrightarrow> flights p = [] \<and> served p = [] \<and> next_id p = 0"
  by (erule serving_process_cases) (simp add: start_process_def)

lemma reachable_ids: "preach w p \<Longrightarrow> ids_ok p"
proof (induction rule: preach.induct)
  case (started p0 p)
  then show ?case using serving_process_empty by (simp add: ids_ok_def)
qed (rule ids_ok_exec)

text \<open>The counters of the request middleware against the tasks.\<close>

definition accounted :: "process \<Rightarrow> bool" where
  "accounted p \<longleftrightarrow> (\<forall>m e s.
     count_calls (GaugeInc ''http_requests_in_progress'' [(''method'', m)]) (red_calls (svc p)) =
       count_calls (GaugeDec ''http_requests_in_progress'' [(''method'', m)]) (red_calls (svc p)) + open_with m p \<and>
     count_calls (CounterInc ''http_requests_total'' [(''method'', m), (''endpoint'', e), (''status'', s)]) (red_calls (svc p)) =
       served_with m e s p)"

lemma red_context [simp]: "red_calls (in_context fl sv) = red_calls sv" "red_calls (out_of_context outer sv) = red_calls sv"
  by (simp_all add: red_calls_def)

lemma accounted_end:
  assumes "accounted p" "ids_ok p" "map_of (flights p) k = Some fl" "red_calls sv = red_calls (svc p)"
    and "req' = freq fl \<or> req' = matched w (freq fl)"
  shows "accounted (end_flight k tick req' fl r sv p)"
proof -
  have m: "req_method req' = req_method (freq fl)" using assms(5) by auto
  have d: "distinct (map fst (flights p))" using assms(2) by (simp add: ids_ok_def)
  have st: "status_text (map_sum id (append_headers hs) r) = status_text r" for hs
    by (simp add: status_text_def append_headers_def split: sum.split)
  show ?thesis
    unfolding accounted_def
  proof (intro allI)
    fix m' e s
    note a = assms(1) [unfolded accounted_def, rule_format, of m' e s, folded assms(4)]
    have "open_with m' p = open_with m' (end_flight k tick req' fl r sv p) + (if req_method (freq fl) = m' then 1 else 0)"
      unfolding open_with_def end_flight_sel by (rule delete_split [OF d assms(3)])
    moreover have "served_with m' e s (end_flight k tick req' fl r sv p) = served_with m' e s p +
        (if req_method (freq fl) = m' \<and> route_label req' = e \<and> status_text r = s then 1 else 0)"
      by (auto simp: served_with_def end_flight_sel st)
    ultimately show "count_calls (GaugeInc ''http_requests_in_progress'' [(''method'', m')]) (red_calls (svc (end_flight k tick req' fl r sv p))) =
       count_calls (GaugeDec ''http_requests_in_progress'' [(''method'', m')]) (red_calls (svc (end_flight k tick req' fl r sv p))) +
         open_with m' (end_flight k tick req' fl r sv p) \<and>
     count_calls (CounterInc ''http_requests_total'' [(''method'', m'), (''endpoint'', e), (''status'', s)])
        (red_calls (svc (end_flight k tick req' fl r sv p))) = served_with m' e s (end_flight k tick req' fl r sv p)"
      using a by (simp add: end_flight_sel(1) conclude_red [OF m])
  qed
qed

lemma job_red:
  assumes "job_move now tick c0 sv = (c, st, sv') \<or> job_cancel tick c0 sv = (c, st, sv')"
  shows "red_calls sv' = red_calls sv"
proof -
  have f: "red_calls (finish_at start tick s v) = red_calls v" for start s v by (simp add: finish_at_def red_calls_def emit_s_def)
  have "red_calls v' = red_calls v" if "job_decide start tick v = (c, st, v')" for start v v'
    using that by (auto simp: job_decide_def finish_at_def Let_def red_calls_def split: prod.splits if_splits)
  then show ?thesis using assms f by (cases c0) (auto split: if_splits)
qed

lemma accounted_exec:
  assumes "accounted p" "ids_ok p" "\<forall>(k, fl) \<in> set (flights p). flight_ok (w_role w) fl"
  shows "accounted (pexec w ev p)"
proof (cases rule: pexec_cases [where w = w and ev = ev and p = p])
  case same
  have "red_calls (svc (pexec w ev p)) = red_calls (svc p)"
    using same(5)
  proof (elim disjE exE conjE)
    fix i c pl
    assume "run_task i (chaos (svc p)) (plat (svc p)) = (c, pl)" "svc (pexec w ev p) = (svc p)\<lparr>chaos := c, plat := pl\<rparr>"
    then show ?thesis using red.untouched_task by (simp add: red_metric_calls)
  qed (simp_all add: red_calls_def)
  then show ?thesis using assms(1) same by (simp add: accounted_def open_with_def served_with_def)
next
  case (work now tick c st sv)
  then show ?thesis using assms(1) job_red [OF work(2)] by (simp add: accounted_def open_with_def served_with_def)
next
  case (arrive req e fresh t)
  then show ?thesis using assms(1) by (auto simp: accounted_def open_with_def served_with_def new_flight_def Let_def)
next
  case (suspend k now tick uuid fl c sv)
  have "red_calls sv = red_calls (svc p)"
    using red.kept.keeps_segment [OF refl refl map_of_ball [OF suspend(2) assms(3)] suspend(3)] by (simp add: red_metric_calls)
  moreover have "length (filter (\<lambda>(k, fl). req_method (freq fl) = m) (AList.update k (fl\<lparr>fpc := c\<rparr>) (flights p))) =
      length (filter (\<lambda>(k, fl). req_method (freq fl) = m) (flights p))" for m
    by (rule update_split [OF suspend(2)]) simp
  ultimately show ?thesis using assms(1) suspend(4) by (simp add: accounted_def open_with_def served_with_def)
next
  case (finish k now tick uuid fl req' r sv)
  have "red_calls sv = red_calls (svc p)"
    using red.kept.keeps_segment [OF refl refl map_of_ball [OF finish(2) assms(3)] finish(3)] by (simp add: red_metric_calls)
  then show ?thesis using accounted_end [OF assms(1,2) finish(2) _ segment_done [OF finish(3)]] finish(4) by simp
next
  case (cancel k now tick fl req' sv)
  have "red_calls sv = red_calls (svc p)" using cancel(4) by (auto simp: red_metric_calls)
  then show ?thesis using accounted_end [OF assms(1,2) cancel(2) _ cancel(3)] cancel(5) by simp
qed

lemma serving_process_red: "serving_process role p0 = Inr p \<Longrightarrow> calls p0 = [] \<Longrightarrow> red_calls (svc p) = []"
  by (erule serving_process_cases; cases role)
    (auto simp: start_process_def new_breaker_def new_controller_def red_calls_def Let_def)

lemma reachable_accounted: "preach w p \<Longrightarrow> accounted p"
proof (induction rule: preach.induct)
  case (started p0 p)
  then show ?case
    using serving_process_red serving_process_empty by (simp add: accounted_def open_with_def served_with_def)
next
  case (stepped p ev hx)
  then show ?case
    using accounted_exec [of p "w\<lparr>w_httpx := hx\<rparr>" ev] reachable_ids [OF stepped.hyps(1)] reachable_payloads [OF stepped.hyps(1)] by simp
qed

section \<open>Properties of the process\<close>

text \<open>
  C6. The request metrics are an exact account of the process, under every interleaving of requests,
  disconnecting clients and background work: for each method the increments of the in-progress gauge
  exceed its decrements by the number of requests in flight, and for each method, endpoint and status
  the request counter has counted the requests that ended with them, each once.
\<close>

theorem metrics_account_exact:
  assumes "preach w p"
  shows "count_calls (GaugeInc ''http_requests_in_progress'' [(''method'', m)]) (calls (plat (svc p))) =
      count_calls (GaugeDec ''http_requests_in_progress'' [(''method'', m)]) (calls (plat (svc p))) + open_with m p \<and>
    count_calls (CounterInc ''http_requests_total'' [(''method'', m), (''endpoint'', e), (''status'', s)]) (calls (plat (svc p))) =
      served_with m e s p"
  using reachable_accounted [OF assms] by (simp add: accounted_def count_red)

lemma served_answers: "preach w p \<Longrightarrow> (k, fl, req', Inr resp) \<in> set (served p) \<Longrightarrow>
   \<exists>resp0. resp = append_headers (response_headers fl) resp0"
proof (induction rule: preach.induct)
  case (started p0 p)
  then show ?case using serving_process_empty by simp
next
  case (stepped p ev hx)
  then show ?case
    by (cases rule: pexec_cases [where w = "w\<lparr>w_httpx := hx\<rparr>" and ev = ev and p = p]) (auto simp: end_flight_sel simp del: pexec.simps dest!: map_sum_InrD)
qed

lemma reachable_own_ids:
  assumes "preach w p" "(k, fl, out) \<in> set (served p)"
  shows "\<exists>fresh. frid fl = header_or (freq fl) ''x-request-id'' fresh \<and> fcid fl = header_or (freq fl) ''x-correlation-id'' (frid fl)"
proof -
  let ?P = "\<lambda>fl. \<exists>fresh. frid fl = header_or (freq fl) ''x-request-id'' fresh \<and> fcid fl = header_or (freq fl) ''x-correlation-id'' (frid fl)"
  have "(\<forall>(k, fl) \<in> set (flights p). ?P fl) \<and> (\<forall>(k, fl, out) \<in> set (served p). ?P fl)"
    by (rule reachable_flights [OF assms(1)]) (auto simp: new_flight_def Let_def)
  then show ?thesis using assms(2) by fastforce
qed

text \<open>
  C10. Every request is answered exactly once and with its own identity: the requests that ever
  arrived are those in flight and those served, none is both and none is served twice; and every
  response that left the process ends with the headers that carry the request id and the correlation
  id of its own request (those the client sent, a fresh id where it sent none), whatever other
  requests ran in between.
\<close>

theorem answered_once_with_own_ids:
  assumes "preach w p"
  shows "distinct (map fst (flights p) @ map fst (served p)) \<and>
    set (map fst (flights p) @ map fst (served p)) = {..<next_id p} \<and>
    (\<forall>(k, fl, req', r) \<in> set (served p).
       (\<exists>fresh. frid fl = header_or (freq fl) ''x-request-id'' fresh) \<and>
       fcid fl = header_or (freq fl) ''x-correlation-id'' (frid fl) \<and>
       (\<forall>resp. r = Inr resp \<longrightarrow> suffix [(''x-request-id'', frid fl), (''x-correlation-id'', fcid fl)] (headers resp)))"
proof -
  have "suffix [(''x-request-id'', frid fl), (''x-correlation-id'', fcid fl)] (headers resp)"
    if out: "(k, fl, req', Inr resp) \<in> set (served p)" for k fl req' resp
  proof -
    obtain resp0 where "resp = append_headers (response_headers fl) resp0" using served_answers [OF assms out] by blast
    then show ?thesis by (auto simp: append_headers_def response_headers_def suffix_def)
  qed
  then show ?thesis using reachable_ids [OF assms] reachable_own_ids [OF assms] by (fastforce simp: ids_ok_def)
qed

fun resumes :: "nat \<Rightarrow> pevent \<Rightarrow> bool" where
  "resumes k (Resume j now tick uuid) = (j = k)"
| "resumes k ev = False"

lemma served_stays: "k \<in> fst ` set (served p) \<Longrightarrow> k \<in> fst ` set (served (pexec w ev p))"
  by (cases rule: pexec_cases [where w = w and ev = ev and p = p]) (auto simp: end_flight_sel)

lemma served_stays_run: "k \<in> fst ` set (served p) \<Longrightarrow> k \<in> fst ` set (served (prun w es p))"
  unfolding prun_def by (induction es arbitrary: p) (simp_all add: served_stays)

lemma task_advances:
  assumes "map_of (flights p) k = Some fl"
  shows "k \<in> fst ` set (served (pexec w ev p)) \<or>
    (\<exists>fl'. map_of (flights (pexec w ev p)) k = Some fl' \<and>
       segments_left (fpc fl') + (if resumes k ev then 1 else 0) \<le> segments_left (fpc fl))"
proof (cases rule: pexec_cases [where w = w and ev = ev and p = p])
  case same
  then show ?thesis using assms by (cases ev) auto
next
  case (work now tick c st sv)
  then show ?thesis using assms by auto
next
  case (arrive req e fresh t)
  then show ?thesis using assms by (simp add: map_add_Some_iff)
next
  case (suspend j now tick uuid fl' c sv)
  then show ?thesis using assms segment_progress [OF suspend(3)] by (auto simp: update_conv')
next
  case (finish j now tick uuid fl' req' r sv)
  then show ?thesis using assms by (auto simp: end_flight_sel delete_conv')
next
  case (cancel j now tick fl' req' sv)
  then show ?thesis using assms by (auto simp: end_flight_sel delete_conv')
qed

text \<open>
  Every request ends: once a request is in flight, any continuation in which the event loop resumes
  it at least six times, interleaved with whatever else arrives, runs or is cancelled, has served it.
\<close>

lemma requests_end:
  assumes "map_of (flights p) k = Some fl" "6 \<le> length (filter (resumes k) es)"
  shows "k \<in> fst ` set (served (prun w es p))"
proof -
  have "k \<in> fst ` set (served (prun w es p))"
    if "map_of (flights p) k = Some fl" "segments_left (fpc fl) \<le> length (filter (resumes k) es)" for p fl
    using that
  proof (induction es arbitrary: p fl)
    case Nil
    then show ?case using segments_left_pos [of "fpc fl"] by simp
  next
    case (Cons ev es)
    from task_advances [OF Cons.prems(1), of w ev] show ?case
    proof
      assume "k \<in> fst ` set (served (pexec w ev p))"
      then show ?thesis using served_stays_run [of k "pexec w ev p" w es] by (simp add: prun_def)
    next
      assume "\<exists>fl'. map_of (flights (pexec w ev p)) k = Some fl' \<and>
       segments_left (fpc fl') + (if resumes k ev then 1 else 0) \<le> segments_left (fpc fl)"
      then obtain fl' where "map_of (flights (pexec w ev p)) k = Some fl'"
        "segments_left (fpc fl') + (if resumes k ev then 1 else 0) \<le> segments_left (fpc fl)" by blast
      then show ?thesis using Cons.IH [of "pexec w ev p" fl'] Cons.prems(2) by (auto simp: prun_def split: if_splits)
    qed
  qed
  moreover have "segments_left (fpc fl) \<le> 6" by (cases "fpc fl") simp_all
  ultimately show ?thesis using assms by simp
qed

text \<open>
  C11. The promises of the components survive concurrency. In every reachable process there is exactly
  the breaker of its dependency (none in the worker), its record is consistent and its gauge shows its
  state. The chaos latency, error rate and accumulator are in their ranges, the accounted memory is not
  negative and at most what running tasks hold, the four \<open>chaos_active\<close> gauges show the controller's
  own flags and its accounted memory, and the CPU flag is set only while a burn runs. That the memory
  held stays under its cap, or that the CPU flag is set throughout overlapping burns, is not claimed.
\<close>

theorem components_sound_in_process:
  assumes "preach w p"
  shows "(case role_guard (w_role w) of
        None \<Rightarrow> breakers (svc p) = []
      | Some (n, cfg) \<Rightarrow> \<exists>b. breakers (svc p) = [(n, b)] \<and> record_ok cfg (load_rec b) \<and> gauge_ok b (plat (svc p))) \<and>
    settings_ok (cstate (chaos (svc p))) \<and> memory_ok (cstate (chaos (svc p))) \<and> gauges_ok (cstate (chaos (svc p))) (plat (svc p)) \<and>
    cpu_flag_ok (cstate (chaos (svc p)))"
proof -
  have "guarded (w_role w) (svc p)" by (rule process_breaker.holds_reachable [OF assms refl])
  then have "case role_guard (w_role w) of
        None \<Rightarrow> breakers (svc p) = []
      | Some (n, cfg) \<Rightarrow> \<exists>b. breakers (svc p) = [(n, b)] \<and> record_ok cfg (load_rec b) \<and> gauge_ok b (plat (svc p))"
    using reach_invariant by (fastforce simp: guarded_def split: option.splits)
  moreover have "chaos_reach (\<lambda>x s. True) (role_name (w_role w)) (chaos (svc p)) (plat (svc p))"
    by (rule process_chaos.holds_reachable [OF assms refl])
  ultimately show ?thesis using reach_chaos_ok reach_gauges by blast
qed

section \<open>An open breaker in the process\<close>

fun clock_within :: "rat \<Rightarrow> rat \<Rightarrow> pevent \<Rightarrow> bool" where
  "clock_within t T (Resume k now tick uuid) = (\<exists>x. now = Fin x \<and> t \<le> x \<and> x \<le> T)"
| "clock_within t T (Cancel k now tick) = (\<exists>x. now = Fin x \<and> t \<le> x \<and> x \<le> T)"
| "clock_within t T ev = True"

fun in_call :: "pc \<Rightarrow> bool" where
  "in_call (Calling order a b) = True"
| "in_call (Validating tr b) = True"
| "in_call c = False"

text \<open>The breaker is open since a time in the window.\<close>

definition open_in :: "string \<Rightarrow> breaker_config \<Rightarrow> rat \<Rightarrow> rat \<Rightarrow> service \<Rightarrow> bool" where
  "open_in n cfg t T sv \<longleftrightarrow>
     (\<exists>b m s. breakers sv = [(n, b)] \<and> name b = n \<and> config b = cfg \<and> ops b = in_memory_ops \<and>
        phase_of b = SOpen m (Fin s) \<and> t \<le> s \<and> s \<le> T)"

lemma open_inE:
  assumes "open_in n cfg t T sv"
  obtains b m s where "breakers sv = [(n, b)]" "name b = n" "config b = cfg" "ops b = in_memory_ops"
    "phase_of b = SOpen m (Fin s)" "t \<le> s" "s \<le> T"
  using assms by (auto simp: open_in_def)

lemma open_in_breakers: "open_in n cfg t T sv \<Longrightarrow> breakers sv' = breakers sv \<Longrightarrow> open_in n cfg t T sv'"
  by (simp add: open_in_def)

lemma limit_step_breakers: "limit_step now req sv = (r, sv') \<Longrightarrow> breakers sv' = breakers sv"
  by (auto simp: limit_step_def Let_def split: prod.splits sum.splits if_splits)

lemma decide_step_breakers: "decide_step req sv = (x, sv') \<Longrightarrow> breakers sv' = breakers sv"
  by (auto simp: decide_step_def Let_def split: prod.splits if_splits)

lemma readiness_breakers:
  assumes "role_readiness role = Some f" "role_guard role = Some (n, cfg)" "breakers sv = [(n, b)]"
  shows "breakers (snd (f sv)) = breakers sv"
  using assms by (cases role) (auto simp: api_readiness_def auth_readiness_def breaker_readiness_def get_or_create_def)

lemma at_once_breakers:
  assumes "role_guard (w_role w) = Some (n, cfg)" "open_in n cfg t T sv" "handle_at_once w now h sv = (r, sv')"
  shows "breakers sv' = breakers sv"
proof -
  obtain b where b: "breakers sv = [(n, b)]" using assms(2) by (rule open_inE)
  show ?thesis
    using assms(3) readiness_breakers [OF _ assms(1) b]
    by (cases h) (auto simp: ready_def Let_def split: prod.splits sum.splits json.splits if_splits option.splits)
qed

lemma open_in_enter:
  assumes "open_in n cfg t T sv" "Fin T - Fin t < recovery_timeout cfg" "t \<le> x" "x \<le> T"
  shows "fst (enter_step n cfg (Fin x) sv) = Inl (CircuitBreakerOpenError n)"
    "open_in n cfg t T (snd (enter_step n cfg (Fin x) sv))"
proof -
  obtain b m s where b: "breakers sv = [(n, b)]" "name b = n" "config b = cfg" "ops b = in_memory_ops"
    "phase_of b = SOpen m (Fin s)" "t \<le> s" "s \<le> T" using assms(1) by (rule open_inE)
  obtain r b1 p1 where e: "enter (Fin x) b (plat sv) = (r, b1, p1)" by (metis prod_cases3)
  have "Fin x - Fin s < recovery_timeout cfg" by (rule elapsed_short [OF assms(2) b(6) assms(4)])
  then have "\<not> admits cfg (Fin x) (phase_of b)" "spec_step cfg (Allow (Fin x)) (phase_of b) = phase_of b"
    by (simp_all add: admits_def b(5))
  with enter_cases [OF b(4) e] b e
  show "fst (enter_step n cfg (Fin x) sv) = Inl (CircuitBreakerOpenError n)" "open_in n cfg t T (snd (enter_step n cfg (Fin x) sv))"
    by (auto simp: enter_step_def get_or_create_def put_breaker_def open_in_def)
qed

lemma open_in_exit:
  assumes "open_in n cfg t T sv" "t \<le> x" "x \<le> T"
  shows "open_in n cfg t T (exit_step n b0 (Fin x) r sv)"
proof -
  obtain b m s where b: "breakers sv = [(n, b)]" "name b = n" "config b = cfg" "ops b = in_memory_ops"
    "phase_of b = SOpen m (Fin s)" "t \<le> s" "s \<le> T" using assms(1) by (rule open_inE)
  have op: "open_in n cfg t T (sv\<lparr>breakers := put_breaker b2 (breakers sv), plat := p2\<rparr>)"
    if "run_op y (b, plat sv) = (b2, p2)" "y = Success \<or> y = Failure (Fin x)" for y b2 p2
  proof -
    have "phase_of b2 = spec_step cfg y (SOpen m (Fin s))"
      using in_memory.step_refines [of b y "plat sv"] that(1) b by simp
    then show ?thesis
      using run_op_frame [of y "(b, plat sv)"] that b assms(2,3) by (auto simp: open_in_def put_breaker_def)
  qed
  have "open_in n cfg t T (sv\<lparr>breakers := put_breaker b2 (breakers sv), plat := p2\<rparr>)"
    if "exit_call failed (Fin x) b (plat sv) = (b2, p2)" for failed b2 p2
    using op [of Success] op [of "Failure (Fin x)"] that by (cases failed) (simp_all add: exit_call_def)
  then show ?thesis
    using assms(1) b(1) by (cases r) (simp_all add: exit_step_def dict_get_def Let_def split: prod.split)
qed

lemma open_in_segment:
  assumes g: "role_guard (w_role w) = Some (n, cfg)" and ok: "flight_ok (w_role w) fl" and op: "open_in n cfg t T sv"
    and win: "Fin T - Fin t < recovery_timeout cfg" "t \<le> u" "u \<le> T" and seg: "segment w (Fin u) uuid fl sv = (x, sv')"
  shows "open_in n cfg t T sv' \<and> (\<forall>c. x = Next c \<longrightarrow> \<not> in_call c) \<and>
    (fpc fl = Entering \<and> guard_of (fend fl) \<noteq> None \<longrightarrow>
       x = Done (matched w (freq fl)) (handled (w_render w (Inl (CircuitBreakerOpenError n)))))"
  using seg
proof (cases rule: segment_cases)
  case (decide sv0)
  have "breakers sv0 = breakers sv" using decide(3) by auto
  then have "open_in n cfg t T sv'" using decide_step_breakers [OF decide(2)] open_in_breakers [OF op] by simp
  moreover have "\<not> in_call c" if "x = Next c" for c
    by (rule decide_step_cases [of "freq fl" sv0]) (use that decide(2) in auto)
  ultimately show ?thesis using decide(1) by auto
next
  case (limit r)
  have "breakers sv' = breakers sv" using limit(2) limit_step_breakers by (auto split: if_splits)
  then show ?thesis using open_in_breakers [OF op] limit(1,3) by (auto split: option.splits)
next
  case (at_once h r)
  then show ?thesis using open_in_breakers [OF op at_once_breakers [OF g op at_once(3)]] by simp
next
  case (enter n' cfg' r)
  have "(n', cfg') = (n, cfg)" using guard_of_role [OF _ enter(2)] ok g by (simp add: flight_ok_def)
  then show ?thesis using enter open_in_enter [OF op win] by simp
next
  case (answer order a b r)
  then have "n = ''auth''" using ok g by (simp add: flight_ok_def)
  then show ?thesis using answer open_in_exit [OF op win(2,3)] by (auto split: sum.splits)
next
  case (validated tr b valid)
  then have n: "n = ''identity-provider''" using ok g by (simp add: flight_ok_def)
  have "open_in n cfg t T sv'" by (rule open_in_breakers [OF open_in_exit [OF op win(2,3)]]) (simp add: validated(3) n)
  then show ?thesis using validated by simp
qed (use op in auto)

lemma conclude_breakers: "breakers (snd (conclude tick req' fl r sv)) = breakers sv"
  by (cases r) (simp_all add: conclude_def finish_request_def emit_s_def Let_def)

lemma job_breakers:
  assumes "job_move now tick c0 sv = (c, st, sv') \<or> job_cancel tick c0 sv = (c, st, sv')"
  shows "breakers sv' = breakers sv"
  using assms by (cases c0) (auto simp: job_decide_def finish_at_def Let_def split: prod.splits if_splits)

text \<open>A request that ended at the endpoint of a guarded call, before the call, was rejected or cancelled there.\<close>

definition shielded :: "nat \<times> flight \<times> request \<times> response result \<Rightarrow> bool" where
  "shielded out \<longleftrightarrow> (case out of (k, fl, req', r) \<Rightarrow>
     fpc fl = Entering \<and> guard_of (fend fl) \<noteq> None \<longrightarrow>
       r = Inl CancelledError \<or> (\<exists>resp. r = Inr resp \<and> status_code resp = 503))"

lemma shielded_out: "shielded (k, fl, req', map_sum id (append_headers hs) (Inl CancelledError))"
  "r = handled (Inl (CircuitBreakerOpenError n)) \<or> fpc fl \<noteq> Entering \<or> guard_of (fend fl) = None \<Longrightarrow>
   shielded (k, fl, req', map_sum id (append_headers hs) r)"
  by (auto simp: shielded_def handled_def circuit_breaker_open_handler_def append_headers_def JSONResponse_def)

definition shields :: "'r world \<Rightarrow> string \<Rightarrow> breaker_config \<Rightarrow> rat \<Rightarrow> rat \<Rightarrow> process \<Rightarrow> process \<Rightarrow> bool" where
  "shields w n cfg t T p p' \<longleftrightarrow> open_in n cfg t T (svc p') \<and>
    (\<forall>k fl. map_of (flights p') k = Some fl \<and> in_call (fpc fl) \<longrightarrow> map_of (flights p) k = Some fl) \<and>
    (\<exists>new. served p' = served p @ new \<and> list_all shielded new)"

lemma open_step:
  assumes g: "role_guard (w_role w) = Some (n, cfg)" and ok: "\<forall>(k, fl) \<in> set (flights p). flight_ok (w_role w) fl"
    and op: "open_in n cfg t T (svc p)" and win: "Fin T - Fin t < recovery_timeout cfg" "clock_within t T ev"
    and render: "w_render w (Inl (CircuitBreakerOpenError n)) = Inl (CircuitBreakerOpenError n)"
  shows "shields w n cfg t T p (pexec w ev p)"
proof (cases rule: pexec_cases [where w = w and ev = ev and p = p])
  case same
  have "breakers (svc (pexec w ev p)) = breakers (svc p)" using same(5) by auto
  then show ?thesis using open_in_breakers [OF op] same by (simp add: shields_def)
next
  case (work now tick c st sv)
  then show ?thesis using open_in_breakers [OF op job_breakers [OF work(2)]] by (simp add: shields_def)
next
  case (arrive req e fresh t')
  have "open_in n cfg t T (svc (pexec w ev p))" by (rule open_in_breakers [OF op]) (simp add: arrive(3) emit_s_def)
  then show ?thesis using arrive(3) by (auto simp: shields_def new_flight_def Let_def map_add_Some_iff)
next
  case (suspend k now tick uuid fl c sv)
  then obtain u where u: "now = Fin u" "t \<le> u" "u \<le> T" using win(2) by auto
  have "open_in n cfg t T (in_context fl (svc p))" using open_in_breakers [OF op] by simp
  note s = open_in_segment [OF g map_of_ball [OF suspend(2) ok] this win(1) u(2,3) suspend(3) [unfolded u(1)]]
  have "open_in n cfg t T (svc (pexec w ev p))" using open_in_breakers [of n cfg t T sv] s suspend(4) by simp
  then show ?thesis using s suspend(4) by (auto simp: shields_def update_conv' split: if_splits)
next
  case (finish k now tick uuid fl req' r sv)
  then obtain u where u: "now = Fin u" "t \<le> u" "u \<le> T" using win(2) by auto
  have "open_in n cfg t T (in_context fl (svc p))" using open_in_breakers [OF op] by simp
  note s = open_in_segment [OF g map_of_ball [OF finish(2) ok] this win(1) u(2,3) finish(3) [unfolded u(1)]]
  have "shielded (k, fl, req', map_sum id (append_headers (response_headers fl)) r)"
    using s render by (intro shielded_out(2) [of _ n]) auto
  moreover have "open_in n cfg t T (svc (pexec w ev p))"
    using open_in_breakers [of n cfg t T sv] s finish(4) by (simp add: end_flight_sel conclude_breakers)
  ultimately show ?thesis using finish(4) by (auto simp: shields_def end_flight_sel delete_conv' split: if_splits)
next
  case (cancel k now tick fl req' sv)
  then obtain u where u: "now = Fin u" "t \<le> u" "u \<le> T" using win(2) by auto
  have "n = ''auth''" if "fpc fl = Calling order a b" for order a b using that map_of_ball [OF cancel(2) ok] g by (simp add: flight_ok_def)
  moreover have "n = ''identity-provider''" if "fpc fl = Validating tr b" for tr b
    using that map_of_ball [OF cancel(2) ok] g by (simp add: flight_ok_def)
  ultimately have "open_in n cfg t T sv" using cancel(4) op u by (auto intro!: open_in_exit)
  then have "open_in n cfg t T (svc (pexec w ev p))"
    using open_in_breakers [of n cfg t T sv] cancel(5) by (simp add: end_flight_sel conclude_breakers)
  then show ?thesis
    using cancel(5) shielded_out(1) by (auto simp: shields_def end_flight_sel delete_conv' split: if_splits)
qed

lemma open_run:
  assumes "role_guard (w_role w) = Some (n, cfg)" "Fin T - Fin t < recovery_timeout cfg"
    and "w_render w (Inl (CircuitBreakerOpenError n)) = Inl (CircuitBreakerOpenError n)"
    and "\<forall>(k, fl) \<in> set (flights p). flight_ok (w_role w) fl" "open_in n cfg t T (svc p)"
    and "list_all (clock_within t T) es" "list_all (event_ok (w_role w)) es"
  shows "shields w n cfg t T p (prun w es p)"
  using assms(4-7)
proof (induction es arbitrary: p)
  case Nil
  then show ?case by (simp add: prun_def shields_def)
next
  case (Cons ev es)
  let ?p = "pexec w ev p"
  have run: "prun w (ev # es) p = prun w es ?p" by (simp add: prun_def)
  have one: "shields w n cfg t T p ?p" using Cons.prems by (intro open_step [OF assms(1) _ _ assms(2) _ assms(3)]) simp_all
  then have rest: "shields w n cfg t T ?p (prun w es ?p)"
    using Cons.prems by (intro Cons.IH payloads_step) (simp_all add: shields_def)
  obtain n1 n2 where "served ?p = served p @ n1" "list_all shielded n1" "served (prun w es ?p) = served ?p @ n2" "list_all shielded n2"
    using one rest unfolding shields_def by blast
  then have "served (prun w es ?p) = served p @ (n1 @ n2) \<and> list_all shielded (n1 @ n2)" by simp
  then show ?case unfolding run using one rest unfolding shields_def by blast
qed

text \<open>
  C8. An open breaker shields the dependency from the whole process, auth from the API and the identity
  provider from auth. From a state in which the breaker opened at \<open>t\<close>, as long as the clock readings stay
  within the recovery time, no interleaving of requests, cancellations, late answers of earlier calls and
  chaos control starts a guarded call: every task that waits for the dependency was already waiting, the
  breaker stays open, and a request that reaches the endpoint is answered 503, unless its client leaves
  first. The framework hands exceptions other than its own \<open>HTTPException\<close> to the exception handlers.
\<close>

theorem open_breaker_shields_process:
  assumes "role_guard (w_role w) = Some (n, cfg)" "guarded (w_role w) (svc p)"
    and "\<forall>(k, fl) \<in> set (flights p). flight_ok (w_role w) fl"
    and "breaker_phase n (svc p) = SOpen m (Fin t)" "t \<le> T" "Fin T - Fin t < recovery_timeout cfg"
    and "list_all (clock_within t T) es" "list_all (event_ok (w_role w)) es"
    and "w_render w (Inl (CircuitBreakerOpenError n)) = Inl (CircuitBreakerOpenError n)"
  shows "(\<exists>m s. breaker_phase n (svc (prun w es p)) = SOpen m (Fin s) \<and> t \<le> s \<and> s \<le> T) \<and>
    (\<forall>k fl. map_of (flights (prun w es p)) k = Some fl \<and> in_call (fpc fl) \<longrightarrow> map_of (flights p) k = Some fl) \<and>
    (\<exists>new. served (prun w es p) = served p @ new \<and> list_all shielded new)"
proof -
  obtain b where b: "breakers (svc p) = [(n, b)]" "breaker_reach n cfg b (plat (svc p))" using assms(2,1) by (rule guardedE)
  have "open_in n cfg t T (svc p)"
    using reach_invariant [OF b(2)] b(1) assms(4,5) by (auto simp: open_in_def breaker_phase_def)
  from open_run [OF assms(1,6,9,3) this assms(7,8)] show ?thesis by (auto simp: shields_def open_in_def breaker_phase_def)
qed

section \<open>Examples\<close>

lemma default_numbers: "float_of_str ''0.08'' \<noteq> None" "float_of_str ''5'' \<noteq> None" "float_of_str ''0.2'' \<noteq> None"
proof -
  have "dec_parse ''0.08'' \<noteq> None" "dec_parse ''5'' \<noteq> None" "dec_parse ''0.2'' \<noteq> None" by code_simp+
  then show "float_of_str ''0.08'' \<noteq> None" "float_of_str ''5'' \<noteq> None" "float_of_str ''0.2'' \<noteq> None"
    by (auto simp: float_of_str_def split_sign_def strip_def is_space_def Let_def)
qed

lemma serving_boot: "\<exists>p. serving_process role (boot new_year) = Inr p"
proof -
  have env: "env (snd (new_breaker n cfg sops s q)) = env q" "env (snd (new_controller srv q)) = env q" for n cfg sops s srv q
    by (simp_all add: new_breaker_def new_controller_def Let_def)
  have "validate_env [] q = Inr ()" if "env q = Map.empty" for q
    using that validate_env_char [of "[]" q] by (auto simp: env_value_def getenv_def)
  moreover have "fst (get_limiter None q) \<noteq> Inl x" if "env q = Map.empty" for q x
    using that default_limits by (simp add: get_limiter_def getenv_def Let_def)
  moreover have "float_of_env (getenv v s (boot new_year)) \<noteq> Inl x" if "float_of_str s \<noteq> None" for v s x
    using that by (auto simp: float_of_env_def getenv_def)
  ultimately show ?thesis
    using default_numbers by (cases role) (simp_all add: serving_process_def api_module_def auth_module_def worker_module_def get_or_create_def
        create_service_app_def build_middleware_stack_def env case_prod_beta Let_def split: sum.split)
qed

definition demo_arrival :: pevent where
  "demo_arrival = Arrive (demo_request ''/orders'') (Create_order demo_order None) ''4f2a'' (Fin 5)"

lemma demo_order_in_flight:
  obtains p0 where "preach demo_world p0" "preach demo_world (pexec demo_world demo_arrival p0)"
    "flights (pexec demo_world demo_arrival p0) = [(0, new_flight (demo_request ''/orders'') (Create_order demo_order None) ''4f2a'' (Fin 5))]"
    "served (pexec demo_world demo_arrival p0) = []"
proof -
  have role: "w_role demo_world = API" by (simp add: demo_world_def)
  obtain p0 where p0: "serving_process API (boot new_year) = Inr p0" using serving_boot by blast
  have r: "preach demo_world p0" by (rule preach.started [of _ "boot new_year"]) (simp_all add: role p0)
  have "event_ok (w_role demo_world) demo_arrival" by (simp add: role demo_arrival_def order_request_ok_def demo_order_def)
  then have "preach demo_world (pexec demo_world demo_arrival p0)" by (rule preach_step [OF r])
  moreover have "flights (pexec demo_world demo_arrival p0) =
      [(0, new_flight (demo_request ''/orders'') (Create_order demo_order None) ''4f2a'' (Fin 5))]"
    "served (pexec demo_world demo_arrival p0) = []"
    using serving_process_empty [OF p0] by (simp_all add: demo_arrival_def demo_request_def)
  ultimately show thesis using that r by blast
qed

theorem metrics_account_exact_witness:
  "\<exists>p. preach demo_world p \<and> open_with ''GET'' p = 1 \<and>
    count_calls (GaugeInc ''http_requests_in_progress'' [(''method'', ''GET'')]) (calls (plat (svc p))) =
    count_calls (GaugeDec ''http_requests_in_progress'' [(''method'', ''GET'')]) (calls (plat (svc p))) + 1 \<and>
    count_calls (CounterInc ''http_requests_total'' [(''method'', ''GET''), (''endpoint'', ''/orders''), (''status'', ''200'')])
      (calls (plat (svc p))) = 0"
proof (rule demo_order_in_flight)
  fix p0
  let ?p = "pexec demo_world demo_arrival p0"
  assume p: "preach demo_world ?p"
    "flights ?p = [(0, new_flight (demo_request ''/orders'') (Create_order demo_order None) ''4f2a'' (Fin 5))]" "served ?p = []"
  then have "open_with ''GET'' ?p = 1" "served_with ''GET'' ''/orders'' ''200'' ?p = 0"
    by (simp_all add: open_with_def served_with_def new_flight_def demo_request_def Let_def)
  then show ?thesis using metrics_account_exact [OF p(1), of "''GET''" "''/orders''" "''200''"] p(1) by auto
qed

theorem answered_once_with_own_ids_witness:
  "\<exists>p. preach demo_world p \<and> flights p \<noteq> [] \<and> distinct (map fst (flights p) @ map fst (served p)) \<and>
    set (map fst (flights p) @ map fst (served p)) = {..<next_id p}"
proof (rule demo_order_in_flight)
  fix p0
  let ?p = "pexec demo_world demo_arrival p0"
  assume p: "preach demo_world ?p"
    "flights ?p = [(0, new_flight (demo_request ''/orders'') (Create_order demo_order None) ''4f2a'' (Fin 5))]"
  then show ?thesis using answered_once_with_own_ids [OF p(1)] by (intro exI [of _ ?p]) auto
qed

theorem components_sound_in_process_witness:
  "\<exists>p b. preach demo_world p \<and> flights p \<noteq> [] \<and> breakers (svc p) = [(''auth'', b)] \<and> gauge_ok b (plat (svc p))"
proof (rule demo_order_in_flight)
  fix p0
  let ?p = "pexec demo_world demo_arrival p0"
  assume p: "preach demo_world ?p"
    "flights ?p = [(0, new_flight (demo_request ''/orders'') (Create_order demo_order None) ''4f2a'' (Fin 5))]"
  have "role_guard (w_role demo_world) = Some (''auth'', auth_breaker_config)" by (simp add: demo_world_def)
  then show ?thesis using p components_sound_in_process [OF p(1)] by fastforce
qed

text \<open>A service whose breaker for auth has just opened, at time 100.\<close>

definition demo_open :: process where
  "demo_open =
     (case run_ops (replicate 5 (Failure (Fin 100)))
             (new_breaker ''auth'' auth_breaker_config in_memory_ops in_memory_new (boot new_year)) of
        (b, q) \<Rightarrow> start_process API (demo_service\<lparr>breakers := [(''auth'', b)], plat := q\<rparr>))"

lemma demo_open_guarded: "guarded API (svc demo_open)" "breaker_phase ''auth'' (svc demo_open) = SOpen 5 (Fin 100)"
proof -
  let ?n = "new_breaker ''auth'' auth_breaker_config in_memory_ops in_memory_new (boot new_year)"
  let ?fs = "replicate 5 (Failure (Fin 100))"
  obtain b q where bq: "run_ops ?fs ?n = (b, q)" by force
  have reach: "breaker_reach ''auth'' auth_breaker_config (fst (run_ops xs s)) (snd (run_ops xs s))"
    if "breaker_reach ''auth'' auth_breaker_config (fst s) (snd s)" for xs s
    using that unfolding run_ops_def
  proof (induction xs arbitrary: s)
    case (Cons x xs)
    then show ?case using breaker_reach.stepped [OF Cons.prems, of x] by simp
  qed simp
  have "breaker_reach ''auth'' auth_breaker_config (fst ?n) (snd ?n)" by (rule breaker_reach.created) simp
  from reach [OF this, of ?fs] show "guarded API (svc demo_open)"
    using bq by (simp add: demo_open_def start_process_def guarded_def)
  have "phase_of b = fold (spec_step auth_breaker_config) ?fs (phase_of (fst ?n))"
    using in_memory.steps_refine [of ?n ?fs] bq by simp
  then show "breaker_phase ''auth'' (svc demo_open) = SOpen 5 (Fin 100)"
    using bq new_breaker_load [of "''auth''" auth_breaker_config "boot new_year"]
    by (simp add: demo_open_def start_process_def breaker_phase_def phase_of_def rec_phase_def new_record_def
        auth_breaker_config_def eval_nat_numeral)
qed

theorem open_breaker_shields_process_witness:
  "\<exists>m s. breaker_phase ''auth'' (svc (prun demo_world (demo_arrival # replicate 3 (Resume 0 (Fin 101) (Fin 7) ''9c'')) demo_open)) =
     SOpen m (Fin s) \<and> 100 \<le> s \<and> s \<le> 101"
proof -
  let ?es = "demo_arrival # replicate 3 (Resume 0 (Fin 101) (Fin 7) ''9c'')"
  have role: "w_role demo_world = API" by (simp add: demo_world_def)
  have g: "role_guard (w_role demo_world) = Some (''auth'', auth_breaker_config)" by (simp add: role)
  have fl: "\<forall>(k, fl) \<in> set (flights demo_open). flight_ok (w_role demo_world) fl"
    by (simp add: demo_open_def start_process_def split: prod.split)
  have d: "(Fin 101 - Fin 100 :: pyfloat) < recovery_timeout auth_breaker_config" by (simp add: auth_breaker_config_def round64_exact)
  have es: "list_all (clock_within 100 101) ?es" "list_all (event_ok (w_role demo_world)) ?es"
    by (simp_all add: role demo_arrival_def list_all_iff order_request_ok_def demo_order_def)
  have w: "w_render demo_world (Inl (CircuitBreakerOpenError ''auth'')) = Inl (CircuitBreakerOpenError ''auth'')"
    by (simp add: demo_world_def)
  have t: "(100 :: rat) \<le> 101" by simp
  show ?thesis using open_breaker_shields_process [OF g demo_open_guarded(1) [folded role] fl demo_open_guarded(2) t d es w] by blast
qed

end
