(* ===== verification/ProcessLimits.thy ===== *)
theory ProcessLimits
  imports ProcessProperties
begin

text \<open>
  The rate limit in a running API or auth process: what the tasks ask the limiter, in the order of the steps,
  is a sequence of requests to the bucket store, so the admission bound of the store holds for the
  requests that pass under every interleaving.
\<close>


section \<open>The rate limit in the process\<close>

text \<open>The request that a step puts to the limiter, and whether the task passes it.\<close>

fun limited_by :: "pevent \<Rightarrow> process \<Rightarrow> (string \<times> pyfloat) option" where
  "limited_by (Resume k now tick uuid) p =
     (case map_of (flights p) k of
        Some fl \<Rightarrow> if fpc fl = Limiting \<and> \<not> excluded (req_path (freq fl)) then Some (client_key (freq fl), now) else None
      | None \<Rightarrow> None)"
| "limited_by ev p = None"

fun passes :: "'r world \<Rightarrow> pevent \<Rightarrow> process \<Rightarrow> bool" where
  "passes w (Resume k now tick uuid) p =
     (case map_of (flights (pexec w (Resume k now tick uuid) p)) k of Some fl \<Rightarrow> fpc fl = Entering | None \<Rightarrow> False)"
| "passes w ev p = False"

text \<open>How many requests of a client pass the limiter in a run, and what the limiter is asked.\<close>

fun passed :: "'r world \<Rightarrow> string \<Rightarrow> pevent list \<Rightarrow> process \<Rightarrow> nat" where
  "passed w key [] p = 0"
| "passed w key (ev # es) p =
     (case limited_by ev p of
        Some (key', now) \<Rightarrow> if key' = key \<and> passes w ev p then 1 else 0
      | None \<Rightarrow> 0) + passed w key es (pexec w ev p)"

fun limit_trace :: "'r world \<Rightarrow> pevent list \<Rightarrow> process \<Rightarrow> (string \<times> pyfloat) list" where
  "limit_trace w [] p = []"
| "limit_trace w (ev # es) p =
     (case limited_by ev p of Some q \<Rightarrow> [q] | None \<Rightarrow> []) @ limit_trace w es (pexec w ev p)"

lemma decide_step_limiter: "decide_step req sv = (x, sv') \<Longrightarrow> limiter sv' = limiter sv"
  by (auto simp: decide_step_def Let_def split: prod.splits if_splits)

lemma enter_step_limiter: "limiter (snd (enter_step n cfg now sv)) = limiter sv"
  by (simp add: enter_step_def split: prod.split)

lemma exit_step_limiter: "limiter (exit_step n b now r sv) = limiter sv"
  by (simp add: exit_step_def Let_def split: prod.split sum.split)

lemma at_once_limiter: "handle_at_once w now h sv = (r, sv') \<Longrightarrow> limiter sv' = limiter sv"
  by (cases h; cases "w_role w") (auto simp: ready_def api_readiness_def auth_readiness_def breaker_readiness_def Let_def
      split: prod.splits sum.splits json.splits if_splits)

lemma limit_step_consumes:
  assumes "\<not> excluded (req_path req)" "bops (limiter sv) = bucket_mem_ops" "limit_step now req sv = (r, sv')"
  shows "limiter sv' = (limiter sv)\<lparr>bstore := snd (take_token (client_key req) now (bstore (limiter sv)))\<rparr> \<and>
    (r = None \<longleftrightarrow> is_allowed (fst (take_token (client_key req) now (bstore (limiter sv)))))"
proof -
  obtain res s where tk: "take_token (client_key req) now (bstore (limiter sv)) = (Inr res, s)"
    by (cases "client_key req" now "bstore (limiter sv)" rule: consume_cases) auto
  show ?thesis
    using assms(1,3) tk check_mem [OF assms(2) tk]
    by (auto simp: limit_step_def is_allowed_def Let_def split: sum.splits if_splits)
qed

lemma segment_limiter:
  assumes "bops (limiter sv) = bucket_mem_ops" "segment w now uuid fl sv = (x, sv')" "role_limited (w_role w)"
  shows "if fpc fl = Limiting \<and> \<not> excluded (req_path (freq fl)) then
      limiter sv' = (limiter sv)\<lparr>bstore := snd (take_token (client_key (freq fl)) now (bstore (limiter sv)))\<rparr> \<and>
      (x = Next Entering \<longleftrightarrow> is_allowed (fst (take_token (client_key (freq fl)) now (bstore (limiter sv))))) \<and>
      (\<forall>c. x = Next c \<longrightarrow> c = Entering)
    else limiter sv' = limiter sv"
  using assms(2)
proof (cases rule: segment_cases)
  case (decide sv0)
  then show ?thesis using decide_step_limiter [OF decide(2)] by auto
next
  case (limit r)
  show ?thesis
  proof (cases "excluded (req_path (freq fl))")
    case True
    then show ?thesis using limit assms(3) by (auto simp: limit_step_def)
  next
    case False
    have "limit_step now (freq fl) sv = (r, sv')" using limit(2) assms(3) by simp
    from limit_step_consumes [OF False assms(1) this] show ?thesis using False limit(1,3) by (auto split: option.splits)
  qed
next
  case (at_once h r)
  then show ?thesis using at_once_limiter [OF at_once(3)] by simp
next
  case (enter n cfg r)
  then show ?thesis using enter_step_limiter [of n cfg now sv] by simp
next
  case (answer order a b r)
  then show ?thesis by (simp add: exit_step_limiter)
next
  case (validated tr b valid)
  then show ?thesis by (simp add: exit_step_limiter emit_s_def)
qed simp_all

lemma conclude_limiter: "limiter (snd (conclude tick req' fl r sv)) = limiter sv"
  by (cases r) (simp_all add: conclude_def finish_request_def emit_s_def Let_def)

lemma job_limiter:
  assumes "job_move now tick c0 sv = (c, st, sv') \<or> job_cancel tick c0 sv = (c, st, sv')"
  shows "limiter sv' = limiter sv"
  using assms by (cases c0) (auto simp: job_decide_def finish_at_def emit_s_def Let_def split: prod.splits if_splits)

lemma pexec_limiter:
  assumes "bops (limiter (svc p)) = bucket_mem_ops" "role_limited (w_role w)"
  shows "case limited_by ev p of
      None \<Rightarrow> limiter (svc (pexec w ev p)) = limiter (svc p)
    | Some (key, now) \<Rightarrow>
        limiter (svc (pexec w ev p)) = (limiter (svc p))\<lparr>bstore := snd (take_token key now (bstore (limiter (svc p))))\<rparr> \<and>
        (passes w ev p \<longleftrightarrow> is_allowed (fst (take_token key now (bstore (limiter (svc p))))))"
proof (cases rule: pexec_cases [where w = w and ev = ev and p = p])
  case same
  have "limited_by ev p = None" using same(4) by (cases ev) auto
  then show ?thesis using same(5) by auto
next
  case (work now tick c st sv)
  then show ?thesis using job_limiter [OF work(2)] by auto
next
  case (suspend k now tick uuid fl c sv)
  then show ?thesis
    using segment_limiter [OF _ suspend(3) assms(2)] assms(1)
    by (auto simp: update_conv' split: if_splits)
next
  case (finish k now tick uuid fl req' r sv)
  then show ?thesis
    using segment_limiter [OF _ finish(3) assms(2)] assms(1)
    by (auto simp: end_flight_sel conclude_limiter delete_conv' split: if_splits)
next
  case (cancel k now tick fl req' sv)
  then show ?thesis by (auto simp: end_flight_sel conclude_limiter exit_step_limiter)
qed (simp add: emit_s_def)

lemma passed_admitted:
  assumes "role_limited (w_role w)" "bops (limiter (svc p)) = bucket_mem_ops"
  shows "passed w key es p = admitted key (limit_trace w es p) (bstore (limiter (svc p)))"
  using assms(2)
proof (induction es arbitrary: p)
  case (Cons ev es)
  note step = pexec_limiter [OF Cons.prems assms(1), where ev = ev]
  show ?case
  proof (cases "limited_by ev p")
    case None
    then show ?thesis using step Cons.IH [of "pexec w ev p"] Cons.prems by simp
  next
    case (Some q)
    obtain key' now where q: "q = (key', now)" by force
    then show ?thesis
      using step Some Cons.IH [of "pexec w ev p"] Cons.prems by (auto simp: admitted_def)
  qed
qed simp

text \<open>The clock readings of a run, as its steps take them.\<close>

fun clock_of :: "pevent \<Rightarrow> pyfloat list" where
  "clock_of (Resume k now tick uuid) = [now]"
| "clock_of ev = []"

lemma limit_trace_clock: "subseq (map snd (limit_trace w es p)) (concat (map clock_of es))"
proof (induction es arbitrary: p)
  case (Cons ev es)
  have "subseq (map snd (case limited_by ev p of Some q \<Rightarrow> [q] | None \<Rightarrow> [])) (clock_of ev)"
    by (cases ev) (auto split: option.splits)
  then show ?case using Cons.IH [of "pexec w ev p"] by (simp add: list_emb_append_mono)
qed simp

lemma subseq_map_image: "subseq xs (map f ys) \<Longrightarrow> \<exists>zs. xs = map f zs \<and> subseq zs ys"
proof (induction ys arbitrary: xs)
  case (Cons y ys)
  then show ?case
  proof (cases xs)
    case xs: (Cons x xs')
    show ?thesis
    proof (cases "subseq xs (map f ys)")
      case True
      then show ?thesis using Cons.IH by blast
    next
      case False
      then have "x = f y" "subseq xs' (map f ys)" using Cons.prems xs by (auto split: if_splits)
      then obtain zs where "xs' = map f zs" "subseq zs ys" using Cons.IH by blast
      then show ?thesis using xs \<open>x = f y\<close> by (intro exI [of _ "y # zs"]) simp
    qed
  qed simp
qed (auto dest: list_emb_length)

lemma subseq_sorted: "subseq xs ys \<Longrightarrow> sorted ys \<Longrightarrow> sorted xs"
  by (induction rule: list_emb.induct) (auto dest: list_emb_set)

text \<open>The questions of one client to the limiter are at increasing times.\<close>

lemma own_times:
  assumes "concat (map clock_of es) = map Fin ts"
  obtains us where "filter (\<lambda>(k, t). k = key) (limit_trace w es p) = map (\<lambda>t. (key, Fin t)) us" "subseq us ts"
proof -
  let ?own = "filter (\<lambda>(k, t). k = key) (limit_trace w es p)"
  have "subseq (map snd ?own) (map snd (limit_trace w es p))" by (simp add: subseq_map)
  then have "subseq (map snd ?own) (map Fin ts)" using limit_trace_clock [of w es p] assms subseq_order.trans by metis
  then obtain us where us: "map snd ?own = map Fin us" "subseq us ts" using subseq_map_image by blast
  have "?own = map (Pair key) (map snd ?own)" using own_requests [of key "limit_trace w es p"] by simp
  then show thesis using that [of us] us by (simp add: comp_def)
qed

text \<open>
  C9. The rate limit holds for the process of a service that enables it, where the arithmetic of the bucket
  is exact: the rate is an integer, and the burst, the clock readings and the client's account at the
  start lie on a grid \<open>k / 2^q\<close> with at most 53 bits. Then, under every interleaving of requests, in a
  run whose clock readings do not decrease, start at \<open>t\<close> and end by \<open>T\<close>, at most
  \<open>burst + rps * (T - t)\<close> requests of a client pass the limiter, whatever the other clients do and
  wherever the tasks wait in between. (Off such a grid a rounded refill can admit a request
  just before its token is full, so the bound is not claimed there.)
\<close>

theorem rate_limit_in_process:
  assumes "role_limited (w_role w)" "bops (limiter (svc p)) = bucket_mem_ops"
    and "bk_rps (bstore (limiter (svc p))) = Fin (of_int r)" "bk_burst (bstore (limiter (svc p))) = Fin b" "0 \<le> r"
    and "q \<le> 1074" "on_grid q (2 * b)" "on_grid q b"
    and "grid_account q b t (map_of (buckets (bstore (limiter (svc p)))) key)"
    and "concat (map clock_of es) = map Fin ts" "list_all (on_grid q) ts" "sorted (t # ts)" "\<forall>u \<in> set ts. u \<le> T" "t \<le> T"
  shows "of_nat (passed w key es p) \<le> b + of_int r * (T - t)"
proof -
  let ?s = "bstore (limiter (svc p))"
  obtain us where us: "filter (\<lambda>(k, t). k = key) (limit_trace w es p) = map (\<lambda>t. (key, Fin t)) us" "subseq us ts"
    using own_times [OF assms(10)] .
  have n: "passed w key es p = admitted key (map (\<lambda>t. (key, Fin t)) us) ?s"
    using passed_admitted [OF assms(1,2), of key es] admitted_filter [of key "limit_trace w es p" ?s] us(1) by simp
  have sub: "set us \<subseteq> set ts" "sorted us" using us(2) assms(12) by (auto intro: subseq_sorted dest: list_emb_set)
  show ?thesis
  proof (cases us)
    case Nil
    have "0 \<le> b" "0 \<le> of_int r * (T - t)" using assms(5,8,14) by (auto simp: on_grid_def)
    then show ?thesis using n Nil by simp
  next
    case (Cons u us')
    have u: "t \<le> u" "u \<le> T" using sub(1) assms(12,13) Cons by auto
    have "grid_account q b u (map_of (buckets ?s) key)"
      using assms(9) u(1) by (auto simp: grid_account_def split: option.splits)
    then have "of_nat (admitted key (map (\<lambda>t. (key, Fin t)) us) ?s) \<le> b + of_int r * (T - u)"
      unfolding Cons using sub assms(11,13) Cons
      by (intro admitted_bound [OF assms(3-8)]) (auto simp: list_all_iff)
    also have "\<dots> \<le> b + of_int r * (T - t)" using u(1) assms(5) by (simp add: mult_left_mono)
    finally show ?thesis using n by simp
  qed
qed

theorem rate_limit_in_process_witness:
  "of_nat (passed demo_world ''10.0.0.1''
      [demo_arrival, demo_arrival, Resume 0 (Fin 100) (Fin 7) ''9c'', Resume 1 (Fin 101) (Fin 7) ''9c'',
       Resume 0 (Fin 102) (Fin 7) ''9c'', Cancel 0 (Fin 102) (Fin 8), Resume 1 (Fin 103) (Fin 7) ''9c'']
      (start_process API demo_service)) \<le> (50 :: rat)"
  using rate_limit_in_process [of demo_world "start_process API demo_service" 10 20 0 100 "''10.0.0.1''"
      "[demo_arrival, demo_arrival, Resume 0 (Fin 100) (Fin 7) ''9c'', Resume 1 (Fin 101) (Fin 7) ''9c'',
       Resume 0 (Fin 102) (Fin 7) ''9c'', Cancel 0 (Fin 102) (Fin 8), Resume 1 (Fin 103) (Fin 7) ''9c'']"
      "[100, 101, 102, 103]" 103]
  by (simp add: on_grid_0 demo_world_def start_process_def demo_service_def new_limiter_def bucket_mem_new_def grid_account_def demo_arrival_def
      del: passed.simps)

end
