(* ===== verification/ProcessJobs.thy ===== *)
theory ProcessJobs
  imports ProcessProperties
begin

text \<open>
  The job loop of the worker inside its process: its steps are the job of the sequential model, whatever
  requests, chaos control and background tasks run in its sleeps; its metrics are an exact account of
  the jobs; and it goes on until it is cancelled.
\<close>

section \<open>The account of jobs\<close>

fun is_duration :: "metric_call \<Rightarrow> bool" where
  "is_duration (Observe n l v) = (n = ''worker_job_duration_seconds'')"
| "is_duration c = False"

definition jobs_accounted :: "process \<Rightarrow> bool" where
  "jobs_accounted p \<longleftrightarrow>
     (\<forall>s. count_calls (CounterInc ''worker_jobs_processed_total'' [(''status'', s)]) (metric_calls worker_metrics (svc p)) =
        count_list (finished p) s) \<and>
     length (filter is_duration (metric_calls worker_metrics (svc p))) = length (finished p) \<and>
     set (finished p) \<subseteq> {''success'', ''failed''}"

definition job_alive :: "role \<Rightarrow> process \<Rightarrow> bool" where
  "job_alive role p \<longleftrightarrow>
     (if role = WORKER then job p \<noteq> No_job else job p = No_job \<and> finished p = []) \<and> (\<forall>x. job p = Job_over x \<longrightarrow> x = CancelledError)"

text \<open>A step of the loop ends at most one job, and counts it.\<close>

lemma finish_at_calls:
  "metric_calls worker_metrics (finish_at start tick st sv) = metric_calls worker_metrics sv @
     [Observe ''worker_job_duration_seconds'' [] (tick - start), CounterInc ''worker_jobs_processed_total'' [(''status'', st)]]"
  by (simp add: finish_at_def worker_metrics_def)

lemma metric_calls_upd [simp]:
  "metric_calls ns (sv\<lparr>chaos := c\<rparr>) = metric_calls ns sv"
  "metric_calls ns (sv\<lparr>chaos := c, plat := record_event a b d (plat sv)\<rparr>) = metric_calls ns sv"
  by (simp_all add: metric_calls_def)

lemma job_decide_cases:
  assumes "job_decide start tick sv = (c, st, sv')"
  obtains (failed) "c = Job_pausing" "st = [''failed'']"
      "metric_calls worker_metrics sv' = metric_calls worker_metrics sv @
        [Observe ''worker_job_duration_seconds'' [] (tick - start), CounterInc ''worker_jobs_processed_total'' [(''status'', ''failed'')]]"
  | (works) "c = Job_working start" "st = []" "metric_calls worker_metrics sv' = metric_calls worker_metrics sv"
  using assms by (auto simp: job_decide_def finish_at_calls Let_def split: prod.splits if_splits)

lemma job_cases:
  assumes "job_move now tick c0 sv = (c, st, sv') \<or> job_cancel tick c0 sv = (c, st, sv')"
  obtains (one) start s where "st = [s]" "s \<in> {''success'', ''failed''}"
      "metric_calls worker_metrics sv' = metric_calls worker_metrics sv @
        [Observe ''worker_job_duration_seconds'' [] (tick - start), CounterInc ''worker_jobs_processed_total'' [(''status'', s)]]"
  | (none) "st = []" "metric_calls worker_metrics sv' = metric_calls worker_metrics sv"
proof -
  have d: thesis if "job_decide start tick sv = (c, st, sv')" for start
    using that by (cases rule: job_decide_cases) (use one [of "''failed''" start] none in auto)
  have f: thesis if "st = [''success'']" "sv' = finish_at start tick ''success'' sv" for start
    using that one [of "''success''" start] by (simp add: finish_at_calls)
  show thesis using assms d f none by (cases c0) (auto split: if_splits)
qed

lemma conclude_job_calls [simp]: "metric_calls worker_metrics (snd (conclude tick req' fl r sv)) = metric_calls worker_metrics sv"
  by (cases r) (simp_all add: conclude_def finish_request_def worker_metrics_def Let_def)

lemma jobs_accounted_exec:
  assumes "jobs_accounted p" "\<forall>(k, fl) \<in> set (flights p). flight_ok (w_role w) fl"
  shows "jobs_accounted (pexec w ev p)"
proof -
  have other: "jobs_accounted q" if "metric_calls worker_metrics (svc q) = metric_calls worker_metrics (svc p)" "finished q = finished p" for q
    using that assms(1) by (simp add: jobs_accounted_def)
  show ?thesis
  proof (cases rule: pexec_cases [where w = w and ev = ev and p = p])
    case same
    show ?thesis using same(5,7) other jobs.untouched_task by (auto simp: metric_calls_def)
  next
    case (work now tick c st sv)
    from work(2) show ?thesis
    proof (cases rule: job_cases)
      case (one start s)
      then show ?thesis using assms(1) work(3) by (auto simp: jobs_accounted_def)
    next
      case none
      then show ?thesis using other work(3) by simp
    qed
  next
    case (arrive req e fresh t)
    then show ?thesis by (intro other) (simp_all add: worker_metrics_def)
  next
    case (suspend k now tick uuid fl c sv)
    then show ?thesis
      using jobs.kept.keeps_segment [OF refl refl map_of_ball [OF suspend(2) assms(2)] suspend(3)] by (intro other) simp_all
  next
    case (finish k now tick uuid fl req' r sv)
    then show ?thesis
      using jobs.kept.keeps_segment [OF refl refl map_of_ball [OF finish(2) assms(2)] finish(3)]
      by (intro other) (simp_all add: end_flight_sel)
  next
    case (cancel k now tick fl req' sv)
    then show ?thesis by (intro other) (auto simp: end_flight_sel)
  qed
qed

lemma job_alive_exec:
  assumes "job_alive role p"
  shows "job_alive role (pexec w ev p)"
proof (cases rule: pexec_cases [where w = w and ev = ev and p = p])
  case (work now tick c st sv)
  have d: "c = Job_pausing \<or> c = Job_working start" if "job_decide start tick v = (c, st, v')" for start v v'
    using that by (cases rule: job_decide_cases) auto
  show ?thesis using assms work(2,3) by (cases "job p") (auto simp: job_alive_def dest!: d split: if_splits)
qed (use assms in \<open>simp_all add: job_alive_def end_flight_sel\<close>)

lemma reachable_jobs: "preach w p \<Longrightarrow> jobs_accounted p \<and> job_alive (w_role w) p"
proof (induction rule: preach.induct)
  case (started p0 p)
  have "metric_calls worker_metrics (svc p) = [] \<and> finished p = [] \<and> job p = (if w_role w = WORKER then Job_due else No_job)"
    using started(1)
  proof (rule serving_process_cases)
    fix reg p1 c p2 l
    assume m: "module_breakers (role_guard (w_role w)) p0 = (reg, p1)" and c: "new_controller (role_name (w_role w)) p1 = (c, p2)"
      and p: "p = start_process (w_role w) \<lparr>plat = emit [GaugeSet ''service_up'' [] 1] p2, breakers = reg,
       chaos = c, limiter = l, request_id_var = ''-'', correlation_id_var = ''-''\<rparr>"
    have "filter (\<lambda>c. metric_name c \<in> set worker_metrics) (calls p1) = []"
      using m started(2) by (cases "w_role w") (auto simp: new_breaker_def worker_metrics_def Let_def)
    then show ?thesis using c by (auto simp: p start_process_def new_controller_def metric_calls_def worker_metrics_def)
  qed
  then show ?case by (simp add: jobs_accounted_def job_alive_def)
next
  case (stepped p ev hx)
  then show ?case
    using jobs_accounted_exec [of p "w\<lparr>w_httpx := hx\<rparr>" ev] reachable_payloads [OF stepped.hyps(1)]
      job_alive_exec [of "w_role w" p "w\<lparr>w_httpx := hx\<rparr>" ev] by simp
qed

text \<open>
  C12. The job metrics are an exact account of the worker's loop, under every interleaving with requests,
  chaos control and background tasks: the counter of each status has counted the jobs that ended with
  it, each job has one observation of its duration, and the only statuses are success and failed. The
  loop is over only when it was cancelled, and the other services have none.
\<close>

theorem jobs_account_exact:
  assumes "preach w p"
  shows "count_calls (CounterInc ''worker_jobs_processed_total'' [(''status'', s)]) (calls (plat (svc p))) = count_list (finished p) s \<and>
    length (filter is_duration (calls (plat (svc p)))) = length (finished p) \<and> set (finished p) \<subseteq> {''success'', ''failed''} \<and>
    (if w_role w = WORKER then job p \<noteq> No_job else job p = No_job \<and> finished p = []) \<and>
    (\<forall>x. job p = Job_over x \<longrightarrow> x = CancelledError)"
proof -
  have "filter is_duration (calls (plat sv)) = filter is_duration (metric_calls worker_metrics sv)" for sv
    unfolding metric_calls_def filter_filter by (rule filter_cong) (auto simp: worker_metrics_def elim!: is_duration.elims)
  then show ?thesis
    using reachable_jobs [OF assms] by (simp add: jobs_accounted_def job_alive_def count_metric_calls [where ns = worker_metrics] worker_metrics_def)
qed

section \<open>A job on its own\<close>

text \<open>
  One job as the process runs it, cancelled in a sleep or not: \<open>m1\<close> is what happens during the latency of chaos and
  \<open>m2\<close> during the work.
\<close>

fun is_job_event :: "pevent \<Rightarrow> bool" where
  "is_job_event (Job_step now tick) = True"
| "is_job_event (Job_cancel tick) = True"
| "is_job_event ev = False"

definition run_job :: "'r world \<Rightarrow> cancel_point \<Rightarrow> pyfloat \<Rightarrow> pyfloat \<Rightarrow> pevent list \<Rightarrow> pevent list \<Rightarrow> process \<Rightarrow> process" where
  "run_job w c t0 t1 m1 m2 p =
     (let p1 = pexec w (Job_step t0 t1) p;
          p2 = (case job p1 of
                  Job_latency _ \<Rightarrow> pexec w (if c = In_latency then Job_cancel t1 else Job_step t0 t1) (prun w m1 p1)
                | _ \<Rightarrow> p1)
      in case job p2 of
           Job_working _ \<Rightarrow> pexec w (if c = In_work then Job_cancel t1 else Job_step t0 t1) (prun w m2 p2)
         | _ \<Rightarrow> p2)"

lemma job_kept: "\<not> is_job_event ev \<Longrightarrow> job (pexec w ev p) = job p \<and> finished (pexec w ev p) = finished p"
  by (cases rule: pexec_cases [where w = w and ev = ev and p = p]) (auto simp: end_flight_sel)

lemma job_kept_run: "list_all (\<lambda>ev. \<not> is_job_event ev) es \<Longrightarrow> job (prun w es p) = job p \<and> finished (prun w es p) = finished p"
  unfolding prun_def by (induction es arbitrary: p) (simp_all add: job_kept)

text \<open>\<open>_process_job\<close> from the error decision on, and the process from there on.\<close>

definition job_half :: "job_run \<Rightarrow> service \<Rightarrow> string result \<times> service" where
  "job_half j sv =
     (let (inject, s) = should_inject_error (cstate (chaos sv));
          sv2 = sv\<lparr>chaos := (chaos sv)\<lparr>cstate := s\<rparr>\<rparr>
      in if inject then
           (Inr ''failed'',
            finish_job j ''failed''
              (sv2\<lparr>plat := record_event Source_WORKER ''job_failed'' [(''service'', JStr ''worker'')] (plat sv2)\<rparr>))
         else if cancelled j = In_work then (Inl CancelledError, finish_job j ''success'' (during_work j sv2))
         else (Inr ''success'', finish_job j ''success'' (during_work j sv2)))"

lemma process_job_split:
  "process_job j sv =
     (let slow = (latency_enabled (cstate (chaos sv)) \<and> 0 < latency_seconds (cstate (chaos sv)));
          sv1 = (if slow then during_latency j sv else sv)
      in if slow \<and> cancelled j = In_latency then (Inl CancelledError, finish_job j ''success'' sv1) else job_half j sv1)"
  by (simp add: process_job_def job_half_def Let_def)

definition job_rest :: "'r world \<Rightarrow> cancel_point \<Rightarrow> pyfloat \<Rightarrow> pyfloat \<Rightarrow> pevent list \<Rightarrow> process \<Rightarrow> process" where
  "job_rest w c t0 t1 m2 p =
     (case job p of
        Job_working _ \<Rightarrow> pexec w (if c = In_work then Job_cancel t1 else Job_step t0 t1) (prun w m2 p)
      | _ \<Rightarrow> p)"

lemma job_rest_half:
  assumes "p2 = (case job_decide t0 t1 (svc q) of (cc, st, v) \<Rightarrow> q\<lparr>svc := v, job := cc, finished := finished q @ st\<rparr>)"
    and "list_all (\<lambda>ev. \<not> is_job_event ev) m2"
    and "during_work j = (\<lambda>_. svc (prun w m2 p2))" "started j = t0" "ended j = t1" "cancelled j = c"
  defines "p' \<equiv> job_rest w c t0 t1 m2 p2"
  shows "\<exists>st. job_half j (svc q) = (case job p' of Job_over x \<Rightarrow> Inl x | _ \<Rightarrow> Inr st, svc p') \<and>
    finished p' = finished q @ [st] \<and> (job p' = Job_pausing \<or> job p' = Job_over CancelledError)"
proof -
  obtain inj s where d: "should_inject_error (cstate (chaos (svc q))) = (inj, s)" by force
  have r: "job (prun w m2 p2) = job p2" "finished (prun w m2 p2) = finished p2" using job_kept_run [OF assms(2), of w p2] by simp_all
  show ?thesis
  proof (cases inj)
    case True
    then have p2: "job p2 = Job_pausing" "finished p2 = finished q @ [''failed'']" using assms(1) d by (simp_all add: job_decide_def)
    then show ?thesis
      using True d assms(1,4,5) by (simp add: p'_def job_rest_def job_half_def job_decide_def finish_at_def finish_job_def)
  next
    case False
    then have p2: "job p2 = Job_working t0" "finished p2 = finished q" using assms(1) d by (simp_all add: job_decide_def)
    then show ?thesis
      using False d r assms(3-6) by (simp add: p'_def job_rest_def job_half_def finish_at_def finish_job_def)
  qed
qed

text \<open>
  C13. The steps of a job are \<open>_process_job\<close>: whatever requests and tasks run during its two sleeps, and
  wherever it is cancelled, the job leaves the state of the process and gives the result of the
  sequential model with those sleeps, one status is added to the history, and the loop then pauses or is over.
\<close>

theorem job_steps_are_process_job:
  fixes w :: "'r world" and p :: process and t0 t1 :: pyfloat and c :: cancel_point
  assumes "job p = Job_due" "list_all (\<lambda>ev. \<not> is_job_event ev) m1" "list_all (\<lambda>ev. \<not> is_job_event ev) m2"
  defines "p1 \<equiv> pexec w (Job_step t0 t1) p"
  defines "p2 \<equiv> (case job p1 of Job_latency _ \<Rightarrow> pexec w (Job_step t0 t1) (prun w m1 p1) | _ \<Rightarrow> p1)"
  defines "p' \<equiv> run_job w c t0 t1 m1 m2 p"
  shows "\<exists>st. process_job \<lparr>during_latency = (\<lambda>_. svc (prun w m1 p1)), during_work = (\<lambda>_. svc (prun w m2 p2)),
        started = t0, ended = t1, cancelled = c\<rparr> (svc p) =
      (case job p' of Job_over x \<Rightarrow> Inl x | _ \<Rightarrow> Inr st, svc p') \<and>
    finished p' = finished p @ [st] \<and> (job p' = Job_pausing \<or> job p' = Job_over CancelledError)"
proof -
  let ?slow = "latency_enabled (cstate (chaos (svc p))) \<and> 0 < latency_seconds (cstate (chaos (svc p)))"
  let ?j = "\<lparr>during_latency = (\<lambda>_. svc (prun w m1 p1)), during_work = (\<lambda>_. svc (prun w m2 p2)), started = t0, ended = t1, cancelled = c\<rparr>"
  have run: "p' = job_rest w c t0 t1 m2 (case job p1 of
      Job_latency _ \<Rightarrow> pexec w (if c = In_latency then Job_cancel t1 else Job_step t0 t1) (prun w m1 p1) | _ \<Rightarrow> p1)"
    unfolding p'_def run_job_def job_rest_def p1_def Let_def by (rule refl)
  show ?thesis
  proof (cases ?slow)
    case slow: True
    have p1: "job p1 = Job_latency t0" "finished p1 = finished p" using slow assms(1) by (simp_all add: p1_def)
    let ?q = "prun w m1 p1"
    have q: "job ?q = Job_latency t0" "finished ?q = finished p" using job_kept_run [OF assms(2), of w p1] p1 by simp_all
    show ?thesis
    proof (cases "c = In_latency")
      case True
      then have "p' = pexec w (Job_cancel t1) ?q" using p1(1) q(1) by (simp add: run job_rest_def)
      then show ?thesis using q slow True by (simp add: process_job_split Let_def finish_at_def finish_job_def)
    next
      case False
      have p2: "p2 = pexec w (Job_step t0 t1) ?q" "pexec w (Job_step t0 t1) ?q = (case job_decide t0 t1 (svc ?q) of (cc, st, v) \<Rightarrow>
          ?q\<lparr>svc := v, job := cc, finished := finished ?q @ st\<rparr>)" using p1(1) q(1) by (simp_all add: p2_def)
      have "p' = job_rest w c t0 t1 m2 p2" using p1(1) False p2(1) by (simp add: run del: pexec.simps)
      moreover have "process_job ?j (svc p) = job_half ?j (svc ?q)" using slow False by (simp add: process_job_split Let_def)
      ultimately show ?thesis
        using job_rest_half [OF trans [OF p2] assms(3), where j = ?j and w = w and c = c] q(2) by simp
    qed
  next
    case False
    have p1: "p1 = (case job_decide t0 t1 (svc p) of (cc, st, v) \<Rightarrow> p\<lparr>svc := v, job := cc, finished := finished p @ st\<rparr>)"
      using False assms(1) by (auto simp: p1_def)
    have "job p1 \<noteq> Job_latency x" for x
      unfolding p1 by (cases "job_decide t0 t1 (svc p)" rule: prod_cases3) (auto elim: job_decide_cases)
    then have p2: "p2 = p1" "p' = job_rest w c t0 t1 m2 p1"
      by (auto simp: p2_def run split: job_pc.splits)
    moreover have "process_job ?j (svc p) = job_half ?j (svc p)" using False by (auto simp: process_job_split Let_def)
    ultimately show ?thesis using job_rest_half [OF p1 assms(3), where j = ?j and w = w and c = c] by simp
  qed
qed

section \<open>The loop goes on\<close>

text \<open>How many steps the loop has at most to the end of its next job.\<close>

fun job_rank :: "job_pc \<Rightarrow> nat" where
  "job_rank Job_pausing = 4"
| "job_rank Job_due = 3"
| "job_rank (Job_latency start) = 2"
| "job_rank (Job_working start) = 1"
| "job_rank c = 0"

fun is_job_step :: "pevent \<Rightarrow> bool" where
  "is_job_step (Job_step now tick) = True"
| "is_job_step ev = False"

fun is_job_cancel :: "pevent \<Rightarrow> bool" where
  "is_job_cancel (Job_cancel tick) = True"
| "is_job_cancel ev = False"

lemma job_move_progress:
  assumes "job_move now tick c0 sv = (c, st, sv')" "0 < job_rank c0"
  shows "0 < job_rank c" "job_rank c < job_rank c0 + 4 * length st"
proof -
  have d: "0 < job_rank c \<and> job_rank c < 2 + 4 * length st" if "job_decide start tick sv = (c, st, sv')" for start
    using that by (cases rule: job_decide_cases) auto
  show "0 < job_rank c" "job_rank c < job_rank c0 + 4 * length st"
    using assms by (cases c0; auto dest!: d split: if_splits)+
qed

lemma job_progress:
  assumes "0 < job_rank (job p)" "\<not> is_job_cancel ev"
  shows "0 < job_rank (job (pexec w ev p)) \<and>
    job_rank (job (pexec w ev p)) + 4 * length (finished p) + (if is_job_step ev then 1 else 0) \<le>
      job_rank (job p) + 4 * length (finished (pexec w ev p))"
proof (cases "is_job_step ev")
  case True
  then obtain now tick where ev: "ev = Job_step now tick" by (cases ev) auto
  obtain c st sv where m: "job_move now tick (job p) (svc p) = (c, st, sv)" by (metis prod_cases3)
  then show ?thesis using job_move_progress [OF m assms(1)] ev by simp
next
  case False
  then have "\<not> is_job_event ev" using assms(2) by (cases ev) auto
  then show ?thesis using job_kept [of ev w p] assms(1) False by simp
qed

text \<open>
  C14. The worker makes progress: unless it is cancelled, four steps of the loop for each of \<open>n\<close> jobs, with any
  other events in between, have ended at least \<open>n\<close> more jobs. No chaos setting and no request stops the loop.
\<close>

theorem jobs_make_progress:
  assumes "0 < job_rank (job p)" "list_all (\<lambda>ev. \<not> is_job_cancel ev) es" "4 * n \<le> length (filter is_job_step es)"
  shows "length (finished p) + n \<le> length (finished (prun w es p)) \<and> 0 < job_rank (job (prun w es p))"
proof -
  have "0 < job_rank (job (prun w es p)) \<and>
    job_rank (job (prun w es p)) + 4 * length (finished p) + length (filter is_job_step es) \<le>
      job_rank (job p) + 4 * length (finished (prun w es p))"
    using assms(1,2)
  proof (induction es arbitrary: p)
    case (Cons ev es)
    let ?p = "pexec w ev p"
    have "prun w (ev # es) p = prun w es ?p" by (simp add: prun_def)
    moreover have "\<not> is_job_cancel ev" using Cons.prems(2) by simp
    note one = job_progress [OF Cons.prems(1) this, of w]
    ultimately show ?case using Cons.IH [of ?p] Cons.prems(2) by (simp split: if_splits)
  qed (simp add: prun_def)
  moreover have "job_rank (job p) \<le> 4" by (cases "job p") simp_all
  ultimately show ?thesis using assms(3) by linarith
qed

section \<open>Examples\<close>

definition demo_worker :: "json result world" where
  "demo_worker = demo_world\<lparr>w_role := WORKER\<rparr>"

definition demo_loop :: process where
  "demo_loop = start_process WORKER demo_service"

theorem jobs_account_exact_witness:
  "\<exists>p. preach demo_worker p \<and> finished p = [''success''] \<and>
    count_calls (CounterInc ''worker_jobs_processed_total'' [(''status'', ''success'')]) (calls (plat (svc p))) = 1"
proof -
  have role: "w_role demo_worker = WORKER" by (simp add: demo_worker_def)
  obtain p0 where p0: "serving_process WORKER (boot new_year) = Inr p0" using serving_boot by blast
  have r: "preach demo_worker p0" by (rule preach.started [of _ "boot new_year"]) (simp_all add: role p0)
  let ?p = "pexec demo_worker (Job_step (Fin 3) (Fin 4)) (pexec demo_worker (Job_step (Fin 1) (Fin 4)) p0)"
  have p: "preach demo_worker ?p" by (intro preach_step r) simp_all
  have "cstate (chaos (svc p0)) = new_chaos_state" "job p0 = Job_due" "finished p0 = []"
    using p0 by (elim serving_process_cases; auto simp: start_process_def new_controller_def)+
  then have "finished ?p = [''success'']"
    by (simp add: job_decide_def new_chaos_state_def should_inject_error_def)
  then show ?thesis using jobs_account_exact [OF p, of "''success''"] p by (intro exI [of _ ?p]) simp
qed

theorem job_steps_are_process_job_witness:
  "finished (run_job demo_worker In_work (Fin 1) (Fin 2) [demo_arrival] [demo_arrival] demo_loop) \<noteq> []"
proof -
  have due: "job demo_loop = Job_due" by (simp add: demo_loop_def start_process_def)
  have m: "list_all (\<lambda>ev. \<not> is_job_event ev) [demo_arrival]" by (simp add: demo_arrival_def)
  show ?thesis using job_steps_are_process_job [OF due m m, of demo_worker "Fin 1" "Fin 2" In_work] by auto
qed

theorem jobs_make_progress_witness:
  "2 \<le> length (finished (prun demo_worker (demo_arrival # replicate 8 (Job_step (Fin 1) (Fin 2))) demo_loop))"
proof -
  let ?es = "demo_arrival # replicate 8 (Job_step (Fin 1) (Fin 2))"
  have r: "0 < job_rank (job demo_loop)" by (simp add: demo_loop_def start_process_def)
  have es: "list_all (\<lambda>ev. \<not> is_job_cancel ev) ?es" "4 * 2 \<le> length (filter is_job_step ?es)"
    by (simp_all add: demo_arrival_def list_all_iff)
  show ?thesis using jobs_make_progress [OF r es, of demo_worker] by simp
qed

end
