(* ===== verification/Cluster.thy ===== *)
theory Cluster
  imports ProcessProperties
begin

text \<open>
  The API and the auth service as two processes that talk over the network. The call of an order to
  \<open>/validate\<close> is a request of the auth process: it arrives there with the headers that the client sends,
  runs interleaved with every other task of both processes, and what auth has served comes back as the
  answer of the client, unless the network loses it or the client times out.
\<close>

section \<open>The call\<close>

text \<open>The headers a downstream service receives: names in lower case, as ASGI delivers them.\<close>

definition delivered :: "string dict \<Rightarrow> (string \<times> string) list" where
  "delivered hs = map (\<lambda>(k, v). (map lower k, v)) hs"

lemma propagation_headers_bound:
  assumes "correlation_id_var sv = cid" "cid \<noteq> []" "cid \<noteq> ''-''"
  shows "merge_headers (propagation_headers sv) [] = [(''X-Correlation-ID'', cid)]"
  using assms by (simp add: merge_headers_def propagation_headers_def)

lemma lower_correlation: "map lower ''X-Correlation-ID'' = ''x-correlation-id''"
  by code_simp

text \<open>The request that \<open>post_json\<close> of a task makes, as auth receives it from the address \<open>peer\<close>, and the endpoint
  that takes it: the payload is validated against \<open>TokenRequest\<close>, and \<open>invalid\<close> is the framework's answer otherwise.\<close>

definition call_request :: "string option \<Rightarrow> flight \<Rightarrow> service \<Rightarrow> request" where
  "call_request peer fl sv =
     \<lparr>req_method = ''POST'', req_path = ''/validate'',
      req_headers = delivered (merge_headers (propagation_headers (in_context fl sv)) []), client_host = peer, route = None\<rparr>"

definition call_endpoint :: "response \<Rightarrow> string \<Rightarrow> endpoint" where
  "call_endpoint invalid t =
     (if token_request_ok \<lparr>token = t\<rparr> then Validate \<lparr>token = t\<rparr> else At_once (By_framework (Inr invalid)))"

text \<open>What comes back over the connection: the server answers 500 for an exception that no handler took, and
  closes the connection on a cancelled request.\<close>

definition reply :: "response result \<Rightarrow> response result" where
  "reply r =
     (case r of
        Inr resp \<Rightarrow> Inr resp
      | Inl x \<Rightarrow>
          if is_Exception x then Inr \<lparr>status_code = 500, body = Text_content ''Internal Server Error'', headers = []\<rparr>
          else Inl (PyException ''RemoteProtocolError'' ''Server disconnected without sending a response.''))"

definition answered :: "response world \<Rightarrow> response result \<Rightarrow> response world" where
  "answered w out = w\<lparr>w_httpx := (\<lambda>now. (w_httpx w now)\<lparr>hx_post := (\<lambda>url hs payload. out)\<rparr>)\<rparr>"

section \<open>The two processes\<close>

text \<open>\<open>links\<close> says which request of auth carries the call of which task of the API.\<close>

record cluster =
  api_p :: process
  auth_p :: process
  links :: "(nat \<times> nat) list"

text \<open>
  \<open>Send\<close>: the call of a waiting task reaches auth. \<open>Return\<close>: the answer of auth reaches the task.
  \<open>Lost\<close>: the network fails or the client times out. Everything else the two processes do on their own; a task
  that waits for auth does not go on by itself.
\<close>

datatype cevent =
    Api pevent
  | Auth pevent
  | Send nat "string option" response string pyfloat
  | Return nat pyfloat pyfloat string
  | Lost nat pyfloat pyfloat string string string

definition waiting_call :: "nat \<Rightarrow> process \<Rightarrow> (flight \<times> string option) option" where
  "waiting_call k p =
     (case map_of (flights p) k of
        Some fl \<Rightarrow> (case fpc fl of Calling order a b \<Rightarrow> Some (fl, a) | _ \<Rightarrow> None)
      | None \<Rightarrow> None)"

fun held :: "pevent \<Rightarrow> process \<Rightarrow> bool" where
  "held (Resume k now tick uuid) p = (waiting_call k p \<noteq> None)"
| "held ev p = False"

fun cexec :: "response world \<Rightarrow> 'q world \<Rightarrow> cevent \<Rightarrow> cluster \<Rightarrow> cluster" where
  "cexec wa wb (Api ev) s = (if held ev (api_p s) then s else s\<lparr>api_p := pexec wa ev (api_p s)\<rparr>)"
| "cexec wa wb (Auth ev) s = s\<lparr>auth_p := pexec wb ev (auth_p s)\<rparr>"
| "cexec wa wb (Send k peer invalid fresh t) s =
     (case waiting_call k (api_p s) of
        Some (fl, a) \<Rightarrow>
          if k \<in> fst ` set (links s) then s
          else s\<lparr>auth_p := pexec wb (Arrive (call_request peer fl (svc (api_p s))) (call_endpoint invalid (bearer_token a)) fresh t) (auth_p s),
                 links := (k, next_id (auth_p s)) # links s\<rparr>
      | None \<Rightarrow> s)"
| "cexec wa wb (Return k now tick uuid) s =
     (case map_of (links s) k of
        Some j \<Rightarrow>
          (case map_of (served (auth_p s)) j of
             Some (fl, req', r) \<Rightarrow> s\<lparr>api_p := pexec (answered wa (reply r)) (Resume k now tick uuid) (api_p s)\<rparr>
           | None \<Rightarrow> s)
      | None \<Rightarrow> s)"
| "cexec wa wb (Lost k now tick uuid cls msg) s =
     s\<lparr>api_p := pexec (answered wa (Inl (PyException cls msg))) (Resume k now tick uuid) (api_p s)\<rparr>"

fun cevent_ok :: "cevent \<Rightarrow> bool" where
  "cevent_ok (Api ev) = event_ok API ev"
| "cevent_ok (Auth ev) = event_ok AUTH ev"
| "cevent_ok (Send k peer invalid fresh t) = (status_code invalid = 422)"
| "cevent_ok ev = True"

inductive creach :: "response world \<Rightarrow> 'q world \<Rightarrow> cluster \<Rightarrow> bool" for wa wb where
  started: "serving_process API p0 = Inr p \<Longrightarrow> serving_process AUTH q0 = Inr q \<Longrightarrow> calls p0 = [] \<Longrightarrow> calls q0 = [] \<Longrightarrow>
     creach wa wb \<lparr>api_p = p, auth_p = q, links = []\<rparr>"
| stepped: "creach wa wb s \<Longrightarrow> cevent_ok ev \<Longrightarrow> creach wa wb (cexec wa wb ev s)"

section \<open>The requests of a process\<close>

text \<open>All requests that ever arrived, in flight or served.\<close>

definition requests :: "process \<Rightarrow> (nat \<times> flight) set" where
  "requests p = set (flights p) \<union> {(k, fl). \<exists>out. (k, fl, out) \<in> set (served p)}"

lemma in_update: "(k, v) \<in> set (AList.update k' v' xs) \<Longrightarrow> (k, v) = (k', v') \<or> (k, v) \<in> set xs"
  by (induction xs) (auto split: if_splits)

lemma in_delete: "(k, v) \<in> set (AList.delete k' xs) \<Longrightarrow> (k, v) \<in> set xs"
  by (simp add: AList.delete_eq)

lemma requests_id: "ids_ok p \<Longrightarrow> (k, fl) \<in> requests p \<Longrightarrow> k < next_id p"
  by (force simp: requests_def ids_ok_def)

lemma requests_unique:
  assumes "ids_ok p" "map_of (flights p) k = Some fl" "(k, fl') \<in> requests p"
  shows "fl' = fl"
proof -
  have fl: "(k, fl) \<in> set (flights p)" using assms(2) by (rule map_of_SomeD)
  have d: "distinct (map fst (flights p))" "fst ` set (flights p) \<inter> fst ` set (served p) = {}" using assms(1) by (auto simp: ids_ok_def)
  then have "(k, fl', out) \<notin> set (served p)" for out using fl by force
  then have "(k, fl') \<in> set (flights p)" using assms(3) by (auto simp: requests_def)
  then show ?thesis using d(1) assms(2) by simp
qed

text \<open>A step may move a request and end it; the only new one has the next number.\<close>

lemma requests_step:
  assumes "(k, fl') \<in> requests (pexec w ev p)"
  obtains (old) "(k, fl') \<in> requests p"
  | (new) req e fresh t where "ev = Arrive req e fresh t" "k = next_id p" "fl' = new_flight req e fresh t"
  | (moved) now tick uuid fl c sv where "ev = Resume k now tick uuid" "map_of (flights p) k = Some fl" "fl' = fl\<lparr>fpc := c\<rparr>"
      "segment w now uuid fl (in_context fl (svc p)) = (Next c, sv)"
proof (cases rule: pexec_cases [where w = w and ev = ev and p = p])
  case same
  then show thesis using assms old by (simp add: requests_def)
next
  case (work now tick c st sv)
  then show thesis using assms old by (simp add: requests_def)
next
  case (arrive req e fresh t)
  then show thesis using assms old new by (auto simp: requests_def)
next
  case (suspend j now tick uuid fl c sv)
  then show thesis using assms old moved by (auto simp: requests_def dest!: in_update)
next
  case (finish j now tick uuid fl req' r sv)
  have "(j, fl) \<in> set (flights p)" using finish(2) by (rule map_of_SomeD)
  then show thesis using assms old finish(4) by (auto simp: requests_def end_flight_sel dest!: in_delete)
next
  case (cancel j now tick fl req' sv)
  have "(j, fl) \<in> set (flights p)" using cancel(2) by (rule map_of_SomeD)
  then show thesis using assms old cancel(5) by (auto simp: requests_def end_flight_sel dest!: in_delete)
qed

section \<open>Orders and their validation\<close>

text \<open>The tasks of an order: they call, and create, for their own order.\<close>

fun pc_own :: "endpoint \<Rightarrow> pc \<Rightarrow> bool" where
  "pc_own e (Calling order a b) = (e = Create_order order a)"
| "pc_own e (Creating j) = (\<exists>order a. e = Create_order order a)"
| "pc_own e (Validating tr b) = (e = Validate tr)"
| "pc_own e c = True"

lemma pc_own_segment:
  assumes "segment w now uuid fl sv = (Next c, sv')" "pc_own (fend fl) (fpc fl)"
  shows "pc_own (fend fl) c"
  using assms(1)
proof (cases rule: segment_cases)
  case (decide sv0)
  show ?thesis by (rule decide_step_cases [of "freq fl" sv0]) (use decide in auto)
next
  case (enter n cfg r)
  then show ?thesis by (cases "fend fl") (auto split: sum.splits)
qed (use assms(2) in \<open>auto split: option.splits sum.splits\<close>)

lemma reachable_own:
  assumes "preach w p" "(k, fl) \<in> requests p"
  shows "pc_own (fend fl) (fpc fl)"
proof -
  have "(\<forall>(k, fl) \<in> set (flights p). pc_own (fend fl) (fpc fl)) \<and> (\<forall>(k, fl, out) \<in> set (served p). pc_own (fend fl) (fpc fl))"
    by (rule reachable_flights [OF assms(1)]) (simp add: new_flight_def Let_def, simp add: pc_own_segment)
  then show ?thesis using assms(2) by (auto simp: requests_def)
qed

text \<open>The request of auth that carries the call of an order: same token, same correlation id.\<close>

definition carries :: "flight \<Rightarrow> flight \<Rightarrow> bool" where
  "carries fl fl2 \<longleftrightarrow>
     (\<exists>order a invalid. fend fl = Create_order order a \<and> status_code invalid = 422 \<and> fend fl2 = call_endpoint invalid (bearer_token a)) \<and>
     (fcid fl \<noteq> [] \<and> fcid fl \<noteq> ''-'' \<longrightarrow> fcid fl2 = fcid fl)"

lemma carries_call:
  assumes "fend fl = Create_order order a" "status_code invalid = 422"
  shows "carries fl (new_flight (call_request peer fl sv) (call_endpoint invalid (bearer_token a)) fresh t)"
proof -
  have "header_or (call_request peer fl sv) ''x-correlation-id'' rid = fcid fl" if "fcid fl \<noteq> []" "fcid fl \<noteq> ''-''" for rid
    using that propagation_headers_bound [of "in_context fl sv"] lower_correlation
    by (simp add: call_request_def header_or_def delivered_def str_or_def)
  then show ?thesis using assms by (auto simp: carries_def new_flight_def Let_def)
qed

definition links_ok :: "cluster \<Rightarrow> bool" where
  "links_ok s \<longleftrightarrow> distinct (map fst (links s)) \<and> distinct (map snd (links s)) \<and>
     (\<forall>(k, j) \<in> set (links s). k < next_id (api_p s) \<and> j < next_id (auth_p s) \<and>
        (\<forall>fl fl2. (k, fl) \<in> requests (api_p s) \<and> (j, fl2) \<in> requests (auth_p s) \<longrightarrow> carries fl fl2))"

lemma next_id_grows: "next_id p \<le> next_id (pexec w ev p)"
  by (cases rule: pexec_cases [where w = w and ev = ev and p = p]) (simp_all add: end_flight_sel)

lemma requests_kept:
  assumes "(k, fl') \<in> requests (pexec w ev p)" "k < next_id p"
  shows "\<exists>fl c. (k, fl) \<in> requests p \<and> fl' = fl\<lparr>fpc := c\<rparr>"
  using assms(1)
proof (cases rule: requests_step)
  case old
  then show ?thesis by (intro exI [of _ fl'] exI [of _ "fpc fl'"]) simp
next
  case (moved now tick uuid fl c sv)
  then show ?thesis by (auto simp: requests_def dest: map_of_SomeD)
qed (use assms(2) in simp)

lemma links_ok_step:
  assumes "links_ok s" "links s' = links s" "api_p s' = api_p s \<or> api_p s' = pexec w ev (api_p s)"
    and "auth_p s' = auth_p s \<or> auth_p s' = pexec w2 ev2 (auth_p s)"
  shows "links_ok s'"
proof -
  have api: "next_id (api_p s) \<le> next_id (api_p s') \<and>
      (\<forall>k fl'. (k, fl') \<in> requests (api_p s') \<and> k < next_id (api_p s) \<longrightarrow> (\<exists>fl c. (k, fl) \<in> requests (api_p s) \<and> fl' = fl\<lparr>fpc := c\<rparr>))"
    using assms(3) next_id_grows [of "api_p s" w ev] requests_kept [of _ _ w ev "api_p s"]
    by (metis flight.surjective flight.update_convs(6) order_refl)
  have auth: "next_id (auth_p s) \<le> next_id (auth_p s') \<and>
      (\<forall>k fl'. (k, fl') \<in> requests (auth_p s') \<and> k < next_id (auth_p s) \<longrightarrow> (\<exists>fl c. (k, fl) \<in> requests (auth_p s) \<and> fl' = fl\<lparr>fpc := c\<rparr>))"
    using assms(4) next_id_grows [of "auth_p s" w2 ev2] requests_kept [of _ _ w2 ev2 "auth_p s"]
    by (metis flight.surjective flight.update_convs(6) order_refl)
  have pc: "carries (fl\<lparr>fpc := c\<rparr>) (fl2\<lparr>fpc := c2\<rparr>) = carries fl fl2" for fl c fl2 c2 by (simp add: carries_def)
  have "k < next_id (api_p s') \<and> j < next_id (auth_p s') \<and>
      (\<forall>fl fl2. (k, fl) \<in> requests (api_p s') \<and> (j, fl2) \<in> requests (auth_p s') \<longrightarrow> carries fl fl2)" if "(k, j) \<in> set (links s)" for k j
  proof -
    have old: "k < next_id (api_p s)" "j < next_id (auth_p s)"
      "\<And>fl fl2. (k, fl) \<in> requests (api_p s) \<Longrightarrow> (j, fl2) \<in> requests (auth_p s) \<Longrightarrow> carries fl fl2"
      using assms(1) that by (auto simp: links_ok_def)
    show ?thesis using old(1,2) api auth old(3) pc by (metis order_less_le_trans)
  qed
  then show ?thesis using assms(1,2) by (auto simp: links_ok_def)
qed

text \<open>
  What the libraries document: \<open>raise_for_status\<close> raises unless the status is 2xx and \<open>json\<close> decodes the body; the
  framework answers 200 with what an endpoint returns and leaves exceptions that are not its own to the handlers.
\<close>

definition library_ok :: "response httpx \<Rightarrow> bool" where
  "library_ok hx \<longleftrightarrow>
     raises_unless_2xx status_code hx \<and>
     (\<forall>resp j. body resp = Json_content j \<longrightarrow> hx_json hx resp = Inr j)"

definition framework_ok :: "'r world \<Rightarrow> bool" where
  "framework_ok w \<longleftrightarrow>
     (\<forall>j. w_render w (Inr j) = Inr (JSONResponse 200 j [])) \<and>
     (\<forall>n. w_render w (Inl (CircuitBreakerOpenError n)) = Inl (CircuitBreakerOpenError n))"

text \<open>A good answer of auth to a call is that of \<open>validate\<close>: everything that keeps a call from the endpoint answers with an error.\<close>

lemma limit_step_status: "limit_step now req sv = (Some (Inr resp), sv') \<Longrightarrow> status_code resp = 429"
  by (auto simp: limit_step_def Let_def split: prod.splits sum.splits if_splits)

lemma segment_answer:
  assumes seg: "segment w now uuid fl sv = (Done req' (Inr resp), sv')" and fw: "framework_ok w"
    and call: "fend fl = call_endpoint invalid t" "status_code invalid = 422" and own: "pc_own (fend fl) (fpc fl)"
    and good: "status_code resp < 400"
  shows "fend fl = Validate \<lparr>token = t\<rparr> \<and>
    resp = JSONResponse 200 (JObj [(''valid'', JBool (t \<notin> set INVALID_TOKENS)), (''token'', JStr t)]) []"
  using seg
proof (cases rule: segment_cases)
  case (decide sv0)
  then show ?thesis using decide_step_done [of "freq fl" sv0] good by (auto simp: injected_error_def)
next
  case (limit r)
  then show ?thesis using limit_step_status [of now "freq fl" sv resp sv'] good by (auto split: option.splits if_splits)
next
  case (at_once h r)
  then show ?thesis using call good by (auto simp: call_endpoint_def handled_def split: if_splits)
next
  case (enter n cfg r)
  then obtain x where x: "r = Inl x" "Inr resp = handled (w_render w (Inl x))" by (cases r) auto
  then obtain m where "x = CircuitBreakerOpenError m" using enter_step_rejects enter(3) by blast
  then show ?thesis using x fw good by (simp add: framework_ok_def handled_def circuit_breaker_open_handler_def)
next
  case (answer order a b r)
  then show ?thesis using own call by (auto simp: call_endpoint_def split: if_splits)
next
  case (created j)
  then show ?thesis using own call by (auto simp: call_endpoint_def split: if_splits)
next
  case (validated tr b valid)
  then show ?thesis using own call fw by (auto simp: call_endpoint_def framework_ok_def handled_def split: if_splits)
qed simp

lemma auth_answers:
  assumes "preach w p" "framework_ok w" "(j, fl, req', Inr resp) \<in> set (served p)"
    and "fend fl = call_endpoint invalid t" "status_code invalid = 422" "status_code resp < 400"
  shows "fend fl = Validate \<lparr>token = t\<rparr> \<and> status_code resp = 200 \<and>
    body resp = Json_content (JObj [(''valid'', JBool (t \<notin> set INVALID_TOKENS)), (''token'', JStr t)])"
  using assms(1,3)
proof (induction rule: preach.induct)
  case (started p0 p)
  then show ?case using serving_process_empty by fastforce
next
  case (stepped p ev hx)
  let ?w = "w\<lparr>w_httpx := hx\<rparr>"
  have new: ?case if "map_of (flights p) j = Some fl" "segment ?w now uuid fl sv = (Done req' (Inr resp0), sv')"
      "resp = append_headers hs resp0" for now uuid sv resp0 sv' hs
  proof -
    have "pc_own (fend fl) (fpc fl)"
      using reachable_own [OF stepped.hyps(1), of j fl] map_of_SomeD [OF that(1)] by (simp add: requests_def)
    moreover have "framework_ok ?w" "status_code resp0 < 400" using assms(2,6) that(3) by (simp_all add: framework_ok_def append_headers_def)
    ultimately show ?case using segment_answer [OF that(2) _ assms(4,5)] that(3) by (simp add: append_headers_def)
  qed
  show ?case
  proof (cases rule: pexec_cases [where w = ?w and ev = ev and p = p])
    case (finish k now tick uuid fl0 req0 r sv)
    show ?thesis
    proof (cases "(j, fl, req', Inr resp) \<in> set (served p)")
      case False
      then have "k = j" "fl0 = fl" "req0 = req'" "Inr resp = map_sum id (append_headers (response_headers fl)) r"
        using stepped.prems finish(4) by (auto simp: end_flight_sel)
      then show ?thesis using new finish(2,3) by (cases r) auto
    qed (rule stepped.IH)
  next
    case (cancel k now tick fl0 req0 sv)
    then show ?thesis using stepped by (auto simp: end_flight_sel)
  qed (use stepped in simp_all)
qed

lemma links_ok_api: "links_ok s \<Longrightarrow> links_ok (s\<lparr>api_p := pexec w ev (api_p s)\<rparr>)"
  by (erule links_ok_step) auto

lemma links_ok_auth: "links_ok s \<Longrightarrow> links_ok (s\<lparr>auth_p := pexec w ev (auth_p s)\<rparr>)"
  by (erule links_ok_step) auto

lemma links_ok_send:
  assumes ok: "links_ok s" "ids_ok (api_p s)" "ids_ok (auth_p s)" and k: "k \<notin> fst ` set (links s)"
    and fl: "map_of (flights (api_p s)) k = Some fl" "fend fl = Create_order order a" and inv: "status_code invalid = 422"
  shows "links_ok (s\<lparr>auth_p := pexec w (Arrive (call_request peer fl sv) (call_endpoint invalid (bearer_token a)) fresh t) (auth_p s),
      links := (k, next_id (auth_p s)) # links s\<rparr>)"
proof -
  let ?req = "call_request peer fl sv" and ?e = "call_endpoint invalid (bearer_token a)"
  let ?q = "pexec w (Arrive ?req ?e fresh t) (auth_p s)" and ?j = "next_id (auth_p s)"
  have next_q: "next_id ?q = Suc ?j" by (simp add: call_request_def)
  have "fl2 = new_flight ?req ?e fresh t" if "(?j, fl2) \<in> requests ?q" for fl2
    using that by (cases rule: requests_step) (use requests_id [OF ok(3)] in auto)
  moreover have "fl' = fl" if "(k, fl') \<in> requests (api_p s)" for fl' by (rule requests_unique [OF ok(2) fl(1) that])
  ultimately have new: "carries fl' fl2" if "(k, fl') \<in> requests (api_p s)" "(?j, fl2) \<in> requests ?q" for fl' fl2
    using that carries_call [OF fl(2) inv] by blast
  have "k < next_id (api_p s)" using requests_id [OF ok(2), of k fl] map_of_SomeD [OF fl(1)] by (simp add: requests_def)
  moreover have "?j \<notin> snd ` set (links s)" using ok(1) by (force simp: links_ok_def)
  ultimately show ?thesis using links_ok_auth [OF ok(1), of w "Arrive ?req ?e fresh t"] new k next_q by (auto simp: links_ok_def simp del: pexec.simps)
qed

section \<open>No order without a validation\<close>

definition authorised :: "cluster \<Rightarrow> nat \<Rightarrow> flight \<Rightarrow> json \<Rightarrow> bool" where
  "authorised s k fl created \<longleftrightarrow>
     (\<exists>order a uuid j fl2 req2 resp.
        fend fl = Create_order order a \<and> created = order_response (''order_'' @ take 8 uuid) order \<and>
        (k, j) \<in> set (links s) \<and> (j, fl2, req2, Inr resp) \<in> set (served (auth_p s)) \<and> status_code resp = 200 \<and>
        fend fl2 = Validate \<lparr>token = bearer_token a\<rparr> \<and> bearer_token a \<notin> set INVALID_TOKENS \<and>
        (fcid fl \<noteq> [] \<and> fcid fl \<noteq> ''-'' \<longrightarrow> fcid fl2 = fcid fl))"

lemma authorised_mono:
  "authorised s k fl j \<Longrightarrow> set (links s) \<subseteq> set (links s') \<Longrightarrow> set (served (auth_p s)) \<subseteq> set (served (auth_p s')) \<Longrightarrow> authorised s' k fl j"
  unfolding authorised_def by blast

lemma served_grows: "set (served p) \<subseteq> set (served (pexec w ev p))"
  by (cases rule: pexec_cases [where w = w and ev = ev and p = p]) (auto simp: end_flight_sel)

definition cluster_ok :: "response world \<Rightarrow> 'q world \<Rightarrow> cluster \<Rightarrow> bool" where
  "cluster_ok wa wb s \<longleftrightarrow> preach wa (api_p s) \<and> preach wb (auth_p s) \<and> links_ok s \<and>
     (\<forall>k fl j. (k, fl) \<in> requests (api_p s) \<and> fpc fl = Creating j \<longrightarrow> authorised s k fl j)"

text \<open>An order is created by the step that takes the answer of auth, and by no other.\<close>

lemma created_step:
  assumes "(k, fl') \<in> requests (pexec w ev p)" "fpc fl' = Creating j"
  obtains (old) "(k, fl') \<in> requests p"
  | (now) now tick uuid fl order a b where "ev = Resume k now tick uuid" "map_of (flights p) k = Some fl" "fl' = fl\<lparr>fpc := Creating j\<rparr>"
      "fpc fl = Calling order a b"
      "order_outcome uuid order (fst (auth_post w now ''/validate'' (JObj [(''token'', JStr (bearer_token a))]) (in_context fl (svc p)))) = Inr j"
  using assms(1)
proof (cases rule: requests_step)
  case (new req e fresh t)
  then show thesis using assms(2) by (simp add: new_flight_def Let_def)
next
  case (moved now' tick uuid fl c sv)
  then have seg: "segment w now' uuid fl (in_context fl (svc p)) = (Next (Creating j), sv)" using assms(2) by simp
  then show thesis
  proof (cases rule: segment_cases)
    case (decide sv0)
    show thesis by (rule decide_step_cases [of "freq fl" sv0]) (use decide in auto)
  next
    case (enter n cfg r)
    then show thesis by (cases "fend fl") (auto split: sum.splits)
  next
    case (answer order a b r)
    then show thesis using moved assms(2) by (intro now [of now' tick uuid fl order a b]) (auto split: sum.splits)
  qed (auto split: option.splits)
qed (rule old)

lemma outcome_created:
  assumes "order_outcome uuid order r = Inr j"
  shows "\<exists>kvs. r = Inr (JObj kvs) \<and> truthy (dict_get kvs ''valid'' JNull) \<and> j = order_response (''order_'' @ take 8 uuid) order"
  using assms by (cases "(uuid, order, r)" rule: order_outcome.cases) (auto split: if_splits)

text \<open>Steps after which no order is new: the API takes no answer of auth.\<close>

lemma cluster_ok_quiet:
  assumes "cluster_ok wa wb s" "preach wa (api_p s')" "preach wb (auth_p s')" "links_ok s'" "set (links s) \<subseteq> set (links s')"
    and "set (served (auth_p s)) \<subseteq> set (served (auth_p s'))"
    and "\<And>k fl j. (k, fl) \<in> requests (api_p s') \<Longrightarrow> fpc fl = Creating j \<Longrightarrow> (k, fl) \<in> requests (api_p s)"
  shows "cluster_ok wa wb s'"
  using assms(1-4,7) authorised_mono [OF _ assms(5,6)] unfolding cluster_ok_def by blast

lemma answered_post:
  assumes "library_ok (w_httpx wa now)"
    and "fst (auth_post (answered wa (reply r)) now path payload sv) = Inr (JObj kvs)"
  obtains resp where "r = Inr resp" "status_code resp < 400" "\<forall>j. body resp = Json_content j \<longrightarrow> j = JObj kvs"
proof -
  have raise: "raises_unless_2xx status_code (w_httpx wa now)"
    and json: "\<And>resp j. body resp = Json_content j \<Longrightarrow> hx_json (w_httpx wa now) resp = Inr j"
    using assms(1) by (simp_all add: library_ok_def)
  obtain resp where resp: "reply r = Inr resp" "hx_raise_for_status (w_httpx wa now) resp = Inr ()" "hx_json (w_httpx wa now) resp = Inr (JObj kvs)"
    using assms(2) by (auto simp: auth_post_def answered_def post_json_def finish_call_def split: sum.splits)
  then have ok: "is_2xx (status_code resp)" using raises_unless_2xxD(2) [OF raise, of resp] by auto
  then have "r = Inr resp" using resp(1) by (auto simp: reply_def is_2xx_def split: sum.splits if_splits)
  moreover have "j = JObj kvs" if "body resp = Json_content j" for j using json [OF that] resp(3) by simp
  ultimately show thesis using that [of resp] ok by (auto simp: is_2xx_def)
qed

lemma answered_world: "preach wa p \<Longrightarrow> event_ok (w_role wa) ev \<Longrightarrow> preach wa (pexec (answered wa out) ev p)"
  unfolding answered_def by (rule preach.stepped)

lemma cluster_ok_return:
  fixes now tick :: pyfloat and uuid :: string
  assumes ok: "cluster_ok wa wb s" and lib: "\<And>now. library_ok (w_httpx wa now)" "framework_ok wb"
    and link: "(k, j) \<in> set (links s)" "(j, fl2, req2, r) \<in> set (served (auth_p s))"
  defines "s' \<equiv> s\<lparr>api_p := pexec (answered wa (reply r)) (Resume k now tick uuid) (api_p s)\<rparr>"
  shows "cluster_ok wa wb s'"
proof -
  have parts: "preach wa (api_p s)" "preach wb (auth_p s)" "links_ok s" using ok by (auto simp: cluster_ok_def)
  have "authorised s' k' fl' jn" if req: "(k', fl') \<in> requests (api_p s')" and cr: "fpc fl' = Creating jn" for k' fl' jn
  proof -
    have "(k', fl') \<in> requests (pexec (answered wa (reply r)) (Resume k now tick uuid) (api_p s))" using req by (simp add: s'_def)
    then show ?thesis
      using cr
    proof (cases rule: created_step)
      case old
      then have "authorised s k' fl' jn" using ok cr by (simp add: cluster_ok_def)
      then show ?thesis by (rule authorised_mono) (simp_all add: s'_def)
    next
      case (now now' tick' uuid' fl order a b)
      have k: "k' = k" "now' = now" "uuid' = uuid" using now(1) by simp_all
      have fl: "(k, fl) \<in> requests (api_p s)" using now(2) k by (auto simp: requests_def dest: map_of_SomeD)
      then have e: "fend fl = Create_order order a" using reachable_own [OF parts(1)] now(4) by force
      obtain kvs where out: "fst (auth_post (answered wa (reply r)) now ''/validate'' (JObj [(''token'', JStr (bearer_token a))])
          (in_context fl (svc (api_p s)))) = Inr (JObj kvs)" "truthy (dict_get kvs ''valid'' JNull)"
        "jn = order_response (''order_'' @ take 8 uuid) order"
        using outcome_created [OF now(5)] k by auto
      obtain resp where resp: "r = Inr resp" "status_code resp < 400" "\<forall>j. body resp = Json_content j \<longrightarrow> j = JObj kvs"
        using lib(1) out(1) by (rule answered_post)
      have "(j, fl2) \<in> requests (auth_p s)" using link(2) by (auto simp: requests_def)
      then have c: "carries fl fl2" using parts(3) link(1) fl by (fastforce simp: links_ok_def)
      then obtain invalid where inv: "status_code invalid = 422" "fend fl2 = call_endpoint invalid (bearer_token a)"
        using e by (auto simp: carries_def)
      note ans = auth_answers [OF parts(2) lib(2) link(2) [unfolded resp(1)] inv(2,1) resp(2)]
      have "kvs = [(''valid'', JBool (bearer_token a \<notin> set INVALID_TOKENS)), (''token'', JStr (bearer_token a))]"
        using resp(3) ans by auto
      then have "bearer_token a \<notin> set INVALID_TOKENS" using out(2) by (simp add: dict_get_def split: if_splits)
      then show ?thesis
        using e out(3) link resp(1) ans c k now(3)
        by (auto simp: authorised_def s'_def carries_def)
    qed
  qed
  moreover have "preach wa (api_p s')" using answered_world [OF parts(1)] by (simp add: s'_def del: pexec.simps)
  moreover have "links_ok s'" unfolding s'_def by (rule links_ok_api [OF parts(3)])
  ultimately show ?thesis using parts(2) by (simp add: cluster_ok_def s'_def)
qed

lemma cluster_ok_api:
  assumes ok: "cluster_ok wa wb s" and ev: "event_ok (w_role wa) ev" "\<not> held ev (api_p s)"
  shows "cluster_ok wa wb (s\<lparr>api_p := pexec wa ev (api_p s)\<rparr>)"
proof -
  have parts: "preach wa (api_p s)" "preach wb (auth_p s)" "links_ok s" using ok by (auto simp: cluster_ok_def)
  let ?s = "s\<lparr>api_p := pexec wa ev (api_p s)\<rparr>"
  show ?thesis
  proof (rule cluster_ok_quiet [OF ok])
    show "preach wa (api_p ?s)" using preach_step [OF parts(1) ev(1)] by simp
    show "links_ok ?s" by (rule links_ok_api [OF parts(3)])
    show "(k, fl) \<in> requests (api_p s)" if "(k, fl) \<in> requests (api_p ?s)" "fpc fl = Creating j" for k fl j
      using that(1) [simplified] that(2)
      by (cases rule: created_step) (use ev(2) in \<open>auto simp: waiting_call_def\<close>)
  qed (simp_all add: parts)
qed

lemma cluster_ok_auth:
  assumes ok: "cluster_ok wa wb s" and ev: "event_ok (w_role wb) ev"
    and s': "api_p s' = api_p s" "auth_p s' = pexec wb ev (auth_p s)" "links_ok s'" "set (links s) \<subseteq> set (links s')"
  shows "cluster_ok wa wb s'"
proof (rule cluster_ok_quiet [OF ok])
  show "preach wb (auth_p s')" using preach_step [OF _ ev] ok unfolding s'(2) cluster_ok_def by blast
  show "set (served (auth_p s)) \<subseteq> set (served (auth_p s'))" unfolding s'(2) by (rule served_grows)
qed (use ok s' in \<open>auto simp: cluster_ok_def\<close>)

lemma cluster_ok_send:
  assumes ok: "cluster_ok wa wb s" and role: "w_role wb = AUTH"
    and wait: "waiting_call k (api_p s) = Some (fl, a)" "k \<notin> fst ` set (links s)" and inv: "status_code invalid = 422"
  shows "cluster_ok wa wb (s\<lparr>auth_p := pexec wb (Arrive (call_request peer fl (svc (api_p s))) (call_endpoint invalid (bearer_token a)) fresh t) (auth_p s),
      links := (k, next_id (auth_p s)) # links s\<rparr>)"
proof -
  have parts: "preach wa (api_p s)" "preach wb (auth_p s)" "links_ok s" using ok by (auto simp: cluster_ok_def)
  obtain order b where fl: "map_of (flights (api_p s)) k = Some fl" "fpc fl = Calling order a b"
    using wait(1) by (auto simp: waiting_call_def split: option.splits pc.splits)
  have e: "fend fl = Create_order order a"
    using reachable_own [OF parts(1), of k fl] map_of_SomeD [OF fl(1)] fl(2) by (simp add: requests_def)
  show ?thesis
  proof (rule cluster_ok_auth [OF ok])
    show "event_ok (w_role wb) (Arrive (call_request peer fl (svc (api_p s))) (call_endpoint invalid (bearer_token a)) fresh t)"
      by (simp add: role call_endpoint_def)
    show "links_ok (s\<lparr>auth_p := pexec wb (Arrive (call_request peer fl (svc (api_p s))) (call_endpoint invalid (bearer_token a)) fresh t) (auth_p s),
        links := (k, next_id (auth_p s)) # links s\<rparr>)"
      by (rule links_ok_send [OF parts(3) reachable_ids [OF parts(1)] reachable_ids [OF parts(2)] wait(2) fl(1) e inv])
  qed auto
qed

lemma cluster_ok_lost:
  assumes ok: "cluster_ok wa wb s"
  shows "cluster_ok wa wb (s\<lparr>api_p := pexec (answered wa (Inl (PyException cls msg))) (Resume k now tick uuid) (api_p s)\<rparr>)"
proof -
  have parts: "preach wa (api_p s)" "preach wb (auth_p s)" "links_ok s" using ok by (auto simp: cluster_ok_def)
  let ?p = "pexec (answered wa (Inl (PyException cls msg))) (Resume k now tick uuid) (api_p s)"
  have "(k', fl) \<in> requests (api_p s)" if "(k', fl) \<in> requests ?p" "fpc fl = Creating j" for k' fl j
    using that by (cases rule: created_step) (auto simp: auth_post_def answered_def post_json_def finish_call_def)
  moreover have "preach wa ?p" by (rule answered_world [OF parts(1)]) simp
  ultimately show ?thesis
    using parts links_ok_api [OF parts(3)] by (intro cluster_ok_quiet [OF ok]) (simp_all del: pexec.simps)
qed

lemma cluster_ok_step:
  assumes ok: "cluster_ok wa wb s" "cevent_ok ev" and roles: "w_role wa = API" "w_role wb = AUTH"
    and lib: "\<And>now. library_ok (w_httpx wa now)" "framework_ok wb"
  shows "cluster_ok wa wb (cexec wa wb ev s)"
proof (cases ev)
  case (Api e)
  then show ?thesis using ok cluster_ok_api [OF ok(1), of e] roles(1) by simp
next
  case (Auth e)
  have "links_ok (s\<lparr>auth_p := pexec wb e (auth_p s)\<rparr>)" using ok(1) by (intro links_ok_auth) (simp add: cluster_ok_def)
  then show ?thesis using ok(2) Auth roles(2) by (simp, intro cluster_ok_auth [OF ok(1), of e]) simp_all
next
  case (Send k peer invalid fresh t)
  then show ?thesis
    using ok cluster_ok_send [OF ok(1) roles(2), of k _ _ invalid peer fresh t] by (auto split: option.splits simp del: pexec.simps)
next
  case (Return k now tick uuid)
  then show ?thesis
    using ok(1) cluster_ok_return [OF ok(1) lib map_of_SomeD map_of_SomeD, where now = now and tick = tick and uuid = uuid]
    by (auto split: option.splits simp del: pexec.simps)
next
  case (Lost k now tick uuid cls msg)
  then show ?thesis using cluster_ok_lost [OF ok(1)] by (simp del: pexec.simps)
qed

text \<open>
  C4. No order without a validation (an agreement of the two services). In every reachable state of the
  API and auth processes, whatever requests, failures of the network, timeouts, cancellations and chaos
  are interleaved in both: an order that the API has created, for the requested item, belongs to a
  request that the auth process received for it over the network, whose token is the one its caller
  sent, that auth answered with 200 because the token is not an invalid one, and that ran there under
  the correlation id of the order. Each order has its own validation: no two share one.
\<close>

theorem orders_are_authorised:
  assumes "creach wa wb s" "w_role wa = API" "w_role wb = AUTH" "\<And>now. library_ok (w_httpx wa now)" "framework_ok wb"
    and "(k, fl) \<in> requests (api_p s)" "fpc fl = Creating created"
  shows "authorised s k fl created \<and> distinct (map fst (links s)) \<and> distinct (map snd (links s))"
proof -
  have "cluster_ok wa wb s"
    using assms(1)
  proof (induction rule: creach.induct)
    case (started p0 p q0 q)
    have "preach wa p" "preach wb q" using started assms(2,3) by (auto intro: preach.started)
    moreover have "requests p = {}" using serving_process_empty [OF started(1)] by (simp add: requests_def)
    ultimately show ?case by (simp add: cluster_ok_def links_ok_def)
  next
    case (stepped s ev)
    then show ?case by (intro cluster_ok_step assms(2-5))
  qed
  then show ?thesis using assms(6,7) by (simp add: cluster_ok_def links_ok_def)
qed

section \<open>Example\<close>

definition demo_api :: "response world" where
  "demo_api = \<lparr>w_role = API,
     w_httpx = (\<lambda>now. \<lparr>hx_get = (\<lambda>url hs. Inl os_error), hx_post = (\<lambda>url hs payload. Inl os_error),
        hx_raise_for_status = (\<lambda>resp. if is_2xx (status_code resp)
           then Inr () else Inl (PyException ''HTTPStatusError'' (int_str (status_code resp)))),
        hx_json = (\<lambda>resp. case body resp of Json_content j \<Rightarrow> Inr j | Text_content t \<Rightarrow> Inl os_error)\<rparr>),
     w_client = demo_client, w_render = map_sum id (\<lambda>j. JSONResponse 200 j []), w_route = (\<lambda>req. Some (req_path req))\<rparr>"

definition demo_auth :: "response world" where
  "demo_auth = demo_api\<lparr>w_role := AUTH\<rparr>"

text \<open>An order from its arrival at the API to its creation.\<close>

definition demo_resume :: pevent where
  "demo_resume = Resume 0 (Fin 1) (Fin 9) ''9c''"

definition demo_exchange :: "cevent list" where
  "demo_exchange =
     [Api demo_arrival, Api demo_resume, Api demo_resume, Api demo_resume] @
     (Send 0 None (JSONResponse 422 JNull []) ''7e'' (Fin 2) # replicate 4 (Auth demo_resume)) @
     [Return 0 (Fin 3) (Fin 9) ''0123456789abcdef'']"

text \<open>A service as it starts with the default settings, and one whose breaker is closed.\<close>

definition closed_service :: "role \<Rightarrow> service \<Rightarrow> bool" where
  "closed_service role sv \<longleftrightarrow>
     (\<exists>n cfg b. role_guard role = Some (n, cfg) \<and> breakers sv = [(n, b)] \<and> name b = n \<and> config b = cfg \<and> ops b = in_memory_ops \<and>
        phase_of b = SClosed 0)"

definition fresh_service :: "role \<Rightarrow> service \<Rightarrow> bool" where
  "fresh_service role sv \<longleftrightarrow>
     closed_service role sv \<and> cstate (chaos sv) = new_chaos_state \<and> limiter sv = new_limiter (Fin 10) (Fin 20)"

lemma fresh_context [simp]:
  "fresh_service role (in_context fl sv) = fresh_service role sv" "fresh_service role (out_of_context outer sv) = fresh_service role sv"
  "closed_service role (in_context fl sv) = closed_service role sv" "closed_service role (out_of_context outer sv) = closed_service role sv"
  "fresh_service role (emit_s cs sv) = fresh_service role sv"
  by (simp_all add: fresh_service_def closed_service_def emit_s_def)

lemma fresh_hook:
  assumes "fresh_service role sv" "fpc fl = Hook"
  shows "\<exists>sv'. segment w now uuid fl sv = (Next Limiting, sv') \<and> fresh_service role sv'"
  using assms by (auto simp: segment_def decide_step_def fresh_service_def closed_service_def new_chaos_state_def should_inject_error_def Let_def)

lemma fresh_limit:
  assumes "fresh_service role sv" "fpc fl = Limiting"
  shows "\<exists>sv'. segment w (Fin t) uuid fl sv = (Next Entering, sv') \<and> closed_service role sv'"
proof -
  have lim: "limiter sv = new_limiter (Fin 10) (Fin 20)" using assms(1) by (simp add: fresh_service_def)
  let ?s = "bstore (limiter sv)"
  have av: "available key (Fin t) ?s = Fin 20" for key
    by (rule available_fresh [of _ _ 10]) (simp_all add: lim new_limiter_def bucket_mem_new_def)
  have "fst (limit_step (Fin t) (freq fl) sv) = None \<and> breakers (snd (limit_step (Fin t) (freq fl) sv)) = breakers sv"
  proof (cases "client_key (freq fl)" "Fin t" ?s rule: consume_cases)
    case allow
    then show ?thesis
      using check_mem [of "limiter sv", OF _ allow(2)] by (simp add: lim new_limiter_def limit_step_def Let_def)
  qed (simp add: av)
  then obtain sv' where "limit_step (Fin t) (freq fl) sv = (None, sv')" "breakers sv' = breakers sv" by (metis prod.collapse)
  then show ?thesis
    using assms by (auto simp: segment_def fresh_service_def closed_service_def Let_def)
qed

lemma closed_enter:
  assumes "closed_service role sv" "fpc fl = Entering" "guard_of (fend fl) = role_guard role"
  shows "\<exists>b sv'. segment w now uuid fl sv = (Next (after_entry (fend fl) b), sv')"
proof -
  obtain n cfg b where b: "role_guard role = Some (n, cfg)" "breakers sv = [(n, b)]" "name b = n" "config b = cfg" "ops b = in_memory_ops"
    "phase_of b = SClosed 0" using assms(1) by (auto simp: closed_service_def)
  obtain r b1 p1 where e: "enter now b (plat sv) = (r, b1, p1)" by (metis prod_cases3)
  have "r = Inr ()" using enter_cases [OF b(5) e] b(6) by (simp add: admits_def)
  then have "fst (enter_step n cfg now sv) = Inr b1" using b e by (simp add: enter_step_def get_or_create_def)
  then obtain sv' where "enter_step n cfg now sv = (Inr b1, sv')" by (metis prod.collapse)
  then show ?thesis using assms(2,3) b(1) by (cases "fend fl"; cases role) (auto simp: segment_def Let_def)
qed

lemma serving_fresh:
  assumes "serving_process role (boot new_year) = Inr p" "role \<noteq> WORKER"
  shows "fresh_service role (svc p)"
proof -
  have env: "env (snd (new_breaker n cfg sops s q)) = env q" "env (snd (new_controller srv q)) = env q" for n cfg sops s srv q
    by (simp_all add: new_breaker_def new_controller_def Let_def)
  have lim: "fst (get_limiter None q) = Inr (new_limiter (Fin 10) (Fin 20))" if "env q = Map.empty" for q
    using that default_limits by (simp add: get_limiter_def getenv_def Let_def)
  have ph: "phase_of (fst (new_breaker n cfg in_memory_ops in_memory_new q)) = SClosed 0" "ops (fst (new_breaker n cfg in_memory_ops in_memory_new q)) = in_memory_ops" for n cfg q
    using new_breaker_load [of n cfg q] by (simp_all add: phase_of_def rec_phase_def new_record_def new_breaker_def Let_def)
  have ch: "cstate (fst (new_controller srv q)) = new_chaos_state" for srv q by (simp add: new_controller_def)
  show ?thesis
    using assms
    by (cases role) (auto simp: serving_process_def api_module_def auth_module_def create_service_app_def build_middleware_stack_def
        lifespan_start_def run_hook_def get_or_create_def start_process_def fresh_service_def closed_service_def env lim ph ch
        case_prod_beta Let_def split: sum.splits)
qed

lemma resume_next:
  assumes "flights p = [(k, fl)]" "segment w now uuid fl (in_context fl (svc p)) = (Next c, sv)"
  shows "pexec w (Resume k now tick uuid) p = p\<lparr>svc := out_of_context (svc p) sv, flights := [(k, fl\<lparr>fpc := c\<rparr>)]\<rparr>"
  using assms by simp

text \<open>A request that is alone in a fresh service gets to its guarded call in three steps.\<close>

lemma fresh_to_call:
  assumes "fresh_service role (svc p)" "flights p = [(k, fl)]" "fpc fl = Hook" "guard_of (fend fl) = role_guard role"
  shows "\<exists>b sv1 sv2 sv. let q1 = pexec w (Resume k (Fin t) tick uuid) p; q2 = pexec w (Resume k (Fin t) tick uuid) q1
    in q1 = p\<lparr>svc := sv1, flights := [(k, fl\<lparr>fpc := Limiting\<rparr>)]\<rparr> \<and> q2 = p\<lparr>svc := sv2, flights := [(k, fl\<lparr>fpc := Entering\<rparr>)]\<rparr> \<and>
      pexec w (Resume k (Fin t) tick uuid) q2 = p\<lparr>svc := sv, flights := [(k, fl\<lparr>fpc := after_entry (fend fl) b\<rparr>)]\<rparr>"
proof -
  obtain sv1 where s1: "segment w (Fin t) uuid fl (in_context fl (svc p)) = (Next Limiting, sv1)" "fresh_service role sv1"
    using fresh_hook [of role "in_context fl (svc p)" fl w "Fin t" uuid] assms(1,3) by auto
  let ?p1 = "p\<lparr>svc := out_of_context (svc p) sv1, flights := [(k, fl\<lparr>fpc := Limiting\<rparr>)]\<rparr>" and ?f1 = "fl\<lparr>fpc := Limiting\<rparr>"
  obtain sv2 where s2: "segment w (Fin t) uuid ?f1 (in_context ?f1 (svc ?p1)) = (Next Entering, sv2)" "closed_service role sv2"
    using fresh_limit [of role "in_context ?f1 (svc ?p1)" ?f1 w t uuid] s1(2) by auto
  let ?p2 = "p\<lparr>svc := out_of_context (svc ?p1) sv2, flights := [(k, fl\<lparr>fpc := Entering\<rparr>)]\<rparr>" and ?f2 = "fl\<lparr>fpc := Entering\<rparr>"
  obtain b sv3 where s3: "segment w (Fin t) uuid ?f2 (in_context ?f2 (svc ?p2)) = (Next (after_entry (fend fl) b), sv3)"
    using closed_enter [of role "in_context ?f2 (svc ?p2)" ?f2 w "Fin t" uuid] s2(2) assms(4) by auto
  have 1: "pexec w (Resume k (Fin t) tick uuid) p = ?p1" by (rule resume_next [OF assms(2) s1(1)])
  have 2: "pexec w (Resume k (Fin t) tick uuid) ?p1 = ?p2" using resume_next [OF _ s2(1), of k tick] by simp
  have 3: "pexec w (Resume k (Fin t) tick uuid) ?p2 = p\<lparr>svc := out_of_context (svc ?p2) sv3, flights := [(k, fl\<lparr>fpc := after_entry (fend fl) b\<rparr>)]\<rparr>"
    using resume_next [OF _ s3, of k tick] by simp
  show ?thesis unfolding Let_def 1 2 3 by blast
qed

text \<open>The exchange creates the order: the API gets to the call, auth takes it and serves it, and the API takes the answer.\<close>

definition demo_call :: "breaker \<Rightarrow> flight" where
  "demo_call b = (new_flight (demo_request ''/orders'') (Create_order demo_order None) ''4f2a'' (Fin 5))\<lparr>fpc := Calling demo_order None b\<rparr>"

lemma demo_api_calls:
  assumes "serving_process API (boot new_year) = Inr p"
  shows "\<exists>b p4. flights p4 = [(0, demo_call b)] \<and>
    fold (cexec demo_api wb) [Api demo_arrival, Api demo_resume, Api demo_resume, Api demo_resume] \<lparr>api_p = p, auth_p = q, links = ls\<rparr> =
      \<lparr>api_p = p4, auth_p = q, links = ls\<rparr>"
proof -
  let ?fl = "new_flight (demo_request ''/orders'') (Create_order demo_order None) ''4f2a'' (Fin 5)"
  let ?r = "pexec demo_api demo_resume" and ?p1 = "pexec demo_api demo_arrival p"
  have p1: "flights ?p1 = [(0, ?fl)]" "fresh_service API (svc ?p1)" "fpc ?fl = Hook" "fend ?fl = Create_order demo_order None"
    using serving_process_empty [OF assms] serving_fresh [OF assms]
    by (simp_all add: demo_arrival_def demo_request_def new_flight_def Let_def)
  obtain b sv1 sv2 sv where api: "?r ?p1 = ?p1\<lparr>svc := sv1, flights := [(0, ?fl\<lparr>fpc := Limiting\<rparr>)]\<rparr>"
    "?r (?r ?p1) = ?p1\<lparr>svc := sv2, flights := [(0, ?fl\<lparr>fpc := Entering\<rparr>)]\<rparr>" "?r (?r (?r ?p1)) = ?p1\<lparr>svc := sv, flights := [(0, demo_call b)]\<rparr>"
    using fresh_to_call [OF p1(2,1,3), of demo_api 1 "Fin 9" "''9c''"] p1(4) unfolding demo_resume_def demo_call_def
    by (auto simp: Let_def simp del: pexec.simps)
  have held: "\<not> held demo_resume v" if "flights v = [(0, ?fl\<lparr>fpc := c\<rparr>)]" "\<not> in_call c" for v c
    using that by (cases c) (simp_all add: demo_resume_def waiting_call_def)
  have "\<not> held demo_resume ?p1" by (rule held [of _ Hook]) (use p1 in simp_all)
  moreover have "\<not> held demo_resume (?r ?p1)" unfolding api(1) by (rule held [of _ Limiting]) simp_all
  moreover have "\<not> held demo_resume (?r (?r ?p1))" unfolding api(2) by (rule held [of _ Entering]) simp_all
  moreover have "\<not> held demo_arrival p" by (simp add: demo_arrival_def)
  ultimately show ?thesis
    by (intro exI [of _ b] exI [of _ "?p1\<lparr>svc := sv, flights := [(0, demo_call b)]\<rparr>"]) (simp add: api(3) del: pexec.simps)
qed

definition demo_answer :: json where
  "demo_answer = JObj [(''valid'', JBool True), (''token'', JStr ''demo-token'')]"

lemma demo_auth_serves:
  assumes "serving_process AUTH (boot new_year) = Inr q" "flights p4 = [(0, demo_call b)]"
  shows "\<exists>q5 fl req' hs. map_of (served q5) 0 = Some (fl, req', Inr (append_headers hs (JSONResponse 200 demo_answer []))) \<and>
    fold (cexec wa demo_auth) (Send 0 None (JSONResponse 422 JNull []) ''7e'' (Fin 2) # replicate 4 (Auth demo_resume))
        \<lparr>api_p = p4, auth_p = q, links = []\<rparr> = \<lparr>api_p = p4, auth_p = q5, links = [(0, 0)]\<rparr>"
proof -
  let ?t = "\<lparr>token = ''demo-token''\<rparr>" and ?req = "call_request None (demo_call b) (svc p4)"
  have tok: "call_endpoint i (bearer_token None) = Validate ?t" for i
    by (simp add: bearer_token_def str_or_def removeprefix_def startswith_def strip_def call_endpoint_def token_request_ok_def)
  have q: "flights q = []" "next_id q = 0" "served q = []" using serving_process_empty [OF assms(1)] by simp_all
  let ?r = "pexec demo_auth demo_resume" and ?q1 = "pexec demo_auth (Arrive ?req (Validate ?t) ''7e'' (Fin 2)) q"
  let ?f2 = "new_flight ?req (Validate ?t) ''7e'' (Fin 2)"
  have q1: "flights ?q1 = [(0, ?f2)]" "fresh_service AUTH (svc ?q1)" "fpc ?f2 = Hook" "fend ?f2 = Validate ?t" "served ?q1 = []"
    using q serving_fresh [OF assms(1)] by (simp_all add: call_request_def new_flight_def Let_def)
  obtain b2 v where auth: "?r (?r (?r ?q1)) = ?q1\<lparr>svc := v, flights := [(0, ?f2\<lparr>fpc := Validating ?t b2\<rparr>)]\<rparr>"
    using fresh_to_call [OF q1(2,1,3), of demo_auth 1 "Fin 9" "''9c''"] q1(4) unfolding demo_resume_def
    by (auto simp: Let_def simp del: pexec.simps)
  let ?fv = "?f2\<lparr>fpc := Validating ?t b2\<rparr>"
  let ?q5 = "?r (?q1\<lparr>svc := v, flights := [(0, ?fv)]\<rparr>)"
  have seg: "fst (segment demo_auth now u ?fv v') = Done (matched demo_auth ?req) (Inr (JSONResponse 200 demo_answer []))" for now u v'
    by (simp add: segment_def backend_def INVALID_TOKENS_def demo_auth_def demo_api_def demo_answer_def handled_def new_flight_def Let_def)
  have "map_of (served ?q5) 0 = Some (?fv, matched demo_auth ?req, Inr (append_headers (response_headers ?fv) (JSONResponse 200 demo_answer [])))"
    using q1(5) seg [of "Fin 1" "''9c''" "in_context ?fv v"]
    by (cases "segment demo_auth (Fin 1) ''9c'' ?fv (in_context ?fv v)") (simp add: demo_resume_def end_flight_sel del: pexec.simps(1))
  moreover have "waiting_call 0 p4 = Some (demo_call b, None)" using assms(2) by (simp add: waiting_call_def demo_call_def)
  ultimately show ?thesis
    using q(2) auth tok by (auto simp: eval_nat_numeral simp del: pexec.simps)
qed

lemma demo_api_creates:
  assumes "flights p4 = [(0, demo_call b)]"
  shows "\<exists>fl j. (0, fl) \<in> requests (pexec (answered demo_api (Inr (append_headers hs (JSONResponse 200 demo_answer []))))
      (Resume 0 now tick uuid) p4) \<and> fpc fl = Creating j"
proof -
  let ?w = "answered demo_api (Inr (append_headers hs (JSONResponse 200 demo_answer [])))"
  have post: "fst (auth_post ?w now path payload v) = Inr demo_answer" for path payload v
    by (simp add: auth_post_def post_json_def answered_def demo_api_def finish_call_def append_headers_def is_2xx_def)
  have "\<exists>j v. segment ?w now uuid (demo_call b) (in_context (demo_call b) (svc p4)) = (Next (Creating j), v)"
    unfolding segment_def Let_def post by (simp add: demo_call_def demo_answer_def dict_get_def)
  then obtain j v where "pexec ?w (Resume 0 now tick uuid) p4 = p4\<lparr>svc := v, flights := [(0, (demo_call b)\<lparr>fpc := Creating j\<rparr>)]\<rparr>"
    using resume_next [OF assms] by blast
  then show ?thesis by (intro exI [of _ "(demo_call b)\<lparr>fpc := Creating j\<rparr>"]) (simp add: requests_def del: pexec.simps)
qed

theorem orders_are_authorised_witness:
  "\<exists>s fl created. creach demo_api demo_auth s \<and> (0, fl) \<in> requests (api_p s) \<and> fpc fl = Creating created \<and> authorised s 0 fl created"
proof -
  let ?x = "cexec demo_api demo_auth"
  obtain p q where boot: "serving_process API (boot new_year) = Inr p" "serving_process AUTH (boot new_year) = Inr q"
    using serving_boot by blast
  let ?s = "fold ?x demo_exchange \<lparr>api_p = p, auth_p = q, links = []\<rparr>"
  have "creach demo_api demo_auth (fold ?x es s)" if "creach demo_api demo_auth s" "list_all cevent_ok es" for es s
    using that by (induction es arbitrary: s) (simp_all add: creach.stepped del: cexec.simps)
  moreover have "creach demo_api demo_auth \<lparr>api_p = p, auth_p = q, links = []\<rparr>" by (rule creach.started [OF boot]) simp_all
  moreover have "list_all cevent_ok demo_exchange"
    by (simp add: demo_exchange_def demo_arrival_def demo_resume_def order_request_ok_def demo_order_def eval_nat_numeral)
  ultimately have reach: "creach demo_api demo_auth ?s" by blast
  obtain b p4 where p4: "flights p4 = [(0, demo_call b)]"
    "fold ?x [Api demo_arrival, Api demo_resume, Api demo_resume, Api demo_resume] \<lparr>api_p = p, auth_p = q, links = []\<rparr> = \<lparr>api_p = p4, auth_p = q, links = []\<rparr>"
    using demo_api_calls [OF boot(1)] by blast
  obtain q5 f req' hs where q5: "map_of (served q5) 0 = Some (f, req', Inr (append_headers hs (JSONResponse 200 demo_answer [])))"
    "fold ?x (Send 0 None (JSONResponse 422 JNull []) ''7e'' (Fin 2) # replicate 4 (Auth demo_resume)) \<lparr>api_p = p4, auth_p = q, links = []\<rparr> =
      \<lparr>api_p = p4, auth_p = q5, links = [(0, 0)]\<rparr>"
    using demo_auth_serves [OF boot(2) p4(1)] by blast
  have "?s = ?x (Return 0 (Fin 3) (Fin 9) ''0123456789abcdef'') \<lparr>api_p = p4, auth_p = q5, links = [(0, 0)]\<rparr>"
    unfolding demo_exchange_def fold_append comp_def p4(2) q5(2) by simp
  then obtain fl created where fl: "(0, fl) \<in> requests (api_p ?s)" "fpc fl = Creating created"
    using demo_api_creates [OF p4(1), of hs "Fin 3" "Fin 9" "''0123456789abcdef''"] q5(1) by (auto simp: reply_def simp del: pexec.simps)
  have "library_ok (w_httpx demo_api now)" "framework_ok demo_auth" "w_role demo_api = API" "w_role demo_auth = AUTH" for now
    by (simp_all add: library_ok_def raises_unless_2xx_def framework_ok_def demo_auth_def demo_api_def)
  then show ?thesis using orders_are_authorised [OF reach _ _ _ _ fl] reach fl by blast
qed

end
