(* ===== verification/Spec2Isabelle.thy ===== *)
theory Spec2Isabelle
  imports Catalog Logging ValidateObs ProcessLimits ProcessJobs Cluster
begin

text \<open>
  \<^bold>\<open>AutoSRE: a verification library for the Python services.\<close>

  AutoSRE is three FastAPI services (\<open>api/main.py\<close>, \<open>auth/main.py\<close>, \<open>worker/main.py\<close>) on one shared package
  (\<open>shared/autosre_shared\<close>): a circuit breaker, a token-bucket rate limiter, a chaos controller, request
  context and metrics middleware, system endpoints, an HTTP client for calls between services, a failure
  log, structured logging and an application factory that puts them together, and a script that
  validates the observability configuration. This library models that code and proves what makes it
  correct.

  \<^bold>\<open>How the parts interact.\<close> \<open>create_service_app\<close> validates the environment, makes a chaos controller and
  stacks the middleware: request context outermost, then security headers, then metrics (which asks the
  chaos controller before calling on), then the rate limiter, then the exception handler around the
  router. A business endpoint calls its dependency through a circuit breaker of the process-wide
  registry; breaker, limiter, chaos and worker write to the failure log, and everything writes to
  Prometheus metrics. The API asks auth over HTTP for every order.

  \<^bold>\<open>Theories, in the order of import.\<close>
  \<^item> \<open>Prelude\<close>: exceptions as values, Python string methods, dictionaries as association lists.
  \<^item> \<open>PyFloat\<close>: Python's \<open>float\<close> as binary64 with round to nearest even, on rationals; \<open>round\<close>, \<open>min\<close>, \<open>max\<close>,
    division, truncation; rounding error bounds and the grids \<open>k / 2^q\<close> on which arithmetic is exact.
  \<^item> \<open>PyText\<close>: \<open>str(int)\<close>, \<open>repr(float)\<close>, \<open>int(str)\<close>, \<open>float(str)\<close>, and that the shortest repr reads back.
  \<^item> \<open>Json\<close>: \<open>json.dumps\<close> and \<open>json.loads\<close>, and that what is printed reads back.
  \<^item> \<open>Platform\<close>: environment, wall clock, disk, and the ordered log of calls on \<open>prometheus_client\<close>.
  \<^item> \<open>FailureStore\<close> (\<open>storage/failure_store.py\<close>): events, the JSONL file, \<open>record_event\<close>, the endpoints; the
    locale \<open>failure_log\<close> is the contract of the store.
  \<^item> \<open>Http\<close>: requests and responses. \<open>CircuitBreaker\<close> (\<open>resilience/circuit_breaker.py\<close>): store, state
    machine, guards, registry; the locale \<open>breaker_store\<close> is the contract of \<open>BreakerStore\<close>, and
    \<open>spec_step\<close> the abstract machine the breaker refines.
  \<^item> \<open>RateLimiter\<close> (\<open>resilience/rate_limiter.py\<close>): buckets, limiter, client key; the locale \<open>bucket_store\<close>.
  \<^item> \<open>Chaos\<close> (\<open>chaos.py\<close>): state, error decision, request hook, control plane, background workloads, and
    \<open>chaos_reach\<close>, the states a controller can reach.
  \<^item> \<open>Middleware\<close> (\<open>context.py\<close>, \<open>observability/middleware.py\<close>, \<open>RateLimitMiddleware\<close>) over the record
    \<open>service\<close>, the state of a process. \<open>Endpoints\<close> (\<open>observability/endpoints.py\<close>, \<open>envcheck.py\<close>).
  \<^item> \<open>Services\<close> (\<open>clients/service_client.py\<close> and the endpoints, readiness checks and job loop of the three
    services); the locale \<open>service_client\<close> is the contract of \<open>ServiceClient\<close>.
  \<^item> \<open>App\<close> (\<open>app.py\<close>): the stack, the factory, the lifespan, the routes, what importing each service module
    does, and the worker's task. \<open>Catalog\<close> (\<open>observability/metrics.py\<close> and the metrics declared beside the
    other code). \<open>Logging\<close> (\<open>logging.py\<close>). \<open>ValidateObs\<close> (\<open>scripts/validate_observability.py\<close>).
  \<^item> \<open>Process\<close>: a running process of any of the three services (\<open>role\<close>) on the event loop. Every request is
    a task cut at its awaits (\<open>segment\<close>), the worker's job loop is one more (\<open>job_move\<close>), \<open>pexec\<close> makes one
    step of the process, \<open>preach\<close> are the processes that can be reached from the start of the service's
    \<open>main.py\<close>. \<open>ProcessInvariants\<close>: the locales \<open>service_invariant\<close> and \<open>process_invariant\<close>, the laws of
    the steps of all tasks, interpreted for the chaos controller and the breaker of each service, and
    \<open>untouched\<close> (a sublocale) for the counters of the requests and of the jobs. \<open>ProcessProperties\<close>,
    \<open>ProcessLimits\<close> and \<open>ProcessJobs\<close>: what holds under every interleaving.
  \<^item> \<open>Cluster\<close>: the API and the auth process connected by the network. \<open>cexec\<close> makes one step of either, hands
    the call of an order to auth, returns what auth served or loses it; \<open>creach\<close> are the states they reach.
  \<^item> this theory: the properties of a whole service and of two services together.

  Every locale is interpreted on the model of the code that provides it, in the theory of that code.

  \<^bold>\<open>What is shown.\<close>
  \<^item> \<^emph>\<open>Breaker\<close>: refinement of the abstract machine under any interleaving of calls; it trips exactly on
    the failure that completes a run; it fails fast while open; it recovers through probes; the record
    invariant and the gauge; transitions are persisted in order, and so are late openings (failures that
    arrive at the threshold while it is open), which restart the timer and are counted as openings too.
  \<^item> \<^emph>\<open>Limiter\<close>: 429 when the bucket denies, the application's own result when it allows; the admission bound \<open>burst + rps * duration\<close>; the exact
    burst; the wait it announces is honoured; tokens stay within the burst, rounding included; clients
    do not interfere; what fresh keys and a zero rate do.
  \<^item> \<^emph>\<open>Chaos\<close>: the injected share of requests; bounds and gauges of every reachable state; memory accounting
    without resets, the cap for orderly triggers, and the race that exceeds it; the CPU flag that drops early; what reset leaves running; termination of the CPU burn.
  \<^item> \<^emph>\<open>Failure log\<close>: any sequence of events is read back; no exception of the disk leaves \<open>record_event\<close>, and
    the first event is not lost although the store is made lazily.
  \<^item> \<^emph>\<open>Stack\<close>: every response is hardened and carries the ids; every request is measured once; control paths
    are always served; readiness; metric calls are as declared; status documents are strict JSON for finite settings.
  \<^item> \<^emph>\<open>Services\<close>: orders end to end through the API's client and the whole stack of auth; correlation ids follow; what oversize tokens do; the
    worker's accounting, its life from start to stop with the one exception its hook swallows, and what
    cancellation counts as.
  \<^item> \<^emph>\<open>Process\<close>: the steps of one request, run without interruption, are the composed stack; under every
    interleaving of requests to all routes, disconnecting clients, chaos control and background work
    the request metrics are an exact account of the requests in flight and served, each request is
    answered once, with its own ids, and ends; breaker and chaos controller keep their invariants and
    gauges; no interleaving calls the dependency while its breaker is open; the rate limit bounds what
    passes it. In the worker the steps of a job are \<open>_process_job\<close>, the job metrics are an exact account, and
    the loop goes on until it is cancelled.
  \<^item> \<^emph>\<open>Cluster\<close>: no order is created without a validation of its token by the auth process, its own one and
    under the same correlation id, whatever is interleaved, lost or cancelled in the two processes.
  \<^item> \<^emph>\<open>Logging and validation\<close>: a log line reads back as the record; the script decides soundness.

  \<^bold>\<open>Modelling decisions.\<close>
  \<^item> Strings are over Latin-1 code points, the range of HTTP headers; a \<open>\u\<close> escape beyond it does not
    decode. The sign of zero and the digit limit of \<open>int()\<close> are not modelled.
  \<^item> A clock reading is an argument of the operation that takes it, a fresh id likewise. What other
    coroutines do while one waits is an argument \<open>others\<close> (or a list of steps between the steps of one
    call); locks make each operation one step, so interleavings are sequences of operations. In \<open>Process\<close>
    the other coroutines are tasks themselves: a task may be suspended at every \<open>await\<close> expression, also
    where the awaited coroutine would go on at once, so the code has no interleaving that the model lacks.
    Disconnecting clients cancel a task where it waits; the shutdown of the worker cancels its loop. The
    network is part of the step: what the HTTP library returns may differ at every one.
  \<^item> Calls on metrics are a list in the platform state; logger calls are left out except for the formatter.
  \<^item> \<open>disk_ok\<close> says whether the disk works; a failing one raises \<open>OSError\<close>.
  \<^item> A held memory block is its length, as \<open>list.remove\<close> compares contents and all blocks are filled alike.
  \<^item> Starlette, FastAPI and pydantic (routing, validation, 422), \<open>httpx\<close>, \<open>uuid\<close>, \<open>prometheus_client\<close> and the
    YAML decoder are third-party code: the router is an argument, \<open>httpx\<close> a record of operations with its
    documented behaviour as the hypotheses \<open>library_ok\<close> (\<open>raise_for_status\<close> raises unless the status is
    2xx, with any message; \<open>json\<close> decodes the body) and \<open>httpx_reaches\<close> (the URL leads to the peer), how
    the framework renders an outcome the hypothesis \<open>framework_ok\<close>, and a request model is a record with
    a predicate. \<open>validate_router\<close> is the router of auth with its one business endpoint.

  \<^bold>\<open>Bounds and fuel.\<close> \<open>loads\<close> runs its reader with fuel \<open>2 * length + 2\<close>, which \<open>loads_dumps\<close> shows to be
  enough for everything \<open>dumps\<close> prints. The grid lemmas need \<open>q \<le> 1074\<close> and values below \<open>2^53\<close> grid steps,
  which keeps sums and differences exact. \<open>cpu_burn\<close> is a partial function whose termination is proved
  from the clock; every other definition is total. A request has at
  most six segments (\<open>segments_left\<close>), and \<open>drive\<close> resumes it that often; a job has at most four
  steps (\<open>job_rank\<close>). \<open>job_loop\<close> follows a schedule of any length, as the loop
  has no exit of its own.

  \<^bold>\<open>Not modelled.\<close> \<open>uvicorn.run\<close> and \<open>_maybe_await\<close> (framework glue; the port is modelled); help texts and the
  filling of histogram buckets (only \<open>prometheus_client\<close> reads them); package \<open>__init__\<close> files (re-exports); file globbing and
  YAML decoding of the validation script; the Go programs, the frontend, dashboards, rules, deployment files,
  shell scripts and tests.
\<close>

section \<open>Properties of a whole service\<close>

text \<open>The content security policy header, by path.\<close>

definition csp_headers :: "string \<Rightarrow> (string \<times> string) list" where
  "csp_headers path = (if list_ex (\<lambda>d. startswith path d) DOCS_PATHS then [] else [(''content-security-policy'', CSP)])"

definition id_headers :: "ambient \<Rightarrow> request \<Rightarrow> (string \<times> string) list" where
  "id_headers am req =
     (let rid = header_or req ''x-request-id'' (fresh_id am)
      in [(''x-request-id'', rid), (''x-correlation-id'', header_or req ''x-correlation-id'' rid)])"

definition outer_headers :: "ambient \<Rightarrow> request \<Rightarrow> (string \<times> string) list" where
  "outer_headers am req = SECURITY_HEADERS @ csp_headers (req_path req) @ id_headers am req"

text \<open>The state in which the metrics layer receives the request.\<close>

definition bound :: "ambient \<Rightarrow> request \<Rightarrow> service \<Rightarrow> service" where
  "bound am req sv =
     (let rid = header_or req ''x-request-id'' (fresh_id am)
      in sv\<lparr>request_id_var := rid, correlation_id_var := header_or req ''x-correlation-id'' rid\<rparr>)"

definition metrics_layer :: "bool \<Rightarrow> ambient \<Rightarrow> app \<Rightarrow> app" where
  "metrics_layer rl am router =
     prometheus_dispatch (meanwhile am) (t_start am) (t_end am)
       (if rl then rate_limit_dispatch (t_limit am) (exception_handlers router) else exception_handlers router)"

lemma service_stack_outer:
  assumes "metrics_layer rl am router req (bound am req sv) = (r, req', sv')"
  shows "service_stack rl am router req sv =
    (map_sum id (append_headers (outer_headers am req)) r, req',
     sv'\<lparr>request_id_var := request_id_var sv, correlation_id_var := correlation_id_var sv\<rparr>)"
proof (cases r)
  case (Inl x)
  then show ?thesis
    using assms by (simp add: service_stack_def request_context_def security_headers_def metrics_layer_def bound_def Let_def)
next
  case (Inr resp)
  then show ?thesis
    using assms
    by (simp add: service_stack_def request_context_def security_headers_def metrics_layer_def bound_def
        outer_headers_def id_headers_def csp_headers_def append_headers_def Let_def)
qed

lemma metrics_control:
  assumes "is_control (req_path req)"
  shows "fst (metrics_layer rl am router req sv) =
    fst (exception_handlers router req (if req_path req = ''/metrics'' then sv
      else emit_s [GaugeInc ''http_requests_in_progress'' [(''method'', req_method req)]] sv))"
  unfolding metrics_layer_def prometheus_control [OF assms refl] using rate_limit_control [OF assms] by simp

text \<open>
  C18. Every response a service sends, whether from an endpoint, an injected error, a rate limit
  rejection or an open breaker, carries the security headers, the content security policy off the
  documentation pages, and the request and correlation ids; and after the request, however it ended,
  the context variables are as before.
\<close>

theorem every_response_hardened:
  assumes "service_stack rl am router req sv = (r, req', sv')"
  shows "request_id_var sv' = request_id_var sv \<and> correlation_id_var sv' = correlation_id_var sv \<and>
    (\<forall>resp. r = Inr resp \<longrightarrow> (\<exists>hs. headers resp = hs @ SECURITY_HEADERS @ csp_headers (req_path req) @ id_headers am req))"
proof -
  obtain r0 q s where m: "metrics_layer rl am router req (bound am req sv) = (r0, q, s)" by (metis prod_cases3)
  show ?thesis
    using assms service_stack_outer [OF m] by (cases r0) (auto simp: append_headers_def outer_headers_def)
qed

definition demo_ambient :: ambient where
  "demo_ambient = \<lparr>fresh_id = ''abc'', t_start = Fin 1, t_end = Fin 2, t_limit = Fin 1, meanwhile = id\<rparr>"

theorem every_response_hardened_witness:
  "\<exists>hs. headers (projr (fst (service_stack True demo_ambient (const_app (Inr (JSONResponse 200 JNull []))) (demo_request ''/health'') demo_service))) =
     hs @ [(''x-request-id'', ''abc''), (''x-correlation-id'', ''abc'')]"
proof -
  let ?st = "service_stack True demo_ambient (const_app (Inr (JSONResponse 200 JNull []))) (demo_request ''/health'') demo_service"
  obtain r q s where st: "?st = (r, q, s)" by (metis prod_cases3)
  have c: "is_control ''/health''" by (simp add: is_control_def CONTROL_PATHS_def)
  obtain r0 q0 s0 where m: "metrics_layer True demo_ambient (const_app (Inr (JSONResponse 200 JNull []))) (demo_request ''/health'')
      (bound demo_ambient (demo_request ''/health'') demo_service) = (r0, q0, s0)" by (metis prod_cases3)
  have "is_control (req_path (demo_request ''/health''))" using c by (simp add: demo_request_def)
  from metrics_control [OF this, of True demo_ambient "const_app (Inr (JSONResponse 200 JNull []))"
      "bound demo_ambient (demo_request ''/health'') demo_service"] m
  have "r0 = Inr (JSONResponse 200 JNull [])" by (simp add: exception_handlers_def const_app_def)
  then have "\<exists>resp. r = Inr resp" using service_stack_outer [OF m] st by simp
  then obtain resp where resp: "r = Inr resp" by blast
  have ids: "id_headers demo_ambient (demo_request ''/health'') = [(''x-request-id'', ''abc''), (''x-correlation-id'', ''abc'')]"
    by (simp add: id_headers_def header_or_def demo_request_def demo_ambient_def str_or_def Let_def)
  obtain hs where "headers resp = hs @ SECURITY_HEADERS @ csp_headers (req_path (demo_request ''/health'')) @
      id_headers demo_ambient (demo_request ''/health'')"
    using every_response_hardened [OF st] resp by blast
  then show ?thesis
    using st resp ids by (intro exI [of _ "hs @ SECURITY_HEADERS @ csp_headers (req_path (demo_request ''/health''))"]) simp
qed

text \<open>
  C19. Operators are never locked out: on a control path (health, readiness, metrics, docs, chaos,
  breaker, rate limit and failure endpoints) the request reaches the router whatever chaos is
  configured and however exhausted the client's bucket is, with the chaos, limiter and breaker state
  as they were, and the router's response comes back with only headers added.
\<close>

theorem control_paths_always_served:
  assumes "is_control (req_path req)"
  shows "\<exists>sv1. chaos sv1 = chaos sv \<and> limiter sv1 = limiter sv \<and> breakers sv1 = breakers sv \<and>
    fst (service_stack rl am router req sv) =
      map_sum id (append_headers (outer_headers am req)) (fst (exception_handlers router req sv1))"
proof -
  obtain r q s where m: "metrics_layer rl am router req (bound am req sv) = (r, q, s)" by (metis prod_cases3)
  let ?sv1 = "if req_path req = ''/metrics'' then bound am req sv
      else emit_s [GaugeInc ''http_requests_in_progress'' [(''method'', req_method req)]] (bound am req sv)"
  have "r = fst (exception_handlers router req ?sv1)"
    using metrics_control [OF assms, of rl am router "bound am req sv"] m by simp
  moreover have "chaos ?sv1 = chaos sv" "limiter ?sv1 = limiter sv" "breakers ?sv1 = breakers sv"
    by (simp_all add: bound_def Let_def)
  ultimately show ?thesis using service_stack_outer [OF m] by (intro exI [of _ ?sv1]) simp
qed

theorem control_paths_always_served_witness:
  "\<exists>sv1. fst (service_stack True demo_ambient (const_app (Inr (JSONResponse 200 JNull []))) (demo_request ''/chaos/reset'')
      (demo_service\<lparr>chaos := \<lparr>csrv = ''api'', cstate = new_chaos_state\<lparr>error_enabled := True, error_rate := Fin 1\<rparr>\<rparr>\<rparr>)) =
    map_sum id (append_headers (outer_headers demo_ambient (demo_request ''/chaos/reset'')))
      (fst (exception_handlers (const_app (Inr (JSONResponse 200 JNull []))) (demo_request ''/chaos/reset'') sv1))"
proof -
  have "is_control (req_path (demo_request ''/chaos/reset''))"
    by (simp add: demo_request_def is_control_def CONTROL_PREFIXES_def startswith_def)
  from control_paths_always_served [OF this] show ?thesis by metis
qed

text \<open>
  C5. Every request to a service, a scrape apart, is measured exactly once, with the status the client
  sees, including injected errors, rate limit rejections and requests that fail: the calls on the
  request metrics are in-progress up, possibly one exception, one count, in-progress down.
\<close>

theorem stack_measures_every_request:
  assumes "req_path req \<noteq> ''/metrics''" "red_quiet router" "\<And>v. red_calls (meanwhile am v) = red_calls v"
    and "service_stack rl am router req sv = (r, req', sv')"
  shows "\<exists>exc. red_calls sv' = red_calls sv @
     [GaugeInc ''http_requests_in_progress'' [(''method'', req_method req)]] @ exc @
     [CounterInc ''http_requests_total'' [(''method'', req_method req), (''endpoint'', route_label req'),
        (''status'', case r of Inl x \<Rightarrow> ''500'' | Inr resp \<Rightarrow> int_str (status_code resp))],
      GaugeDec ''http_requests_in_progress'' [(''method'', req_method req)]] \<and>
     length exc = (case r of Inl x \<Rightarrow> if is_Exception x then 1 else 0 | Inr resp \<Rightarrow> 0)"
proof -
  let ?inner = "if rl then rate_limit_dispatch (t_limit am) (exception_handlers router) else exception_handlers router"
  have quiet: "red_quiet ?inner"
    using rate_limit_quiet exception_handlers_quiet [OF assms(2)] by simp
  obtain r0 q s where m: "metrics_layer rl am router req (bound am req sv) = (r0, q, s)" by (metis prod_cases3)
  have red: "red_calls (bound am req sv) = red_calls sv" "red_calls (s\<lparr>request_id_var := a, correlation_id_var := b\<rparr>) = red_calls s" for a b
    by (simp_all add: bound_def red_calls_def Let_def)
  have out: "r = map_sum id (append_headers (outer_headers am req)) r0" "req' = q" "red_calls sv' = red_calls s"
    using service_stack_outer [OF m] assms(4) red(2) by auto
  note one = red_sequence [OF assms(1) quiet assms(3) m [unfolded metrics_layer_def]]
  show ?thesis
  proof (cases r0)
    case (Inl x)
    then show ?thesis using one out red(1) by (cases "is_Exception x") auto
  next
    case (Inr resp)
    then show ?thesis using one out red(1) by (simp add: append_headers_def)
  qed
qed


theorem stack_measures_every_request_witness:
  "\<exists>c. red_calls (snd (snd (service_stack True demo_ambient (const_app (Inl os_error)) (demo_request ''/orders'') demo_service))) =
     [GaugeInc ''http_requests_in_progress'' [(''method'', ''GET'')]] @ c @ [GaugeDec ''http_requests_in_progress'' [(''method'', ''GET'')]]"
proof -
  obtain r q s where st: "service_stack True demo_ambient (const_app (Inl os_error)) (demo_request ''/orders'') demo_service = (r, q, s)"
    by (metis prod_cases3)
  have "red_calls demo_service = []" by (simp add: red_calls_def)
  then show ?thesis
    using stack_measures_every_request [OF _ const_app_quiet _ st] st by (auto simp: demo_request_def demo_ambient_def)
qed

section \<open>Two services\<close>

text \<open>
  A correlation id follows the request through the services: inside a request whose correlation
  id is \<open>cid\<close>, every call of the service client carries it, and the service that receives the call binds
  the same correlation id, whatever fresh id it draws; each hop still has its own request id.
\<close>

lemma correlation_id_follows:
  assumes "correlation_id_var sv = cid" "cid \<noteq> []" "cid \<noteq> ''-''"
    and "\<And>url hs payload. hx_post hx url hs payload = Inr (answer url hs payload)"
    and "\<And>url hs payload. req_headers (received url hs payload) = delivered hs"
  shows "\<exists>hs. fst (post_json hx others c path payload [] sv) = finish_call hx (Inr (answer (base_url c @ path) hs payload)) \<and>
    header_or (received (base_url c @ path) hs payload) ''x-correlation-id'' rid = cid \<and>
    header_or (received (base_url c @ path) hs payload) ''x-request-id'' fresh = fresh"
proof -
  let ?hs = "[(''X-Correlation-ID'', cid)]"
  have "post_json hx others c path payload [] sv =
      (finish_call hx (Inr (answer (base_url c @ path) ?hs payload)), others sv)"
    using propagation_headers_bound [OF assms(1-3)] assms(4) by (simp add: post_json_def)
  moreover have "header_or (received (base_url c @ path) ?hs payload) ''x-correlation-id'' rid = cid"
    using assms(2,5) lower_correlation by (simp add: header_or_def delivered_def str_or_def)
  moreover have "header_or (received (base_url c @ path) ?hs payload) ''x-request-id'' fresh = fresh"
    using assms(5) lower_correlation by (simp add: header_or_def delivered_def str_or_def)
  ultimately show ?thesis by auto
qed

text \<open>
  The auth service as a peer of the API. The request arrives with the headers the client sends and passes
  the whole stack of auth: context, security headers, metrics with the chaos hook, rate limit,
  exception handler. The router is the framework's: it validates the payload against \<open>TokenRequest\<close>,
  answers \<open>invalid\<close> (422) where that fails, and runs the endpoint otherwise. An exception that leaves
  the stack becomes the server's 500, as \<open>reply\<close> has it.
\<close>

definition validate_request :: "string option \<Rightarrow> string dict \<Rightarrow> request" where
  "validate_request peer hs = \<lparr>req_method = ''POST'', req_path = ''/validate'', req_headers = delivered hs,
     client_host = peer, route = None\<rparr>"

definition payload_token :: "json \<Rightarrow> token_request option" where
  "payload_token payload =
     (case payload of
        JObj kvs \<Rightarrow>
          (case map_of kvs ''token'' of
             Some (JStr t) \<Rightarrow> if token_request_ok \<lparr>token = t\<rparr> then Some \<lparr>token = t\<rparr> else None
           | _ \<Rightarrow> None)
      | _ \<Rightarrow> None)"

definition validate_router :: "(service \<Rightarrow> service) \<Rightarrow> pyfloat \<Rightarrow> pyfloat \<Rightarrow> response \<Rightarrow> json \<Rightarrow> app" where
  "validate_router others now1 now2 invalid payload req sv =
     (let req' = req\<lparr>route := Some ''/validate''\<rparr>
      in case payload_token payload of
           None \<Rightarrow> (Inr invalid, req', sv)
         | Some tr \<Rightarrow>
             (case validate others now1 now2 tr sv of
                (r, sv') \<Rightarrow> (map_sum id (\<lambda>j. JSONResponse 200 j []) r, req', sv')))"

definition auth_http ::
  "ambient \<Rightarrow> (service \<Rightarrow> service) \<Rightarrow> pyfloat \<Rightarrow> pyfloat \<Rightarrow> response \<Rightarrow> string option \<Rightarrow> service \<Rightarrow>
   string dict \<Rightarrow> json \<Rightarrow> response result" where
  "auth_http am others now1 now2 invalid peer asv hs payload =
     reply (fst (service_stack True am (validate_router others now1 now2 invalid payload) (validate_request peer hs) asv))"

text \<open>The documented behaviour of \<open>httpx\<close> (\<open>library_ok\<close>), and that this URL leads to this peer.\<close>

definition httpx_reaches :: "response httpx \<Rightarrow> string \<Rightarrow> (string dict \<Rightarrow> json \<Rightarrow> response result) \<Rightarrow> bool" where
  "httpx_reaches hx url peer \<longleftrightarrow>
     library_ok hx \<and> (\<forall>hs payload. hx_post hx url hs (Some payload) = peer hs payload)"




lemma validate_path: "\<not> is_control ''/validate''" "\<not> excluded ''/validate''" "''/validate'' \<noteq> ''/metrics''"
  by code_simp+

lemma payload_token_one [simp]:
  "payload_token (JObj [(''token'', JStr t)]) = (if token_request_ok \<lparr>token = t\<rparr> then Some \<lparr>token = t\<rparr> else None)"
  by (simp add: payload_token_def)

text \<open>No 2xx response: the client makes an exception of it.\<close>

definition no_success :: "response result \<Rightarrow> bool" where
  "no_success r \<longleftrightarrow> (case r of Inl x \<Rightarrow> True | Inr resp \<Rightarrow> \<not> is_2xx (status_code resp))"

lemma no_success_simps [simp]:
  "no_success (Inl x)" "no_success (Inr resp) = (\<not> is_2xx (status_code resp))"
  "no_success (map_sum id (append_headers hs) r) = no_success r"
  by (simp_all add: no_success_def append_headers_def split: sum.split)

lemma failed_reply:
  assumes "library_ok hx" "no_success r"
  shows "\<exists>cls msg. finish_call hx (reply r) = Inl (PyException cls msg)"
proof -
  have raise: "\<exists>msg. hx_raise_for_status hx resp = Inl (PyException ''HTTPStatusError'' msg)"
    if "\<not> is_2xx (status_code resp)" for resp
    using assms(1) raises_unless_2xxD(2) that by (auto simp: library_ok_def)
  let ?five = "\<lparr>status_code = 500, body = Text_content ''Internal Server Error'', headers = []\<rparr>"
  have "\<not> is_2xx (status_code ?five)" by (simp add: is_2xx_def)
  then show ?thesis
    using raise assms(2) by (cases r) (fastforce simp: reply_def finish_call_def)+
qed

text \<open>The chaos hook and the rate limiter of auth, for a request to \<open>/validate\<close>.\<close>

lemma hook_result:
  assumes "\<not> is_control path"
  shows "fst (chaos_hook others path sv) \<in> {None, Some injected_error}"
  by (simp add: chaos_hook_def apply_request_chaos_def case_prod_beta Let_def)


lemma check_verdict: "fst (check key now l p) = fst (check key now l p')"
  by (simp add: check_def Let_def split: prod.split sum.split)

lemma dispatch_verdict:
  assumes "\<not> excluded (req_path req)"
  shows "is_allowed (fst (check (client_key req) now (limiter sv) p)) \<Longrightarrow>
      \<exists>l q. rate_limit_dispatch now inner req sv = inner req (sv\<lparr>limiter := l, plat := q\<rparr>)"
    and "\<not> is_allowed (fst (check (client_key req) now (limiter sv) p)) \<Longrightarrow> no_success (fst (rate_limit_dispatch now inner req sv))"
  unfolding check_verdict [of _ _ _ p "plat sv"] using assms
  by (auto simp: rate_limit_dispatch_def is_allowed_def is_2xx_def Let_def split: prod.splits sum.splits)

lemma metrics_validate:
  assumes "req_path req = ''/validate''"
  obtains hit sv2 where
    "chaos_hook (meanwhile am) ''/validate'' (emit_s [GaugeInc ''http_requests_in_progress'' [(''method'', req_method req)]] v) = (hit, sv2)"
    "fst (metrics_layer True am router req v) =
      (case hit of Some e \<Rightarrow> Inr e | None \<Rightarrow> fst (rate_limit_dispatch (t_limit am) (exception_handlers router) req sv2))"
proof -
  obtain hit sv2 where h: "chaos_hook (meanwhile am) ''/validate''
      (emit_s [GaugeInc ''http_requests_in_progress'' [(''method'', req_method req)]] v) = (hit, sv2)" by force
  have "fst (metrics_layer True am router req v) =
      (case hit of Some e \<Rightarrow> Inr e | None \<Rightarrow> fst (rate_limit_dispatch (t_limit am) (exception_handlers router) req sv2))"
    using assms h by (auto simp: metrics_layer_def prometheus_dispatch_def Let_def split: option.splits prod.splits sum.splits)
  then show thesis using that h by blast
qed

lemma stack_of_metrics:
  "fst (service_stack rl am router req sv) =
     map_sum id (append_headers (outer_headers am req)) (fst (metrics_layer rl am router req (bound am req sv)))"
  by (metis fst_conv prod.collapse service_stack_outer)

text \<open>A payload outside the bounds never gets a 2xx answer, whatever state auth is in.\<close>

lemma invalid_payload_refused:
  assumes "payload_token payload = None" "status_code invalid = 422" "req_path req = ''/validate''"
  shows "no_success (fst (service_stack True am (validate_router others now1 now2 invalid payload) req asv))"
proof -
  let ?router = "validate_router others now1 now2 invalid payload"
  have router: "no_success (fst (exception_handlers ?router req v))" for v
    using assms(1,2) by (simp add: exception_handlers_def validate_router_def is_2xx_def Let_def)
  have lim: "no_success (fst (rate_limit_dispatch (t_limit am) (exception_handlers ?router) req v))" for v
    using dispatch_verdict [of req "t_limit am" v "plat v" "exception_handlers ?router"] router validate_path(2) assms(3) by metis
  have five: "\<not> is_2xx (status_code injected_error)" by (simp add: injected_error_def is_2xx_def)
  obtain hit sv2 where m: "chaos_hook (meanwhile am) ''/validate''
      (emit_s [GaugeInc ''http_requests_in_progress'' [(''method'', req_method req)]] (bound am req asv)) = (hit, sv2)"
    "fst (metrics_layer True am ?router req (bound am req asv)) =
      (case hit of Some e \<Rightarrow> Inr e | None \<Rightarrow> fst (rate_limit_dispatch (t_limit am) (exception_handlers ?router) req sv2))"
    by (rule metrics_validate [OF assms(3)])
  have "hit \<in> {None, Some injected_error}" using hook_result [OF validate_path(1)] m(1) by (metis fst_conv)
  then show ?thesis unfolding stack_of_metrics using m(2) lim five by auto
qed







text \<open>A transport that hands the request to its peer.\<close>

definition direct :: "(string dict \<Rightarrow> json \<Rightarrow> response result) \<Rightarrow> response httpx" where
  "direct peer = (w_httpx demo_api (Fin 0))\<lparr>hx_post :=
     (\<lambda>url hs payload. case payload of Some j \<Rightarrow> peer hs j | None \<Rightarrow> Inl os_error)\<rparr>"

lemma direct_reaches: "httpx_reaches (direct peer) url peer"
  by (simp add: httpx_reaches_def direct_def demo_api_def library_ok_def raises_unless_2xx_def)

definition demo_peer :: "string dict \<Rightarrow> json \<Rightarrow> response result" where
  "demo_peer = auth_http demo_ambient id (Fin 1) (Fin 2) (JSONResponse 422 JNull []) None demo_service"



text \<open>
  C37. A caller can open the auth breaker for everybody: five orders whose token is longer than auth
  accepts, all of them answered 502, open it although auth is healthy, and every order in the next
  thirty seconds, with any token, fails with the breaker open.
\<close>

theorem oversize_tokens_open_breaker:
  assumes "httpx_reaches hx (base_url c @ ''/validate'') (auth_http am aothers t1 t2 invalid peer asv)" "status_code invalid = 422"
    and "\<And>v. breakers (others v) = breakers v"
    and "breaker_ready ''auth'' auth_breaker_config sv" "breaker_phase ''auth'' sv = SClosed 0"
    and "4096 < length (bearer_token a)" "Fin u - Fin t < Fin 30"
  defines "post \<equiv> \<lambda>path payload. post_json hx others c path (Some payload) []"
  shows "fst (create_order post (Fin u) now2 uuid order b
    (snd (place_orders post (replicate 5 (Fin t, Fin t, uuid, order, a)) sv))) = Inl (CircuitBreakerOpenError ''auth'')"
proof -
  let ?q = "(Fin t, Fin t, uuid, order, a)" and ?p = "JObj [(''token'', JStr (bearer_token a))]"
  have lib: "library_ok hx" using assms(1) by (simp add: httpx_reaches_def)
  have "\<exists>cls msg. fst (post ''/validate'' ?p v) = Inl (PyException cls msg)" for v
  proof -
    have "no_success (fst (service_stack True am (validate_router aothers t1 t2 invalid ?p)
        (validate_request peer (merge_headers (propagation_headers v) [])) asv))"
      using assms(2,6) by (intro invalid_payload_refused) (simp_all add: token_request_ok_def validate_request_def)
    then show ?thesis
      using failed_reply [OF lib] assms(1) by (simp add: post_def httpx_reaches_def post_json_def auth_http_def)
  qed
  then have fails: "order_fails post ?q" by (fastforce simp: order_fails_def)
  have five: "replicate 5 ?q = replicate 4 ?q @ [?q]" by (simp add: numeral_eq_Suc)
  have st: "snd (post path payload v) = others v" for path payload v by (simp add: post_def http_post.post_state)
  have "let sv' = snd (place_orders post (replicate 4 ?q @ [?q]) sv)
    in breaker_phase ''auth'' sv' = SOpen 5 (Fin t) \<and>
       fst (create_order post (Fin u) now2 uuid order b sv') = Inl (CircuitBreakerOpenError ''auth'')"
    by (rule failing_orders_open [OF st assms(3) _ _ assms(4,5,7)]) (use fails in \<open>auto simp: list_all_iff\<close>)
  then show ?thesis unfolding five by (simp add: Let_def)
qed

theorem oversize_tokens_open_breaker_witness:
  "(let post = (\<lambda>path payload. post_json (direct demo_peer) id demo_client path (Some payload) [])
    in fst (create_order post (Fin 20) (Fin 21) ''0123456789abcdef'' demo_order None
         (snd (place_orders post (replicate 5 (Fin 3, Fin 3, ''0123456789abcdef'', demo_order, Some (replicate 5000 CHR ''x''))) demo_service))) =
       Inl (CircuitBreakerOpenError ''auth''))"
proof -
  have "strip (replicate 5000 CHR ''x'') = replicate 5000 CHR ''x''"
    by (rule strip_id) (simp_all add: is_space_def hd_replicate last_replicate)
  moreover have "startswith (replicate 5000 CHR ''x'') ''Bearer '' = False"
    by (simp add: startswith_def take_Cons' numeral_eq_Suc)
  ultimately have "length (bearer_token (Some (replicate 5000 CHR ''x''))) = 5000"
    by (simp add: bearer_token_def str_or_def removeprefix_def)
  then show ?thesis
    unfolding Let_def demo_peer_def
    by (intro oversize_tokens_open_breaker [OF direct_reaches]) (simp_all add: round64_exact)
qed

section \<open>Start and stop\<close>

abbreviation (input) up_gauge :: "service \<Rightarrow> int option" where
  "up_gauge sv \<equiv> last_gauge ''service_up'' [] (calls (plat sv))"

lemma lifespan_stop_up:
  "fst (lifespan_stop h s) = Inr () \<Longrightarrow> up_gauge (snd (snd (lifespan_stop h s))) = Some 0"
  by (auto simp: lifespan_stop_def last_gauge_append split: prod.splits sum.splits)

text \<open>A job counts once, wherever it is cancelled, and ends in nothing but a cancellation.\<close>

lemma worker_job_counts:
  assumes "job_quiet (during_latency j)" "job_quiet (during_work j)"
  shows "jobs_done ''success'' (snd (process_job j sv)) + jobs_done ''failed'' (snd (process_job j sv)) =
    Suc (jobs_done ''success'' sv + jobs_done ''failed'' sv)"
proof -
  define sv1 where "sv1 = (if latency_enabled (cstate (chaos sv)) \<and> 0 < latency_seconds (cstate (chaos sv))
    then during_latency j sv else sv)"
  obtain hit s where d: "should_inject_error (cstate (chaos sv1)) = (hit, s)" by force
  let ?v = "sv1\<lparr>chaos := (chaos sv1)\<lparr>cstate := s\<rparr>\<rparr>"
  have q: "jobs_done st (during_work j ?v) = jobs_done st sv" "jobs_done st sv1 = jobs_done st sv" for st
    using assms by (auto simp: job_quiet_def sv1_def) (auto simp: jobs_done_def)
  have rec: "jobs_done st (sv1\<lparr>chaos := c, plat := record_event a b e (plat sv1)\<rparr>) = jobs_done st sv1" for st a b c e
    by (simp add: jobs_done_def)
  show ?thesis
    unfolding process_job_def Let_def sv1_def [symmetric] using d q rec by simp
qed

lemma process_job_exn: "process_job j sv = (Inl x, sv') \<Longrightarrow> x = CancelledError"
  by (auto simp: process_job_def Let_def split: prod.splits if_splits)

lemma cancel_running: "cancel_and_await inside Running sv =
    (CancelledError, case inside of None \<Rightarrow> sv | Some j \<Rightarrow> snd (process_job j sv))"
  by (auto simp: cancel_and_await_def split: option.splits prod.splits sum.splits dest: process_job_exn)

text \<open>
  C25. The life of the worker. From start to stop, with any schedule of jobs and with the stop arriving in
  a pause or in the middle of a job, in either of its sleeps: the process ends in order with
  \<open>service_up\<close> at 0, the job task has ended by cancellation, and every job begun, the interrupted one
  included, has been counted once. The shutdown hook swallows only the cancellation: had the task ended
  with another exception, the hook would raise it, and \<open>service_up\<close> would not be set to 0.
\<close>

theorem worker_lifetime:
  assumes "list_all (\<lambda>(j, pause). job_quiet (during_latency j) \<and> job_quiet (during_work j) \<and> job_quiet pause \<and>
      cancelled j = Never) js"
    and "\<And>j. inside = Some j \<Longrightarrow> job_quiet (during_latency j) \<and> job_quiet (during_work j)"
    and "lifespan (Some worker_startup) (Some (worker_shutdown inside)) (worker_serving js) (None, sv) = (r, task, sv')"
  shows "r = Inr () \<and> task = Some (Ended CancelledError) \<and> up_gauge sv' = Some 0 \<and>
    jobs_done ''success'' sv' + jobs_done ''failed'' sv' =
      jobs_done ''success'' sv + jobs_done ''failed'' sv + length js + (if inside = None then 0 else 1) \<and>
    (\<forall>x v. lifespan_stop (Some (worker_shutdown inside)) (Some (Ended x), v) =
      (if x = CancelledError then (Inr (), Some (Ended x), emit_s [GaugeSet ''service_up'' [] 0] v)
       else (Inl x, Some (Ended x), v)))"
proof -
  let ?up = "emit_s [GaugeSet ''service_up'' [] 1] sv" and ?down = "emit_s [GaugeSet ''service_up'' [] 0]"
  obtain sv1 where l: "job_loop js ?up = (None, sv1)" using job_loop_counts [OF assms(1), of ?up] by (metis prod.collapse)
  have n: "jobs_done ''success'' sv1 + jobs_done ''failed'' sv1 = jobs_done ''success'' sv + jobs_done ''failed'' sv + length js"
    using job_loop_counts [OF assms(1), of ?up] l by simp
  let ?sv2 = "case inside of None \<Rightarrow> sv1 | Some j \<Rightarrow> snd (process_job j sv1)"
  have life: "r = Inr ()" "task = Some (Ended CancelledError)" "sv' = ?down ?sv2"
    using assms(3) l
    by (simp_all add: lifespan_def lifespan_start_def lifespan_stop_def run_hook_def worker_startup_def worker_serving_def
        worker_shutdown_def cancel_running)
  have "jobs_done ''success'' ?sv2 + jobs_done ''failed'' ?sv2 =
      jobs_done ''success'' sv1 + jobs_done ''failed'' sv1 + (if inside = None then 0 else 1)"
    using worker_job_counts assms(2) by (cases inside) simp_all
  moreover have "lifespan_stop (Some (worker_shutdown inside)) (Some (Ended x), v) =
      (if x = CancelledError then (Inr (), Some (Ended x), ?down v) else (Inl x, Some (Ended x), v))" for x v
    by (simp add: lifespan_stop_def run_hook_def worker_shutdown_def cancel_and_await_def)
  ultimately show ?thesis using life n by (simp add: last_gauge_append)
qed

text \<open>A job that the stop interrupts in its chaos latency.\<close>

theorem worker_lifetime_witness:
  "let slow = demo_service\<lparr>chaos := (chaos demo_service)\<lparr>cstate :=
         new_chaos_state\<lparr>latency_enabled := True, latency_seconds := Fin 3\<rparr>\<rparr>\<rparr>;
       sv' = snd (snd (lifespan (Some worker_startup) (Some (worker_shutdown (Some (demo_job\<lparr>cancelled := In_latency\<rparr>))))
         (worker_serving [(demo_job, id)]) (None, slow)))
   in up_gauge sv' = Some 0 \<and> jobs_done ''success'' sv' + jobs_done ''failed'' sv' = 2"
proof -
  let ?slow = "demo_service\<lparr>chaos := (chaos demo_service)\<lparr>cstate :=
         new_chaos_state\<lparr>latency_enabled := True, latency_seconds := Fin 3\<rparr>\<rparr>\<rparr>"
  obtain r task sv' where l: "lifespan (Some worker_startup) (Some (worker_shutdown (Some (demo_job\<lparr>cancelled := In_latency\<rparr>))))
      (worker_serving [(demo_job, id)]) (None, ?slow) = (r, task, sv')" by (metis prod_cases3)
  have "up_gauge sv' = Some 0 \<and> jobs_done ''success'' sv' + jobs_done ''failed'' sv' =
      jobs_done ''success'' ?slow + jobs_done ''failed'' ?slow + 2"
    using worker_lifetime [OF _ _ l] by (simp add: demo_job_def)
  moreover have "jobs_done st ?slow = 0" for st by (simp add: jobs_done_def demo_service_def)
  ultimately show ?thesis using l by (simp add: Let_def)
qed

text \<open>
  Which routes the platform protects: in every service no two routes share method and path, every
  route of the platform is outside chaos and rate limiting, and the business routes are inside both.
\<close>

lemma routes_partitioned:
  assumes "business \<in> {api_routes, auth_routes, []}"
  shows "distinct (service_routes business) \<and>
    (\<forall>(m, path) \<in> set (service_routes business).
       (is_control path \<longleftrightarrow> (m, path) \<notin> set business) \<and> (excluded path \<longleftrightarrow> (m, path) \<notin> set business))"
proof -
  let ?ok = "\<lambda>business. distinct (service_routes business) \<and>
    (\<forall>(m, path) \<in> set (service_routes business).
       (is_control path \<longleftrightarrow> (m, path) \<notin> set business) \<and> (excluded path \<longleftrightarrow> (m, path) \<notin> set business))"
  have "?ok api_routes" by code_simp
  moreover have "?ok auth_routes" by code_simp
  moreover have "?ok []" by code_simp
  ultimately show ?thesis using assms by (elim insertE emptyE) simp_all
qed

lemma create_service_app_clean:
  assumes "\<And>n c. (n, c) \<in> set NUMERIC \<Longrightarrow> env p n = None"
  shows "\<exists>c p1. create_service_app srv rl [] reg p =
      Inr \<lparr>rate_limited = rl, app_chaos = c, app_breakers = reg, app_plat = p1\<rparr> \<and>
    env p1 = env p \<and> cstate c = new_chaos_state"
proof -
  have v: "validate_env [] p = Inr ()"
    using validate_env_char [of "[]" p] assms by (auto simp: env_value_def getenv_def)
  obtain c p1 where n: "new_controller srv p = (c, p1)" by force
  then have c: "env p1 = env p" "cstate c = new_chaos_state" by (auto simp: new_controller_def)
  then show ?thesis using v n by (simp add: create_service_app_def)
qed

text \<open>
  The API service comes up in a clean environment: its module imports, its client points at the
  default auth URL, and the stack it starts to serve with has the auth breaker registered and closed,
  the default rate limits and no chaos.
\<close>

lemma api_module_starts:
  assumes "\<And>n c. (n, c) \<in> set NUMERIC \<Longrightarrow> env p n = None" "env p ''AUTH_URL'' = None"
  shows "\<exists>a sv. api_module p = Inr (\<lparr>base_url = ''http://auth:8001''\<rparr>, a) \<and> build_middleware_stack None a = Inr sv \<and>
    map fst (breakers sv) = [''auth''] \<and> breaker_phase ''auth'' sv = SClosed 0 \<and>
    breaker_ready ''auth'' auth_breaker_config sv \<and>
    limiter sv = new_limiter (Fin 10) (Fin 20) \<and> \<not> is_active (cstate (chaos sv))"
proof -
  obtain b reg p1 where g: "get_or_create ''auth'' auth_breaker_config [] p = (b, reg, p1)" by (metis prod_cases3)
  have b: "load_rec b = new_record" "name b = ''auth''" "config b = auth_breaker_config" "ops b = in_memory_ops"
    "reg = [(''auth'', b)]" "env p1 = env p"
    using g new_breaker_load [of "''auth''" auth_breaker_config p]
    by (auto simp: get_or_create_def new_breaker_def Let_def)
  obtain c p2 where app: "create_service_app ''api'' True [] reg p1 =
      Inr \<lparr>rate_limited = True, app_chaos = c, app_breakers = reg, app_plat = p2\<rparr>" "env p2 = env p" "cstate c = new_chaos_state"
    using create_service_app_clean [of p1 "''api''" True reg] assms(1) b(6) by metis
  let ?a = "\<lparr>rate_limited = True, app_chaos = c, app_breakers = reg, app_plat = p2\<rparr>"
  have e: "env p2 ''RATE_LIMIT_RPS'' = None" "env p2 ''RATE_LIMIT_BURST'' = None" using assms(1) app(2) by (auto simp: NUMERIC_def)
  have "build_middleware_stack None ?a = Inr \<lparr>plat = p2, breakers = reg, chaos = c, limiter = new_limiter (Fin 10) (Fin 20),
      request_id_var = ''-'', correlation_id_var = ''-''\<rparr>"
    using e by (simp add: build_middleware_stack_def get_limiter_def getenv_def default_limits Let_def)
  moreover have "auth_client p = \<lparr>base_url = ''http://auth:8001''\<rparr>"
    using assms(2) by (simp add: auth_client_def new_http_client_def getenv_def rstrip_char_def)
  then have "api_module p = Inr (\<lparr>base_url = ''http://auth:8001''\<rparr>, ?a)" using g app(1) by (simp add: api_module_def)
  ultimately show ?thesis
    using b app(3) by (simp add: breaker_phase_def breaker_ready_def registry_ok_def dict_ok_def
        phase_of_def rec_phase_def new_record_def is_active_def new_chaos_state_def)
qed

text \<open>
  In an environment that passes the validation the port is a number, unless \<open>PORT\<close> is set to the empty
  string: that passes, and then \<open>int\<close> raises.
\<close>

lemma validated_port:
  assumes "validate_env required p = Inr ()" "int_of_str dflt = Some d"
  shows "if env p ''PORT'' = Some [] then \<exists>msg. main_port dflt p = Inl (PyException ''ValueError'' msg) else \<exists>i. main_port dflt p = Inr i"
proof -
  have "env_value p ''PORT'' = [] \<or> int_of_str (env_value p ''PORT'') \<noteq> None"
    using validate_env_char [of required p] assms(1) by (fastforce simp: NUMERIC_def)
  moreover have "int_of_str [] = None" by code_simp
  ultimately show ?thesis
    using assms(2) by (cases "env p ''PORT''") (auto simp: main_port_def env_value_def getenv_def Let_def)
qed

text \<open>
  The auth module reads \<open>AUTH_DEP_LATENCY\<close> before the factory validates the environment: a malformed
  value raises a bare \<open>ValueError\<close> on import, not the \<open>RuntimeError\<close> with which \<open>validate_env\<close> would have
  named the variable.
\<close>

lemma auth_import_precedes_validation:
  assumes "env p ''AUTH_DEP_LATENCY'' = Some raw" "raw \<noteq> []" "float_of_str raw = None"
  shows "auth_module p = Inl (PyException ''ValueError'' (''could not convert string to float: '' @ str_repr raw)) \<and>
    (\<exists>msg. validate_env [] p = Inl (PyException ''RuntimeError'' msg))"
proof -
  have "validate_env [] p \<noteq> Inr ()"
    using validate_env_char [of "[]" p] assms by (auto simp: NUMERIC_def env_value_def getenv_def)
  then show ?thesis using assms validate_env_char [of "[]" p] by (auto simp: auth_module_def getenv_def float_of_env_def)
qed

section \<open>Status documents\<close>

text \<open>JSON proper has no \<open>NaN\<close> or \<open>Infinity\<close>, and the framework renders with \<open>allow_nan=False\<close>.\<close>

fun finite_numbers :: "json \<Rightarrow> bool" where
  "finite_numbers (JFloat f) = (case f of Fin x \<Rightarrow> True | _ \<Rightarrow> False)"
| "finite_numbers (JList js) = list_all finite_numbers js"
| "finite_numbers (JObj kvs) = list_all (\<lambda>(k, j). finite_numbers j) kvs"
| "finite_numbers _ = True"

definition json_strict :: "json \<Rightarrow> bool" where
  "json_strict j \<longleftrightarrow> json_ok j \<and> finite_numbers j"

text \<open>Numbers of a moderate size, on which no operation below overflows.\<close>

definition moderate :: "nat \<Rightarrow> pyfloat \<Rightarrow> bool" where
  "moderate k f \<longleftrightarrow> (case f of Fin x \<Rightarrow> \<bar>x\<bar> \<le> 2 ^ k | _ \<Rightarrow> False)"

lemma moderateE: assumes "moderate k f" obtains x where "f = Fin x" "\<bar>x\<bar> \<le> 2 ^ k"
  using assms by (cases f) (auto simp: moderate_def)

lemma moderate_finite: "moderate k f \<Longrightarrow> finite_numbers (JFloat f)"
  by (cases f) (simp_all add: moderate_def)

lemma moderate_mono: "moderate k f \<Longrightarrow> k \<le> m \<Longrightarrow> moderate m f"
  by (cases f) (auto simp: moderate_def intro: order_trans [OF _ power_increasing])

lemma moderate_round64:
  assumes "\<bar>x\<bar> \<le> 2 ^ k" "k \<le> 60"
  shows "moderate k (round64 x)"
proof -
  have "(2 :: rat) ^ k \<le> 2 ^ 60" using assms(2) by (intro power_increasing) simp_all
  then have lim: "\<bar>2 ^ k :: rat\<bar> < f64_lim" "\<bar>- (2 ^ k) :: rat\<bar> < f64_lim" using f64_lim_gt [of "2 ^ k"] by simp_all
  have rep: "rep64 (2 ^ k)" using rep64_pow2 [of "int k"] by (simp add: power_int_def)
  then have "rep64 (- (2 ^ k))" by simp
  then have "round64 x \<le> Fin (2 ^ k)" "Fin (- (2 ^ k)) \<le> round64 x"
    using round64_le_Fin [OF rep lim(1), of x] round64_ge_Fin [OF _ lim(2), of x] assms(1) by (simp_all add: abs_le_iff)
  then show ?thesis by (cases "round64 x") (simp_all add: moderate_def abs_le_iff)
qed

lemma moderate_diff: "moderate k f \<Longrightarrow> moderate k g \<Longrightarrow> k < 60 \<Longrightarrow> moderate (Suc k) (f - g)"
  by (elim moderateE) (auto intro!: moderate_round64)

lemma moderate_max: "moderate k f \<Longrightarrow> moderate k (pymax 0 f)"
  by (auto simp: pymax_def moderate_def zero_pyfloat_def)

lemma moderate_pyround:
  assumes "moderate k f" "k < 60"
  shows "moderate (Suc k) (pyround f n)"
proof -
  obtain x where x: "f = Fin x" "\<bar>x\<bar> \<le> 2 ^ k" using assms(1) by (rule moderateE)
  define h where "h = (of_int (half_even (x * 10 ^ n)) :: rat)"
  have p: "(1 :: rat) \<le> 10 ^ n" "(1 :: rat) \<le> 2 ^ k" by (simp_all add: one_le_power)
  have "\<bar>h - x * 10 ^ n\<bar> \<le> 1 / 2" using half_even_err [of "x * 10 ^ n"] by (simp add: h_def)
  then have "\<bar>h / 10 ^ n - x\<bar> \<le> 1 / 2 / 10 ^ n"
    by (simp add: field_simps abs_le_iff)
  also have "\<dots> \<le> 1" using p(1) by (simp add: divide_le_eq) (use p(1) in linarith)
  finally have "\<bar>h / 10 ^ n\<bar> \<le> \<bar>x\<bar> + 1" by linarith
  then have "\<bar>h / 10 ^ n\<bar> \<le> 2 ^ Suc k" using x(2) p(2) unfolding power_Suc by linarith
  then have "moderate (Suc k) (round64 (h / 10 ^ n))" using assms(2) by (intro moderate_round64) simp_all
  then show ?thesis by (simp add: x(1) h_def)
qed

lemma pyround_wellformed: "is_f64 (pyround f n)"
  by (cases f) (simp_all add: is_f64_def [of PInf] is_f64_def [of NInf] is_f64_def [of NaN])

lemma pyround_strict [simp]:
  "json_ok (JFloat (pyround f n))" "moderate k f \<Longrightarrow> k < 60 \<Longrightarrow> finite_numbers (JFloat (pyround f n))"
  using pyround_wellformed moderate_finite [OF moderate_pyround] by (simp_all del: finite_numbers.simps)

lemma megabytes_moderate:
  assumes "0 \<le> n" "n \<le> 2 ^ 50" shows "moderate 50 (megabytes n)"
proof -
  have "(of_int n :: rat) \<le> of_int (2 ^ 50)" using assms(2) of_int_le_iff by blast
  then have "\<bar>of_int n / 1024 :: rat\<bar> \<le> 2 ^ 50" using assms(1) by simp
  then have "moderate 50 (round64 (of_int n / 1024))" by (intro moderate_round64) simp_all
  then obtain x where x: "round64 (of_int n / 1024) = Fin x" "\<bar>x\<bar> \<le> 2 ^ 50" by (rule moderateE)
  then have "\<bar>x / 1024\<bar> \<le> 2 ^ 50" by simp
  then show ?thesis using x(1) moderate_round64 [of "x / 1024" 50] by (simp add: megabytes_def)
qed

lemma chaos_status_strict:
  assumes "settings_ok (cstate c)" "memory_ok (cstate c)" "memory_bytes (cstate c) \<le> 2 ^ 50"
  shows "json_strict (chaos_status c)"
proof -
  obtain x r where s: "latency_seconds (cstate c) = Fin x" "0 \<le> x" "x \<le> 10" "error_rate (cstate c) = Fin r" "0 \<le> r" "r \<le> 1"
    using assms(1) by (auto simp: settings_ok_def)
  have "moderate 50 (latency_seconds (cstate c))" using s(1-3) by (simp add: moderate_def)
  moreover have "moderate 50 (error_rate (cstate c) * Fin 100)" using s(4-6) by (auto intro: moderate_round64)
  moreover have "moderate 50 (megabytes (memory_bytes (cstate c)))"
    using assms(2,3) by (intro megabytes_moderate) (auto simp: memory_ok_def)
  ultimately show ?thesis
    by (simp add: json_strict_def chaos_status_def chaos_snapshot_def pyround_wellformed
        pyround_strict(2) [of 50, unfolded finite_numbers.simps] del: pyround.simps)
qed

text \<open>A breaker whose timeout and opening time are moderate, such as every one of the services.\<close>

definition breaker_moderate :: "breaker \<Rightarrow> bool" where
  "breaker_moderate b \<longleftrightarrow> is_f64 (recovery_timeout (config b)) \<and> moderate 50 (recovery_timeout (config b)) \<and>
     (case opened_at (load_rec b) of None \<Rightarrow> True | Some t \<Rightarrow> moderate 50 t)"

lemma cb_snapshot_strict:
  assumes "breaker_moderate b" "moderate 50 now"
  shows "json_strict (cb_snapshot now b)"
proof -
  have "moderate 52 (pymax 0 (recovery_timeout (config b) - (now - t)))" if "opened_at (load_rec b) = Some t" for t
  proof -
    have "moderate 51 (now - t)" using moderate_diff [of 50 now t] assms that by (simp add: breaker_moderate_def)
    moreover have "moderate 51 (recovery_timeout (config b))"
      by (rule moderate_mono [of 50]) (use assms(1) in \<open>simp_all add: breaker_moderate_def\<close>)
    ultimately have "moderate 52 (recovery_timeout (config b) - (now - t))" using moderate_diff [of 51] by simp
    then show ?thesis by (rule moderate_max)
  qed
  then have secs: "finite_numbers (JFloat (pyround (pymax 0 (recovery_timeout (config b) - (now - t))) 2))"
    if "opened_at (load_rec b) = Some t" for t using pyround_strict(2) [of 52] that by simp
  have cfg: "is_f64 (recovery_timeout (config b))" "finite_numbers (JFloat (recovery_timeout (config b)))"
    using assms(1) moderate_finite [of 50] by (simp_all add: breaker_moderate_def del: finite_numbers.simps)
  show ?thesis
    using secs cfg
    by (cases "opened_at (load_rec b)") (simp_all add: json_strict_def cb_snapshot_def pyround_wellformed Let_def del: finite_numbers.simps(1))
qed

lemma breaker_status_strict:
  assumes "list_all (\<lambda>(n, b). breaker_moderate b) reg" "moderate 50 now"
  shows "json_strict (breaker_status now reg)"
  using assms cb_snapshot_strict [OF _ assms(2)]
  by (fastforce simp: json_strict_def breaker_status_def all_breakers_def list_all_iff)

definition run_checks :: "(string \<times> pyfloat) list \<Rightarrow> platform \<Rightarrow> limiter \<Rightarrow> limiter" where
  "run_checks qs p l = fold (\<lambda>(k, t) l. fst (snd (check k t l p))) qs l"

lemma run_checks_keeps:
  assumes "bops l = bucket_mem_ops" "store_ok r b t (bstore l)" "sorted (t # map snd qs)"
  shows "rps (run_checks (stamped qs) p l) = rps l \<and> burst (run_checks (stamped qs) p l) = burst l \<and>
    bops (run_checks (stamped qs) p l) = bucket_mem_ops \<and> (\<exists>t. store_ok r b t (bstore (run_checks (stamped qs) p l)))"
  using assms
proof (induction qs arbitrary: l t)
  case (Cons q qs)
  obtain k u where q: "q = (k, u)" by force
  let ?l = "fst (snd (check k (Fin u) l p))"
  have "store_ok r b u (snd (take_token k (Fin u) (bstore l)))" "\<exists>res. fst (take_token k (Fin u) (bstore l)) = Inr res"
    using consume_store_ok [OF Cons.prems(2), of u k] Cons.prems(3) q by auto
  then obtain res s where tk: "take_token k (Fin u) (bstore l) = (Inr res, s)" "store_ok r b u s" by (metis prod.collapse)
  have l: "?l = l\<lparr>bstore := s\<rparr>" using check_mem [OF Cons.prems(1) tk(1)] by simp
  show ?case using Cons.IH [of ?l u] Cons.prems q l tk(2) by (simp add: run_checks_def)
qed (auto simp: run_checks_def)

lemma limiter_snapshot_strict:
  assumes "bops l = bucket_mem_ops" "store_ok r b t (bstore l)" "rps l = Fin r" "burst l = Fin b" "is_f64 (Fin r)" "b \<le> 2 ^ 50"
  shows "json_strict (limiter_snapshot l)"
proof -
  have st: "dict_ok (buckets (bstore l))" "is_f64 (Fin b)" "\<forall>(k, v) \<in> set (buckets (bstore l)). bucket_ok b t v"
    using assms(2) by (auto simp: store_ok_def limits_ok_def is_f64_def)
  have "distinct (map fst (take 20 (buckets (bstore l))))"
    using st(1) by (simp add: dict_ok_def take_map [symmetric] distinct_take)
  moreover have "map fst (map (\<lambda>(k, v). (k, JFloat v)) (sample 20 (bstore l))) = map fst (take 20 (buckets (bstore l)))"
    by (auto simp: sample_def)
  moreover have "json_ok (JFloat (pyround (fst v) 2)) \<and> finite_numbers (JFloat (pyround (fst v) 2))"
    if "(k, v) \<in> set (take 20 (buckets (bstore l)))" for k v
  proof -
    have "bucket_ok b t v" using st(3) in_set_takeD [OF that] by auto
    then have "moderate 50 (fst v)" using assms(6) by (auto simp: bucket_ok_def moderate_def)
    then show ?thesis using pyround_strict(1) [of "fst v" 2] pyround_strict(2) [of 50 "fst v" 2] by (simp del: finite_numbers.simps json_ok.simps)
  qed
  then have "list_all (\<lambda>(k, j). json_ok j) (map (\<lambda>(k, v). (k, JFloat v)) (sample 20 (bstore l))) \<and>
      list_all (\<lambda>(k, j). finite_numbers j) (map (\<lambda>(k, v). (k, JFloat v)) (sample 20 (bstore l)))"
    by (fastforce simp: sample_def list_all_iff simp del: finite_numbers.simps json_ok.simps)
  ultimately show ?thesis
    using assms st(2) by (simp add: json_strict_def limiter_snapshot_def bucket_mem_ops_def del: map_map)
qed

text \<open>
  C33. The status documents are strict JSON, which the framework can render: all numbers are finite
  binary64 values and keys are distinct, and what is printed reads back as the same document. So are
  the chaos status in every reachable state that accounts for at most \<open>2^50\<close> bytes, the breaker status
  for timeouts and clock readings up to \<open>2^50\<close> seconds, and the limiter status of a limiter with a finite
  rate and a burst up to \<open>2^50\<close>, neither negative, after any requests under a clock that does not run
  backwards.
\<close>

theorem status_documents_wellformed:
  assumes "chaos_reach allowed_op srv c q" "memory_bytes (cstate c) \<le> 2 ^ 50"
    and "list_all (\<lambda>(n, b). breaker_moderate b) reg" "moderate 50 now"
    and "l = new_limiter (Fin r) (Fin b)" "0 \<le> r" "is_f64 (Fin r)" "0 \<le> b" "b \<le> 2 ^ 50" "is_f64 (Fin b)" "sorted (map snd qs)"
  shows "\<forall>j \<in> {chaos_status c, breaker_status now reg, limiter_snapshot (run_checks (stamped qs) p l)}.
    json_strict j \<and> loads (dumps j) = Some j"
proof -
  have "json_strict (chaos_status c)"
    using reach_chaos_ok [OF assms(1)] assms(2) by (intro chaos_status_strict) simp_all
  moreover have "json_strict (breaker_status now reg)" by (rule breaker_status_strict [OF assms(3,4)])
  moreover have "json_strict (limiter_snapshot (run_checks (stamped qs) p l))"
  proof -
    let ?t = "case qs of [] \<Rightarrow> 0 | q # _ \<Rightarrow> snd q"
    have "store_ok r b ?t (bstore l)" using assms(5-10) by (simp add: new_limiter_def new_store_ok is_f64_def)
    moreover have "sorted (?t # map snd qs)" using assms(11) by (cases qs) auto
    ultimately show ?thesis
      using run_checks_keeps [of l r b ?t qs p] limiter_snapshot_strict assms(5,7,9) by (auto simp: new_limiter_def)
  qed
  ultimately show ?thesis using loads_dumps by (auto simp: json_strict_def)
qed

theorem status_documents_wellformed_witness:
  "json_strict (limiter_snapshot (run_checks (stamped [(''10.0.0.1'', 1), (''10.0.0.2'', 2)]) (boot new_year) (new_limiter (Fin 10) (Fin 20)))) \<and>
   json_strict (chaos_status (fst (exec_all busy_run (new_controller ''api'' (boot new_year))))) \<and>
   json_strict (breaker_status (Fin 15) [(''auth'', fst (run_ops (replicate 5 (Failure (Fin 10))) (demo_breaker, boot new_year)))])"
proof -
  let ?b = "fst (run_ops (replicate 5 (Failure (Fin 10))) (demo_breaker, boot new_year))"
  obtain c q where r: "exec_all busy_run (new_controller ''api'' (boot new_year)) = (c, q)" by force
  have reach: "chaos_reach (\<lambda>_ _. True) ''api'' c q" by (rule busy_reach [OF r])
  have mem: "memory_bytes (cstate c) \<le> 2 ^ 50"
    using arg_cong [OF r [symmetric], of "\<lambda>r. memory_bytes (cstate (fst r))"] by (simp add: busy_run_def chaos_eval set_latency_def)
  have "phase_of ?b = SOpen 5 (Fin 10)"
    using in_memory.steps_refine [of "(demo_breaker, boot new_year)" "replicate 5 (Failure (Fin 10))"]
    by (simp add: numeral_eq_Suc)
  then have "opened_at (load_rec ?b) = Some (Fin 10)"
    by (auto simp: phase_of_def rec_phase_def opened_or_zero_def split: breaker_state.splits option.splits)
  then have "breaker_moderate ?b" by (simp add: breaker_moderate_def moderate_def is_f64_def)
  then have "\<forall>j \<in> {chaos_status c, breaker_status (Fin 15) [(''auth'', ?b)],
      limiter_snapshot (run_checks (stamped [(''10.0.0.1'', 1), (''10.0.0.2'', 2)]) (boot new_year) (new_limiter (Fin 10) (Fin 20)))}.
      json_strict j \<and> loads (dumps j) = Some j"
    by (intro status_documents_wellformed [OF reach mem _ _ refl]) (simp_all add: moderate_def is_f64_def)
  then show ?thesis using r by simp
qed

text \<open>
  A setting that passes the validation of the environment and breaks the limiter status: with
  \<open>RATE_LIMIT_BURST=inf\<close> the document holds an infinity, which the framework refuses to render.
\<close>

lemma infinite_burst_status:
  assumes "env p = [''RATE_LIMIT_BURST'' \<mapsto> ''inf'']"
  shows "validate_env [] p = Inr () \<and> (\<exists>l d. get_limiter None p = (Inr l, d) \<and> \<not> finite_numbers (limiter_snapshot l))"
proof -
  have inf: "float_of_str ''inf'' = Some PInf" by code_simp
  have "get_limiter None p = (Inr (new_limiter (Fin 10) PInf), Some (new_limiter (Fin 10) PInf))"
    using assms inf default_limits by (simp add: get_limiter_def getenv_def float_of_env_def Let_def)
  moreover have "validate_env [] p = Inr ()"
    using validate_env_char [of "[]" p] assms inf by (auto simp: NUMERIC_def env_value_def getenv_def)
  ultimately show ?thesis by (auto simp: limiter_snapshot_def new_limiter_def)
qed

end
